(* ===== verification/Prelude.thy ===== *)
theory Prelude
  imports Main "HOL-Library.Word" "HOL-Library.List_Lexorder" "HOL-Library.Char_ord"
    "HOL-Library.Multiset"
begin

text \<open>
  Shared vocabulary of the development: the machine integer types of the C++ sources,
  \<open>std::map\<close> as a sorted association list, and the generic lemmas about both.

  A C++ \<open>std::string\<close> is a \<^typ>\<open>string\<close>: a list of bytes.  \<open>std::map<K, V>\<close> iterates in key
  order and compares \<open>std::string\<close> keys as unsigned bytes, lexicographically, which is the
  order that List_Lexorder and Char_ord give to \<^typ>\<open>string\<close>.  So a map is the list of its
  entries in iteration order; \<open>find\<close>, \<open>operator[] =\<close> and \<open>erase\<close> are \<open>map_of\<close>, \<open>om_put\<close>
  and \<open>om_del\<close> below.
\<close>

type_synonym u8 = "8 word"
type_synonym u16 = "16 word"
type_synonym u32 = "32 word"
type_synonym u64 = "64 word"

text \<open>Collections: facts on ordered maps, and facts on wire codecs.\<close>

named_theorems om_simps \<open>rewriting of ordered map operations\<close>
named_theorems codec_simps \<open>rewriting of printers and parsers\<close>
named_theorems wf_intros \<open>introduction rules for well-formedness invariants\<close>

section \<open>Ordered maps\<close>

type_synonym ('k, 'v) omap = "('k \<times> 'v) list"

definition om_wf :: "('k::linorder, 'v) omap \<Rightarrow> bool" where
  "om_wf m \<longleftrightarrow> sorted_wrt (<) (map fst m)"

primrec om_put :: "'k::linorder \<Rightarrow> 'v \<Rightarrow> ('k, 'v) omap \<Rightarrow> ('k, 'v) omap" where
  "om_put k v [] = [(k, v)]"
| "om_put k v (e # m) =
     (if fst e = k then (k, v) # m
      else if k < fst e then (k, v) # e # m
      else e # om_put k v m)"

definition om_del :: "'k \<Rightarrow> ('k, 'v) omap \<Rightarrow> ('k, 'v) omap" where
  "om_del k m = filter (\<lambda>e. fst e \<noteq> k) m"

definition om_keys :: "('k, 'v) omap \<Rightarrow> 'k set" where
  "om_keys m = fst ` set m"

subsection \<open>Lookup\<close>

lemma om_get_put [om_simps]: "map_of (om_put k v m) = (map_of m)(k \<mapsto> v)"
  by (induction m) auto

lemma om_get_put_eq [simp]: "map_of (om_put k v m) k' = (if k' = k then Some v else map_of m k')"
  by (simp add: om_get_put)

lemma om_get_del [om_simps]: "map_of (om_del k m) = (map_of m)(k := None)"
  by (induction m) (auto simp: om_del_def)

lemma om_get_del_eq [simp]: "map_of (om_del k m) k' = (if k' = k then None else map_of m k')"
  by (simp add: om_get_del)

lemma om_keys_iff: "k \<in> om_keys m \<longleftrightarrow> map_of m k \<noteq> None"
  by (auto simp: om_keys_def map_of_eq_None_iff)

lemma om_keys_None: "k \<notin> om_keys m \<longleftrightarrow> map_of m k = None"
  by (simp add: om_keys_iff)

lemma om_keys_put [simp]: "om_keys (om_put k v m) = insert k (om_keys m)"
  by (auto simp: om_keys_iff split: if_splits)

lemma om_keys_del [simp]: "om_keys (om_del k m) = om_keys m - {k}"
  by (auto simp: om_keys_iff split: if_splits)

lemma om_keys_Nil [simp]: "om_keys [] = {}"
  by (simp add: om_keys_def)

lemma om_keys_Cons [simp]: "om_keys (e # m) = insert (fst e) (om_keys m)"
  by (simp add: om_keys_def)

lemma finite_om_keys [simp]: "finite (om_keys m)"
  by (simp add: om_keys_def)

subsection \<open>Well-formedness\<close>

lemma om_wf_Nil [simp]: "om_wf []"
  by (simp add: om_wf_def)

lemma om_wf_Cons [simp]: "om_wf (e # m) \<longleftrightarrow> (\<forall>k \<in> om_keys m. fst e < k) \<and> om_wf m"
  by (auto simp: om_wf_def om_keys_def)

lemma om_wf_put [simp, wf_intros]: "om_wf m \<Longrightarrow> om_wf (om_put k v m)"
  by (induction m) auto

lemma om_wf_filter [simp, wf_intros]: "om_wf m \<Longrightarrow> om_wf (filter P m)"
  by (induction m) (auto simp: om_keys_def)

lemma om_wf_del [simp, wf_intros]: "om_wf m \<Longrightarrow> om_wf (om_del k m)"
  by (simp add: om_del_def)

lemma om_wf_distinct: "om_wf m \<Longrightarrow> distinct (map fst m)"
  by (simp add: om_wf_def strict_sorted_iff)

lemma om_in_set_iff: "om_wf m \<Longrightarrow> (k, v) \<in> set m \<longleftrightarrow> map_of m k = Some v"
  by (simp add: om_wf_distinct map_of_eq_Some_iff)

lemma om_wf_map_snd [simp, wf_intros]: "om_wf m \<Longrightarrow> om_wf (map (\<lambda>(k, v). (k, f k v)) m)"
  by (induction m) (auto simp: om_keys_def)

lemma map_of_map_snd: "map_of (map (\<lambda>(k, v). (k, f k v)) m) k = map_option (f k) (map_of m k)"
  by (induction m) auto

lemma map_of_filter:
  "om_wf m \<Longrightarrow> map_of (filter P m) k =
     (case map_of m k of None \<Rightarrow> None | Some v \<Rightarrow> if P (k, v) then Some v else None)"
proof (induction m)
  case (Cons e m)
  have "map_of m (fst e) = None"
    using Cons.prems by (auto simp: om_keys_None [symmetric])
  with Cons show ?case by (cases e) (auto split: option.split)
qed simp

lemma om_length_keys: "om_wf m \<Longrightarrow> length m = card (om_keys m)"
  using distinct_card[OF om_wf_distinct, of m] by (simp add: om_keys_def)

text \<open>Two well-formed maps with the same lookups are the same list: the canonical form.\<close>

lemma om_ext:
  assumes "om_wf a" "om_wf b" "\<And>k. map_of a k = map_of b k"
  shows "a = b"
proof -
  have "set a = set b"
    using assms by (auto simp: om_in_set_iff)
  then have keys: "map fst a = map fst b"
    using assms(1,2) by (metis list.set_map om_wf_def strict_sorted_equal)
  show ?thesis
  proof (rule nth_equalityI)
    show len: "length a = length b"
      using keys by (metis length_map)
    fix i assume i: "i < length a"
    have fst_eq: "fst (a ! i) = fst (b ! i)"
      using keys i len by (metis nth_map)
    have "map_of a (fst (a ! i)) = Some (snd (a ! i))"
      using assms(1) i by (metis nth_mem om_in_set_iff prod.collapse)
    moreover have "map_of b (fst (b ! i)) = Some (snd (b ! i))"
      using assms(2) i len by (metis nth_mem om_in_set_iff prod.collapse)
    ultimately show "a ! i = b ! i"
      using assms(3) fst_eq by (metis option.inject prod.expand)
  qed
qed

lemma om_put_last:
  "\<lbrakk> om_wf m; \<forall>k' \<in> om_keys m. k' < k \<rbrakk> \<Longrightarrow> om_put k v m = m @ [(k, v)]"
  by (induction m) (auto dest: less_asym)

section \<open>Lists\<close>

text \<open>Two subsets of a finite set whose sizes add up to more than it intersect.\<close>

lemma card_overlap:
  assumes "finite E" "S \<subseteq> E" "T \<subseteq> E" "card E < card S + card T"
  shows "\<exists>x. x \<in> S \<and> x \<in> T"
proof (rule ccontr)
  assume "\<nexists>x. x \<in> S \<and> x \<in> T"
  then have "S \<inter> T = {}" by blast
  moreover have "finite S" "finite T"
    using assms(1-3) by (auto intro: finite_subset)
  ultimately have "card (S \<union> T) = card S + card T"
    by (simp add: card_Un_disjoint)
  moreover have "card (S \<union> T) \<le> card E"
    using assms(1-3) by (simp add: card_mono)
  ultimately show False using assms(4) by simp
qed

section \<open>Words\<close>

lemma unat_lt_2p64: "unat (w :: u64) < 2 ^ 64"
  using unsigned_less [of w] by simp

lemma unat_of_char:
  assumes "8 \<le> LENGTH('a::len)"
  shows "unat (of_char c :: 'a word) = (of_char c :: nat)"
proof -
  have "(2 :: nat) ^ 8 \<le> 2 ^ LENGTH('a)"
    using assms by (rule power_increasing) simp
  then have "(of_char c :: nat) < 2 ^ LENGTH('a)"
    by (intro less_le_trans [OF nat_of_char_less_256]) simp
  then have "unat (word_of_nat (of_char c) :: 'a word) = of_char c"
    by (simp only: unat_of_nat mod_less)
  then show ?thesis by (simp only: of_nat_of_char)
qed

lemma unat_succ: "w \<noteq> - 1 \<Longrightarrow> unat (w + 1 :: 'a::len word) = Suc (unat w)"
  by (metis add.commute add_eq_0_iff unatSuc)

lemma word_less_succ: "w \<noteq> - 1 \<Longrightarrow> w < (w + 1 :: 'a::len word)"
  by (simp add: word_less_nat_alt unat_succ)

end
