(* ===== verification/Text_Codec.thy ===== *)
theory Text_Codec
  imports Prelude
begin

text \<open>
  The parts of the C++ string library that the wire formats use: \<open>std::string::find\<close>, the
  field splitters (\<open>splitAll\<close> of node.cpp and the replica clients, \<open>split\<close> of
  gossip_thread.cpp), \<open>std::getline\<close> with a delimiter, decimal printing, and
  \<open>std::stoull\<close> / \<open>std::stoi\<close> with the exceptions they throw as \<^const>\<open>None\<close>.
\<close>

section \<open>Splitting and joining\<close>

primrec str_find :: "char \<Rightarrow> string \<Rightarrow> nat option" where
  "str_find d [] = None"
| "str_find d (c # s) = (if c = d then Some 0 else map_option Suc (str_find d s))"

lemma str_find_None [simp]: "str_find d s = None \<longleftrightarrow> d \<notin> set s"
  by (induction s) auto

lemma str_find_clean [simp]: "d \<notin> set s \<Longrightarrow> str_find d s = None"
  by simp

lemma str_find_bound: "str_find d s = Some p \<Longrightarrow> p < length s"
  by (induction s arbitrary: p) (auto split: if_splits)

lemma str_find_at: "str_find d s = Some p \<Longrightarrow> s = take p s @ d # drop (Suc p) s \<and> d \<notin> set (take p s)"
  by (induction s arbitrary: p) (auto split: if_splits)

lemma str_find_append [simp]: "d \<notin> set a \<Longrightarrow> str_find d (a @ d # b) = Some (length a)"
  by (induction a) auto

text \<open>
  The splitter keeps empty fields: the loop of the source cuts at the next delimiter from
  \<open>start\<close> on, and the part after the last delimiter is the last field.
\<close>

function splitAll :: "string \<Rightarrow> char \<Rightarrow> string list" where
  "splitAll s d =
     (case str_find d s of
        None \<Rightarrow> [s]
      | Some p \<Rightarrow> take p s # splitAll (drop (Suc p) s) d)"
  by pat_completeness auto
termination
  by (relation "measure (length \<circ> fst)") (auto dest: str_find_bound)

declare splitAll.simps [simp del]

text \<open>\<open>getline (ss, token, d)\<close> until it fails: no token for an empty rest of the stream.\<close>

function getline_all :: "string \<Rightarrow> char \<Rightarrow> string list" where
  "getline_all s d =
     (if s = [] then []
      else case str_find d s of
             None \<Rightarrow> [s]
           | Some p \<Rightarrow> take p s # getline_all (drop (Suc p) s) d)"
  by pat_completeness auto
termination
  by (relation "measure (length \<circ> fst)") (auto dest: str_find_bound)

declare getline_all.simps [simp del]

text \<open>\<open>field (f, i)\<close>: the i-th field or the empty string.\<close>

definition field :: "string list \<Rightarrow> nat \<Rightarrow> string" where
  "field f i = (if i < length f then f ! i else [])"

text \<open>Fields written one after the other with a delimiter between them.\<close>

fun join :: "char \<Rightarrow> string list \<Rightarrow> string" where
  "join d [] = []"
| "join d [x] = x"
| "join d (x # xs) = x @ d # join d xs"

lemma join_Cons: "xs \<noteq> [] \<Longrightarrow> join d (x # xs) = x @ d # join d xs"
  by (cases xs) auto

lemma set_join: "set (join d xs) \<subseteq> insert d (\<Union> (set ` set xs))"
  by (induction d xs rule: join.induct) auto

lemma join_clean: "\<lbrakk> c \<noteq> d; \<forall>x \<in> set xs. c \<notin> set x \<rbrakk> \<Longrightarrow> c \<notin> set (join d xs)"
  using set_join [of d xs] by auto

lemma join_Nil_iff: "join d xs = [] \<longleftrightarrow> xs = [] \<or> xs = [[]]"
  by (induction d xs rule: join.induct) auto

lemma splitAll_clean [simp]: "d \<notin> set s \<Longrightarrow> splitAll s d = [s]"
  by (simp add: splitAll.simps)

lemma splitAll_append [simp]: "d \<notin> set a \<Longrightarrow> splitAll (a @ d # b) d = a # splitAll b d"
  by (subst splitAll.simps) (simp del: str_find_None)

lemma splitAll_Cons [simp]: "splitAll (d # b) d = [] # splitAll b d"
  using splitAll_append [of d "[]" b] by simp

lemma splitAll_nonempty [simp]: "splitAll s d \<noteq> []"
  by (subst splitAll.simps) (simp split: option.split del: str_find_None)

lemma splitAll_join [codec_simps]:
  "\<lbrakk> xs \<noteq> []; \<forall>x \<in> set xs. d \<notin> set x \<rbrakk> \<Longrightarrow> splitAll (join d xs) d = xs"
  by (induction d xs rule: join.induct) auto

lemma join_splitAll: "join d (splitAll s d) = s"
proof (induction s d rule: splitAll.induct)
  case (1 s d)
  show ?case
  proof (cases "str_find d s")
    case None
    then show ?thesis by simp
  next
    case (Some p)
    then have "join d (splitAll (drop (Suc p) s) d) = drop (Suc p) s"
      using "1.IH" by simp
    with Some str_find_at [OF Some] show ?thesis
      by (subst splitAll.simps) (simp add: join_Cons)
  qed
qed

lemma splitAll_fields: "f \<in> set (splitAll s d) \<Longrightarrow> d \<notin> set f \<and> set f \<subseteq> set s"
proof (induction s d rule: splitAll.induct)
  case (1 s d)
  show ?case
  proof (cases "str_find d s")
    case None
    with "1.prems" show ?thesis by simp
  next
    case (Some p)
    with "1.prems" have "f = take p s \<or> f \<in> set (splitAll (drop (Suc p) s) d)"
      by (subst (asm) splitAll.simps) simp
    then show ?thesis
    proof
      assume "f = take p s"
      with str_find_at [OF Some] show ?thesis by (auto dest: in_set_takeD)
    next
      assume "f \<in> set (splitAll (drop (Suc p) s) d)"
      with "1.IH" [OF Some] show ?thesis by (auto dest: in_set_dropD)
    qed
  qed
qed

lemma getline_all_Nil [simp]: "getline_all [] d = []"
  by (simp add: getline_all.simps)

lemma getline_all_clean [simp]: "\<lbrakk> d \<notin> set s; s \<noteq> [] \<rbrakk> \<Longrightarrow> getline_all s d = [s]"
  by (simp add: getline_all.simps)

lemma getline_all_append [simp]: "d \<notin> set a \<Longrightarrow> getline_all (a @ d # b) d = a # getline_all b d"
  by (subst getline_all.simps) (simp del: str_find_None)

lemma getline_all_fields: "f \<in> set (getline_all s d) \<Longrightarrow> d \<notin> set f \<and> set f \<subseteq> set s"
proof (induction s d rule: getline_all.induct)
  case (1 s d)
  have "s \<noteq> []" using "1.prems" by auto
  show ?case
  proof (cases "str_find d s")
    case None
    with "1.prems" \<open>s \<noteq> []\<close> show ?thesis by simp
  next
    case (Some p)
    with "1.prems" \<open>s \<noteq> []\<close> have "f = take p s \<or> f \<in> set (getline_all (drop (Suc p) s) d)"
      by (subst (asm) getline_all.simps) simp
    then show ?thesis
    proof
      assume "f = take p s"
      with str_find_at [OF Some] show ?thesis by (auto dest: in_set_takeD)
    next
      assume "f \<in> set (getline_all (drop (Suc p) s) d)"
      with "1.IH" [OF \<open>s \<noteq> []\<close> Some] show ?thesis by (auto dest: in_set_dropD)
    qed
  qed
qed

lemma getline_all_join [codec_simps]:
  "\<lbrakk> \<forall>x \<in> set xs. x \<noteq> [] \<and> d \<notin> set x \<rbrakk> \<Longrightarrow> getline_all (join d xs) d = xs"
  by (induction d xs rule: join.induct) auto

lemma field_simps' [simp]:
  "field (x # xs) 0 = x" "field (x # xs) (Suc n) = field xs n" "field [] n = []"
  by (auto simp: field_def)

lemma field_numeral [simp]:
  "field (x # xs) (numeral k) = field xs (pred_numeral k)" "field (x # xs) 1 = field xs 0"
  by (simp_all add: numeral_eq_Suc)

section \<open>Decimal numbers\<close>

definition dec_digit :: "nat \<Rightarrow> char" where
  "dec_digit n = char_of (48 + n)"

definition is_digit :: "char \<Rightarrow> bool" where
  "is_digit c \<longleftrightarrow> 48 \<le> (of_char c :: nat) \<and> (of_char c :: nat) \<le> 57"

definition is_space :: "char \<Rightarrow> bool" where
  "is_space c \<longleftrightarrow> (of_char c :: nat) = 32 \<or> 9 \<le> (of_char c :: nat) \<and> (of_char c :: nat) \<le> 13"

fun dec_nat :: "nat \<Rightarrow> string" where
  "dec_nat n = (if n < 10 then [dec_digit n] else dec_nat (n div 10) @ [dec_digit (n mod 10)])"

declare dec_nat.simps [simp del]

definition dec_value :: "string \<Rightarrow> nat" where
  "dec_value s = foldl (\<lambda>a c. 10 * a + (of_char c - 48)) 0 s"

text \<open>\<open>std::to_string\<close> and \<open>operator<<\<close> of an unsigned integer.\<close>

definition dec_word :: "'a::len word \<Rightarrow> string" where
  "dec_word w = dec_nat (unat w)"

text \<open>
  \<open>strtoull\<close> and \<open>strtol\<close> skip white space, take an optional sign and read the longest run
  of decimal digits; what follows is ignored.  The C++ wrappers throw \<open>invalid_argument\<close>
  when there is no digit and \<open>out_of_range\<close> when the value does not fit; \<open>stoull\<close> negates
  modulo \<open>2 ^ 64\<close>.
\<close>

definition strto :: "string \<Rightarrow> (bool \<times> nat) option" where
  "strto s =
     (let t = dropWhile is_space s;
          neg = (t \<noteq> [] \<and> hd t = CHR ''-'');
          u = (if t \<noteq> [] \<and> (hd t = CHR ''-'' \<or> hd t = CHR ''+'') then tl t else t);
          ds = takeWhile is_digit u
      in if ds = [] then None else Some (neg, dec_value ds))"

definition stoull :: "string \<Rightarrow> u64 option" where
  "stoull s =
     (case strto s of
        None \<Rightarrow> None
      | Some (neg, v) \<Rightarrow>
          if v \<ge> 2 ^ 64 then None else Some (if neg then - word_of_nat v else word_of_nat v))"

text \<open>For evaluation the range test is made on binary integers.\<close>

lemma stoull_code [code]:
  "stoull s =
     (case strto s of
        None \<Rightarrow> None
      | Some (neg, v) \<Rightarrow>
          if int v \<ge> 0x10000000000000000 then None
          else Some (if neg then - word_of_nat v else word_of_nat v))"
proof -
  have "v \<ge> 2 ^ 64 \<longleftrightarrow> int v \<ge> 0x10000000000000000" for v :: nat by simp
  then show ?thesis by (simp only: stoull_def)
qed

definition stoi :: "string \<Rightarrow> int option" where
  "stoi s =
     (case strto s of
        None \<Rightarrow> None
      | Some (neg, v) \<Rightarrow>
          (let i = (if neg then - int v else int v)
           in if - (2 ^ 31) \<le> i \<and> i < 2 ^ 31 then Some i else None))"

text \<open>\<open>static_cast<uint16_t>\<close> of an \<open>int\<close>.\<close>

definition u16_of_int :: "int \<Rightarrow> u16" where
  "u16_of_int i = word_of_int i"

lemma of_char_dec_digit: "n < 10 \<Longrightarrow> (of_char (dec_digit n) :: nat) = 48 + n"
  by (simp add: dec_digit_def)

lemma is_digit_dec_digit [simp]: "n < 10 \<Longrightarrow> is_digit (dec_digit n)"
  by (simp add: is_digit_def of_char_dec_digit)

lemma dec_nat_digits: "c \<in> set (dec_nat n) \<Longrightarrow> is_digit c"
proof (induction n rule: dec_nat.induct)
  case (1 n)
  then show ?case by (subst (asm) dec_nat.simps) (auto split: if_splits)
qed

lemma dec_nat_nonempty [simp]: "dec_nat n \<noteq> []"
  by (subst dec_nat.simps) simp

lemma dec_value_snoc: "dec_value (s @ [c]) = 10 * dec_value s + (of_char c - 48)"
  by (simp add: dec_value_def)

lemma dec_value_dec_nat [codec_simps, simp]: "dec_value (dec_nat n) = n"
proof (induction n rule: dec_nat.induct)
  case (1 n)
  show ?case
  proof (cases "n < 10")
    case True
    then show ?thesis
      by (subst dec_nat.simps) (simp add: dec_value_def of_char_dec_digit)
  next
    case False
    with 1 show ?thesis
      by (subst dec_nat.simps) (simp add: dec_value_snoc of_char_dec_digit)
  qed
qed

lemma is_digit_no_sign:
  "is_digit c \<Longrightarrow> \<not> is_space c \<and> c \<noteq> CHR ''-'' \<and> c \<noteq> CHR ''+''"
  by (auto simp: is_digit_def is_space_def)

lemma is_digit_no_delim:
  "is_digit c \<Longrightarrow> c \<noteq> CHR ''|'' \<and> c \<noteq> CHR '':'' \<and> c \<noteq> CHR '','' \<and> c \<noteq> CHR '';'' \<and> c \<noteq> CHR 0x0A"
  by (auto simp: is_digit_def)

lemma strto_digits:
  assumes "ds \<noteq> []" "\<forall>c \<in> set ds. is_digit c"
  shows "strto ds = Some (False, dec_value ds)"
proof -
  obtain c cs where ds: "ds = c # cs" using assms(1) by (cases ds) auto
  have "is_digit c" using assms(2) ds by simp
  then have "dropWhile is_space ds = ds" "hd ds \<noteq> CHR ''-''" "hd ds \<noteq> CHR ''+''"
    using ds by (auto dest: is_digit_no_sign)
  moreover have "takeWhile is_digit ds = ds"
    using assms(2) by (simp add: takeWhile_eq_all_conv)
  ultimately show ?thesis
    using assms(1) unfolding strto_def Let_def by (simp only: if_False if_True simp_thms)
qed

lemma strto_dec_nat [simp]: "strto (dec_nat n) = Some (False, n)"
  by (subst strto_digits) (auto dest: dec_nat_digits)

lemma stoull_dec_word [codec_simps, simp]: "stoull (dec_word (w :: u64)) = Some w"
  using unat_lt_2p64 [of w] by (simp add: stoull_def dec_word_def)

lemma stoi_dec_word [codec_simps, simp]: "stoi (dec_word (w :: u16)) = Some (uint w)"
proof -
  have "unat w < 2 ^ 16" using unsigned_less [of w] by simp
  then show ?thesis by (simp add: stoi_def dec_word_def)
qed

lemma u16_roundtrip [codec_simps, simp]: "u16_of_int (uint w) = w"
  by (simp add: u16_of_int_def)

lemma dec_word_nonempty [simp]: "dec_word w \<noteq> []"
  by (simp add: dec_word_def)

lemma dec_word_digits: "c \<in> set (dec_word w) \<Longrightarrow> is_digit c"
  by (auto simp: dec_word_def dest: dec_nat_digits)

lemma dec_word_clean [simp]:
  "CHR ''|'' \<notin> set (dec_word w)" "CHR '':'' \<notin> set (dec_word w)"
  "CHR '','' \<notin> set (dec_word w)" "CHR '';'' \<notin> set (dec_word w)"
  by (auto dest: dec_word_digits is_digit_no_delim)

end
