(* ===== verification/Base64.thy ===== *)
theory Base64
  imports Text_Codec
begin

text \<open>
  base64.cpp: the encoder over blocks of three bytes with \<open>=\<close> padding, the decode table
  built from the alphabet, and the decoder with its 32-bit shift buffer.  The decoder inverts
  the encoder on every byte string although the buffer keeps stale high bits, and the output
  of the encoder uses only the alphabet and the padding, so it holds no wire delimiter.
\<close>

unbundle bit_operations_syntax

definition kAlphabet :: string where
  "kAlphabet = ''ABCDEFGHIJKLMNOPQRSTUVWXYZabcdefghijklmnopqrstuvwxyz0123456789+/''"

definition makeDecodeTable :: "u8 list" where
  "makeDecodeTable =
     fold (\<lambda>i t. t[of_char (kAlphabet ! i) := word_of_nat i]) [0..<64] (replicate 256 0xFF)"

definition kDecode :: "char \<Rightarrow> u8" where
  "kDecode c = makeDecodeTable ! of_char c"

text \<open>\<open>static_cast<uint8_t>(raw[i])\<close>, widened to the accumulator.\<close>

definition byte_u32 :: "char \<Rightarrow> u32" where
  "byte_u32 c = of_char c"

definition sextet :: "nat \<Rightarrow> u32 \<Rightarrow> char" where
  "sextet k n = kAlphabet ! unat (drop_bit k n AND 0x3F)"

fun encode :: "string \<Rightarrow> string" where
  "encode (a # b # c # raw) =
     (let n = push_bit 16 (byte_u32 a) OR push_bit 8 (byte_u32 b) OR byte_u32 c
      in [sextet 18 n, sextet 12 n, sextet 6 n, sextet 0 n] @ encode raw)"
| "encode [a] =
     (let n = push_bit 16 (byte_u32 a)
      in [sextet 18 n, sextet 12 n, CHR ''='', CHR ''=''])"
| "encode [a, b] =
     (let n = push_bit 16 (byte_u32 a) OR push_bit 8 (byte_u32 b)
      in [sextet 18 n, sextet 12 n, sextet 6 n, CHR ''=''])"
| "encode [] = []"

text \<open>The loop body of \<open>decode\<close>, with the buffer and the number of pending bits.\<close>

fun decode_from :: "u32 \<Rightarrow> nat \<Rightarrow> string \<Rightarrow> string" where
  "decode_from buffer bits [] = []"
| "decode_from buffer bits (c # s) =
     (let v = kDecode c
      in if v = 0xFF then decode_from buffer bits s
         else let buffer = push_bit 6 buffer OR ucast v; bits = bits + 6
              in if bits \<ge> 8
                 then char_of (unat (drop_bit (bits - 8) buffer AND 0xFF)) # decode_from buffer (bits - 8) s
                 else decode_from buffer bits s)"

definition decode :: "string \<Rightarrow> string" where
  "decode encoded = decode_from 0 0 encoded"

section \<open>The decode table\<close>

lemma fold_update_other:
  "x \<notin> f ` set is \<Longrightarrow> fold (\<lambda>i t. t[f i := g i]) is t ! x = t ! x"
  by (induction "is" arbitrary: t) auto

lemma fold_update_length [simp]:
  "length (fold (\<lambda>i t. t[f i := g i]) is t) = length t"
  by (induction "is" arbitrary: t) auto

lemma fold_update_at:
  "\<lbrakk> distinct (map f is); i \<in> set is; f i < length t \<rbrakk>
     \<Longrightarrow> fold (\<lambda>i t. t[f i := g i]) is t ! f i = g i"
proof (induction "is" arbitrary: t)
  case (Cons j js)
  show ?case
  proof (cases "i = j")
    case True
    with Cons.prems have "f i \<notin> f ` set js" by auto
    with True Cons.prems show ?thesis by (simp add: fold_update_other)
  next
    case False
    with Cons show ?thesis by simp
  qed
qed simp

lemma kAlphabet_length [simp]: "length kAlphabet = 64"
  by (simp add: kAlphabet_def)

lemma kAlphabet_distinct: "distinct kAlphabet"
  by (simp add: kAlphabet_def)

lemma kAlphabet_clean: "CHR ''='' \<notin> set kAlphabet" "CHR ''|'' \<notin> set kAlphabet"
  by (simp_all add: kAlphabet_def)

lemma kDecode_alphabet: "i < 64 \<Longrightarrow> kDecode (kAlphabet ! i) = word_of_nat i"
proof -
  assume i: "i < 64"
  have "inj_on (\<lambda>i. of_char (kAlphabet ! i) :: nat) {0..<64}"
    using kAlphabet_distinct by (auto intro!: inj_onI simp: nth_eq_iff_index_eq)
  then have "distinct (map (\<lambda>i. of_char (kAlphabet ! i) :: nat) [0..<64])"
    by (simp add: distinct_map)
  then show ?thesis
    unfolding kDecode_def makeDecodeTable_def
    by (rule fold_update_at) (use i in simp_all)
qed

lemma kDecode_other: "c \<notin> set kAlphabet \<Longrightarrow> kDecode c = 0xFF"
proof -
  assume c: "c \<notin> set kAlphabet"
  have "of_char c \<notin> (\<lambda>i. of_char (kAlphabet ! i) :: nat) ` set [0..<64]"
  proof
    assume "of_char c \<in> (\<lambda>i. of_char (kAlphabet ! i) :: nat) ` set [0..<64]"
    then obtain i where "i < 64" "(of_char c :: nat) = of_char (kAlphabet ! i)"
      by (auto simp del: of_char_eq_iff of_char_Char)
    then have "i < 64" "kAlphabet ! i = c" by (simp_all only: of_char_eq_iff)
    then have "c \<in> set kAlphabet"
      by (metis kAlphabet_length nth_mem)
    with c show False by simp
  qed
  then show ?thesis
    unfolding kDecode_def makeDecodeTable_def
    by (subst fold_update_other) simp_all
qed

lemma kDecode_padding: "kDecode (CHR ''='') = 0xFF"
  by (rule kDecode_other [OF kAlphabet_clean(1)])

text \<open>Evaluation without building the table: the position of the character in the alphabet.\<close>

fun alpha_index :: "string \<Rightarrow> u8 \<Rightarrow> char \<Rightarrow> u8" where
  "alpha_index [] i c = 0xFF"
| "alpha_index (a # s) i c = (if a = c then i else alpha_index s (i + 1) c)"

lemma alpha_index_nth:
  "\<lbrakk> distinct s; j < length s \<rbrakk> \<Longrightarrow> alpha_index s i (s ! j) = i + word_of_nat j"
proof (induction s arbitrary: i j)
  case (Cons a s)
  then show ?case by (cases j) (auto simp: add.assoc [symmetric])
qed simp

lemma alpha_index_other: "c \<notin> set s \<Longrightarrow> alpha_index s i c = 0xFF"
  by (induction s arbitrary: i) auto

lemma kDecode_code [code]: "kDecode c = alpha_index kAlphabet 0 c"
proof (cases "c \<in> set kAlphabet")
  case True
  then obtain j where "j < 64" "c = kAlphabet ! j"
    by (metis in_set_conv_nth kAlphabet_length)
  then show ?thesis
    using alpha_index_nth [OF kAlphabet_distinct, of j 0] kDecode_alphabet [of j] by simp
qed (simp add: kDecode_other alpha_index_other)

lemma and_3F: "w AND 0x3F = take_bit 6 (w :: u32)"
  by (simp add: take_bit_eq_mask mask_eq_exp_minus_1)

lemma and_FF: "w AND 0xFF = take_bit 8 (w :: u32)"
  by (simp add: take_bit_eq_mask mask_eq_exp_minus_1)

lemma sextet_index: "unat (w AND 0x3F :: u32) < 64"
proof -
  have "w AND 0x3F \<le> (0x3F :: u32)" by (rule word_and_le1)
  then have "unat (w AND 0x3F) \<le> unat (0x3F :: u32)" by (simp only: word_le_nat_alt)
  then show ?thesis by simp
qed

lemma sextet_in_alphabet: "sextet k n \<in> set kAlphabet"
  by (simp add: sextet_def sextet_index)

lemma kDecode_sextet: "kDecode (sextet k n) = word_of_nat (unat (drop_bit k n AND 0x3F))"
  by (simp only: sextet_def kDecode_alphabet sextet_index)

lemma unat_kDecode_sextet: "unat (kDecode (sextet k n)) = unat (drop_bit k n AND 0x3F)"
proof -
  have "unat (drop_bit k n AND 0x3F) < 2 ^ LENGTH(8)"
    by (rule less_trans [OF sextet_index]) simp
  then show ?thesis by (simp only: kDecode_sextet unat_of_nat mod_less)
qed

lemma kDecode_sextet_valid: "kDecode (sextet k n) \<noteq> 0xFF"
proof
  assume "kDecode (sextet k n) = 0xFF"
  then have "unat (drop_bit k n AND 0x3F) = 255"
    by (simp add: unat_kDecode_sextet [symmetric])
  with sextet_index [of "drop_bit k n"] show False by linarith
qed

lemma ucast_kDecode_sextet: "(ucast (kDecode (sextet k n)) :: u32) = take_bit 6 (drop_bit k n)"
proof -
  have "(ucast (kDecode (sextet k n)) :: u32) = word_of_nat (unat (kDecode (sextet k n)))"
    by (rule of_nat_unat [symmetric])
  also have "\<dots> = ucast (drop_bit k n AND 0x3F :: u32)"
    by (simp only: unat_kDecode_sextet of_nat_unat)
  finally show ?thesis by (simp only: ucast_id and_3F)
qed

section \<open>The round trip\<close>

lemma decode_from_padding [simp]:
  "decode_from buffer bits (CHR ''='' # s) = decode_from buffer bits s"
  by (simp add: kDecode_padding)

text \<open>One accepted character shifts six bits of the block into the buffer.\<close>

definition shift6 :: "u32 \<Rightarrow> nat \<Rightarrow> u32 \<Rightarrow> u32" where
  "shift6 buffer k n = push_bit 6 buffer OR take_bit 6 (drop_bit k n)"

lemma bit_shift6:
  "i < 32 \<Longrightarrow> bit (shift6 buffer k n) i = (if i < 6 then bit n (k + i) else bit buffer (i - 6))"
  by (auto simp: shift6_def bit_or_iff bit_push_bit_iff bit_take_bit_iff bit_drop_bit_eq)

lemma decode_from_sextet:
  "decode_from buffer bits (sextet k n # s) =
     (if bits \<ge> 2
      then char_of (unat (take_bit 8 (drop_bit (bits - 2) (shift6 buffer k n))))
             # decode_from (shift6 buffer k n) (bits - 2) s
      else decode_from (shift6 buffer k n) (bits + 6) s)"
proof -
  have "(8 \<le> bits + 6) = (2 \<le> bits)" "bits + 6 - 8 = bits - 2" by auto
  then show ?thesis
    by (simp only: decode_from.simps Let_def kDecode_sextet_valid if_False ucast_kDecode_sextet
        and_FF shift6_def)
qed

lemma unat_byte_u32: "unat (byte_u32 c) = (of_char c :: nat)"
  unfolding byte_u32_def by (rule unat_of_char) simp

lemma char_of_byte_u32: "char_of (unat (byte_u32 c)) = c"
  by (simp only: unat_byte_u32 char_of_char)

lemma byte_u32_take_bit: "take_bit 8 (byte_u32 c) = byte_u32 c"
proof (rule word_unat_eq_iff [THEN iffD2])
  have "unat (take_bit 8 (byte_u32 c)) = take_bit 8 (of_char c :: nat)"
    by (simp only: unsigned_take_bit_eq unat_byte_u32)
  also have "\<dots> = of_char c" by (simp add: take_bit_eq_mod)
  finally show "unat (take_bit 8 (byte_u32 c)) = unat (byte_u32 c)"
    by (simp only: unat_byte_u32)
qed

lemma bit_byte_u32: "bit (byte_u32 c) i \<Longrightarrow> i < 8"
  by (metis bit_take_bit_iff byte_u32_take_bit)

text \<open>The three bytes of a block, read back from the shift buffer.\<close>

lemma byte_eqI:
  fixes w :: u32
  assumes "\<And>i. i < 8 \<Longrightarrow> bit w i = bit (byte_u32 c) i"
  shows "char_of (unat (take_bit 8 w)) = c"
proof -
  have "take_bit 8 w = byte_u32 c"
  proof (rule bit_word_eqI)
    fix i show "bit (take_bit 8 w) i = bit (byte_u32 c) i"
      using assms [of i] by (auto simp: bit_take_bit_iff dest: bit_byte_u32)
  qed
  then show ?thesis by (simp only: char_of_byte_u32)
qed

lemma decode_byte1:
  assumes "\<And>i. i < 8 \<Longrightarrow> bit n (16 + i) = bit (byte_u32 a) i"
  shows "decode_from buffer 0 (sextet 18 n # sextet 12 n # s)
     = a # decode_from (shift6 (shift6 buffer 18 n) 12 n) 4 s"
proof -
  have "bit (drop_bit 4 (shift6 (shift6 buffer 18 n) 12 n)) i = bit (byte_u32 a) i" if "i < 8" for i
    using that assms [OF that] by (auto simp: bit_drop_bit_eq bit_shift6 add.commute)
  then have "char_of (unat (take_bit 8 (drop_bit 4 (shift6 (shift6 buffer 18 n) 12 n)))) = a"
    by (rule byte_eqI)
  then show ?thesis by (simp add: decode_from_sextet del: decode_from.simps)
qed

lemma decode_byte2:
  assumes "\<And>i. i < 8 \<Longrightarrow> bit n (8 + i) = bit (byte_u32 b) i"
  shows "decode_from (shift6 buffer 12 n) 4 (sextet 6 n # s)
     = b # decode_from (shift6 (shift6 buffer 12 n) 6 n) 2 s"
proof -
  have "bit (drop_bit 2 (shift6 (shift6 buffer 12 n) 6 n)) i = bit (byte_u32 b) i" if "i < 8" for i
    using that assms [OF that] by (auto simp: bit_drop_bit_eq bit_shift6 add.commute)
  then have "char_of (unat (take_bit 8 (drop_bit 2 (shift6 (shift6 buffer 12 n) 6 n)))) = b"
    by (rule byte_eqI)
  then show ?thesis by (simp add: decode_from_sextet del: decode_from.simps)
qed

lemma decode_byte3:
  assumes "\<And>i. i < 8 \<Longrightarrow> bit n i = bit (byte_u32 c) i"
  shows "decode_from (shift6 buffer 6 n) 2 (sextet 0 n # s)
     = c # decode_from (shift6 (shift6 buffer 6 n) 0 n) 0 s"
proof -
  have "bit (shift6 (shift6 buffer 6 n) 0 n) i = bit (byte_u32 c) i" if "i < 8" for i
    using that assms [OF that] by (auto simp: bit_shift6)
  then have "char_of (unat (take_bit 8 (shift6 (shift6 buffer 6 n) 0 n))) = c"
    by (rule byte_eqI)
  then show ?thesis by (simp add: decode_from_sextet del: decode_from.simps)
qed

lemma bit_block:
  assumes "i < 8"
  shows "bit (push_bit 16 (byte_u32 a) OR push_bit 8 (byte_u32 b) OR byte_u32 c) (16 + i)
           = bit (byte_u32 a) i"
    and "bit (push_bit 16 (byte_u32 a) OR push_bit 8 (byte_u32 b) OR byte_u32 c) (8 + i)
           = bit (byte_u32 b) i"
    and "bit (push_bit 16 (byte_u32 a) OR push_bit 8 (byte_u32 b) OR byte_u32 c) i
           = bit (byte_u32 c) i"
    and "bit (push_bit 16 (byte_u32 a) OR push_bit 8 (byte_u32 b)) (16 + i) = bit (byte_u32 a) i"
    and "bit (push_bit 16 (byte_u32 a) OR push_bit 8 (byte_u32 b)) (8 + i) = bit (byte_u32 b) i"
    and "bit (push_bit 16 (byte_u32 a)) (16 + i) = bit (byte_u32 a) i"
  using assms by (auto simp: bit_or_iff bit_push_bit_iff dest: bit_byte_u32)

lemma decode_from_encode: "decode_from buffer 0 (encode s) = s"
proof (induction s arbitrary: buffer rule: encode.induct)
  case (1 a b c raw)
  then show ?case
    by (simp del: decode_from.simps add: Let_def decode_byte1 decode_byte2 decode_byte3 bit_block)
next
  case (2 a)
  show ?case
    by (simp del: decode_from.simps(2) add: Let_def decode_byte1 bit_block)
next
  case (3 a b)
  show ?case
    by (simp del: decode_from.simps(2) add: Let_def decode_byte1 decode_byte2 bit_block)
qed simp

lemma decode_encode [codec_simps, simp]: "decode (encode s) = s"
  by (simp add: decode_def decode_from_encode)

lemma encode_chars: "c \<in> set (encode s) \<Longrightarrow> c \<in> set kAlphabet \<or> c = CHR ''=''"
  by (induction s rule: encode.induct) (auto simp: Let_def sextet_in_alphabet)

lemma encode_clean [simp]: "CHR ''|'' \<notin> set (encode s)"
  using kAlphabet_clean by (auto dest: encode_chars)

section \<open>Properties\<close>

lemma encode_length: "length (encode s) = 4 * ((length s + 2) div 3)"
proof (induction s rule: encode.induct)
  case (1 a b c raw)
  have "(length (a # b # c # raw) + 2) div 3 = Suc ((length raw + 2) div 3)" by simp
  with 1 show ?case by (simp only: encode.simps Let_def) simp
qed (simp_all add: Let_def)

text \<open>Base64 carries every byte string.  Decoding an encoded string gives it back, the
  encoded form has the standard length and contains none of the delimiters of the wire and
  storage formats.\<close>

theorem base64_roundtrip:
  "decode (encode s) = s \<and> length (encode s) = 4 * ((length s + 2) div 3) \<and>
   CHR ''|'' \<notin> set (encode s)"
  by (simp add: encode_length)

end
