(* ===== verification/Util.thy ===== *)
theory Util
  imports Text_Codec
begin

text \<open>
  The header util.h: the 64-bit ring hash \<open>hash64\<close> and the node id allowlist
  \<open>isValidNodeId\<close>; the struct \<open>NodeInfo\<close> of node_info.h.

  The finalizer of the hash is a bijection of the 64-bit words, so two keys share a ring
  position only if their FNV accumulators are equal.  A valid node id holds none of the
  delimiters of the wire formats.
\<close>

unbundle bit_operations_syntax

record NodeInfo =
  node_id :: string
  host :: string
  port :: u16

definition mkNodeInfo :: "string \<Rightarrow> string \<Rightarrow> u16 \<Rightarrow> NodeInfo" where
  "mkNodeInfo i h p = \<lparr>node_id = i, host = h, port = p\<rparr>"

section \<open>The ring hash\<close>

definition fnv_basis :: u64 where
  "fnv_basis = 1469598103934665603"

definition fnv_step :: "u64 \<Rightarrow> char \<Rightarrow> u64" where
  "fnv_step h c = (h XOR of_char c) * 1099511628211"

definition fmix64 :: "u64 \<Rightarrow> u64" where
  "fmix64 h =
     (let h = h XOR drop_bit 33 h;
          h = h * 0xff51afd7ed558ccd;
          h = h XOR drop_bit 33 h;
          h = h * 0xc4ceb9fe1a85ec53;
          h = h XOR drop_bit 33 h
      in h)"

definition hash64 :: "string \<Rightarrow> u64" where
  "hash64 s = fmix64 (foldl fnv_step fnv_basis s)"

section \<open>Node ids\<close>

definition id_char :: "char \<Rightarrow> bool" where
  "id_char c \<longleftrightarrow>
     (CHR ''a'' \<le> c \<and> c \<le> CHR ''z'') \<or> (CHR ''A'' \<le> c \<and> c \<le> CHR ''Z'') \<or>
     (CHR ''0'' \<le> c \<and> c \<le> CHR ''9'') \<or>
     c = CHR ''.'' \<or> c = CHR ''_'' \<or> c = CHR ''-''"

definition isValidNodeId :: "string \<Rightarrow> bool" where
  "isValidNodeId i \<longleftrightarrow> (if i = [] \<or> length i > 64 then False else list_all id_char i)"

section \<open>Facts\<close>

lemma xorshift33_twice: "(h XOR drop_bit 33 h) XOR drop_bit 33 (h XOR drop_bit 33 h) = (h :: u64)"
proof (rule bit_word_eqI)
  fix n assume n: "n < LENGTH(64)"
  have "\<not> bit h (33 + (33 + n))" by (auto dest: bit_imp_le_length)
  then show "bit ((h XOR drop_bit 33 h) XOR drop_bit 33 (h XOR drop_bit 33 h)) n = bit h n"
    by (auto simp: bit_xor_iff bit_drop_bit_eq)
qed

lemma inj_xorshift33: "inj (\<lambda>h :: u64. h XOR drop_bit 33 h)"
  by (rule inj_on_inverseI [where g = "\<lambda>h. h XOR drop_bit 33 h"]) (rule xorshift33_twice)

lemma inj_mult_unit: "a * b = 1 \<Longrightarrow> inj (\<lambda>h :: u64. h * a)"
  by (rule inj_on_inverseI [where g = "\<lambda>h. h * b"]) (simp add: mult.assoc)

lemma inj_fmix64: "inj fmix64"
proof -
  have m1: "inj (\<lambda>h :: u64. h * 0xff51afd7ed558ccd)"
    by (rule inj_mult_unit [of _ "0x4f74430c22a54005"]) simp
  have m2: "inj (\<lambda>h :: u64. h * 0xc4ceb9fe1a85ec53)"
    by (rule inj_mult_unit [of _ "0x9cb4b2f8129337db"]) simp
  have "fmix64 = (\<lambda>h. h XOR drop_bit 33 h) \<circ> (\<lambda>h. h * 0xc4ceb9fe1a85ec53) \<circ>
      (\<lambda>h. h XOR drop_bit 33 h) \<circ> (\<lambda>h. h * 0xff51afd7ed558ccd) \<circ> (\<lambda>h. h XOR drop_bit 33 h)"
    by (rule ext) (simp only: fmix64_def Let_def o_apply)
  moreover have "inj \<dots>"
    by (intro inj_compose inj_xorshift33 m1 m2)
  ultimately show ?thesis by simp
qed

lemma inj_fnv_step: "inj (\<lambda>h. fnv_step h c)"
proof -
  have m: "inj (\<lambda>h :: u64. h * 1099511628211)"
    by (rule inj_mult_unit [of _ "0xce965057aff6957b"]) simp
  have x: "inj (\<lambda>h :: u64. h XOR of_char c)"
    by (rule inj_on_inverseI [where g = "\<lambda>h. h XOR of_char c"]) (simp add: xor.assoc)
  have "(\<lambda>h. fnv_step h c) = (\<lambda>h. h * 1099511628211) \<circ> (\<lambda>h. h XOR of_char c)"
    by (rule ext) (simp only: fnv_step_def o_apply)
  then show ?thesis using inj_compose [OF m x] by simp
qed

lemma of_char_u64_inj: "(of_char c :: u64) = of_char d \<Longrightarrow> c = d"
proof -
  assume eq: "(of_char c :: u64) = of_char d"
  have u: "(of_char e :: nat) = unat (of_char e :: u64)" for e :: char
    by (rule unat_of_char [symmetric]) simp
  have "(of_char c :: nat) = of_char d"
    by (simp only: u eq)
  then show "c = d" by (simp only: of_char_eq_iff)
qed

lemma hash64_eq_iff:
  "hash64 s = hash64 t \<longleftrightarrow> foldl fnv_step fnv_basis s = foldl fnv_step fnv_basis t"
  by (simp only: hash64_def inj_eq [OF inj_fmix64])

lemma foldl_fnv_inj: "foldl fnv_step h s = foldl fnv_step h' s \<Longrightarrow> h = h'"
proof (induction s arbitrary: h h')
  case (Cons c s)
  have "fnv_step h c = fnv_step h' c"
    by (rule Cons.IH) (rule Cons.prems [unfolded foldl.simps])
  then show ?case by (simp only: inj_eq [OF inj_fnv_step])
qed (simp only: foldl.simps)

lemma fnv_step_char_inj: "fnv_step h c = fnv_step h d \<Longrightarrow> c = d"
proof -
  assume eq: "fnv_step h c = fnv_step h d"
  have "inj (\<lambda>h :: u64. h * 1099511628211)"
    by (rule inj_mult_unit [of _ "0xce965057aff6957b"]) simp
  from injD [OF this eq [unfolded fnv_step_def]] have "h XOR of_char c = h XOR of_char d" .
  then have "h XOR (h XOR of_char c) = h XOR (h XOR of_char d)" by simp
  then have "(of_char c :: u64) = of_char d" by (simp add: xor.assoc [symmetric])
  then show ?thesis by (rule of_char_u64_inj)
qed

lemma id_char_clean:
  "id_char c \<Longrightarrow> c \<noteq> CHR ''|'' \<and> c \<noteq> CHR '';'' \<and> c \<noteq> CHR '':'' \<and> c \<noteq> CHR '','' \<and>
     c \<noteq> CHR ''#'' \<and> c \<noteq> CHR 0x0A"
  by (auto simp: id_char_def less_eq_char_def)

lemma isValidNodeId_nonempty: "isValidNodeId i \<Longrightarrow> i \<noteq> []"
  by (auto simp: isValidNodeId_def)

lemma isValidNodeId_clean:
  assumes "isValidNodeId i"
  shows "CHR ''|'' \<notin> set i" "CHR '';'' \<notin> set i" "CHR '':'' \<notin> set i"
    "CHR '','' \<notin> set i" "CHR ''#'' \<notin> set i" "CHR 0x0A \<notin> set i"
  using assms by (auto simp: isValidNodeId_def list_all_iff dest!: id_char_clean split: if_splits)

text \<open>Two keys that differ in exactly one byte never collide on the ring: \<open>hash64\<close> is
  injective in every single byte position, because each FNV step is a bijection of the
  accumulator and injective in the byte, and the finalizer is a bijection.\<close>

theorem hash64_one_byte:
  "hash64 (pre @ c # post) = hash64 (pre @ d # post) \<longleftrightarrow> c = d"
proof
  assume "hash64 (pre @ c # post) = hash64 (pre @ d # post)"
  then have "foldl fnv_step (fnv_step (foldl fnv_step fnv_basis pre) c) post =
      foldl fnv_step (fnv_step (foldl fnv_step fnv_basis pre) d) post"
    by (simp add: hash64_eq_iff)
  then have "fnv_step (foldl fnv_step fnv_basis pre) c = fnv_step (foldl fnv_step fnv_basis pre) d"
    by (rule foldl_fnv_inj)
  then show "c = d" by (rule fnv_step_char_inj)
qed simp

lemma hash64_vectors:
  "hash64 [] = 0xd725c98e9509182e"
  "hash64 ''a'' = 0x43a941547f0150e5"
  by (simp_all add: hash64_def fmix64_def fnv_step_def fnv_basis_def)

end
