(* ===== verification/Vector_Clock.thy ===== *)
theory Vector_Clock
  imports Util "HOL-Library.Product_Lexorder"
begin

text \<open>
  vector_clock.h and vector_clock.cpp: clocks as ordered maps from node ids to entries with a
  64-bit counter and a timestamp, and every operation of the class.

  The interface that the coordinator and the replicas rely on is the locale \<open>causality\<close>:
  \<open>compare\<close> classifies the pointwise order of the counter histories.  It is interpreted on
  \<open>VectorClock_compare\<close> for well-formed clocks (sorted keys, no stored zero).  The wall clock
  \<open>nowMs\<close> is an argument \<open>now\<close> of the operations that read it.
\<close>

record Entry =
  counter :: u64
  updated_ms :: u64

type_synonym VectorClock = "(string, Entry) omap"

datatype Ordering = EQUAL | A_DOMINATES | B_DOMINATES | CONCURRENT

section \<open>Operations\<close>

definition VectorClock_get :: "VectorClock \<Rightarrow> string \<Rightarrow> u64" where
  "VectorClock_get c node = (case map_of c node of None \<Rightarrow> 0 | Some e \<Rightarrow> counter e)"

definition VectorClock_set :: "VectorClock \<Rightarrow> string \<Rightarrow> u64 \<Rightarrow> u64 \<Rightarrow> VectorClock" where
  "VectorClock_set c node ctr ms =
     (if ctr = 0 then om_del node c
      else om_put node \<lparr>counter = ctr, updated_ms = ms\<rparr> c)"

text \<open>The two-argument \<open>set\<close> stamps the entry with the wall clock.\<close>

definition VectorClock_set_now :: "u64 \<Rightarrow> VectorClock \<Rightarrow> string \<Rightarrow> u64 \<Rightarrow> VectorClock" where
  "VectorClock_set_now now c node ctr = VectorClock_set c node ctr now"

text \<open>
  \<open>increment\<close> default-constructs a missing entry and adds one to its counter, with
  the wrap-around of \<open>uint64_t\<close>.
\<close>

definition VectorClock_increment :: "u64 \<Rightarrow> VectorClock \<Rightarrow> string \<Rightarrow> VectorClock" where
  "VectorClock_increment now c node =
     (let e = (case map_of c node of None \<Rightarrow> \<lparr>counter = 0, updated_ms = 0\<rparr> | Some e \<Rightarrow> e)
      in om_put node \<lparr>counter = counter e + 1, updated_ms = now\<rparr> c)"

definition by_age :: "VectorClock \<Rightarrow> (u64 \<times> string) list" where
  "by_age c = sort (map (\<lambda>kv. (updated_ms (snd kv), fst kv)) c)"

definition VectorClock_prune :: "VectorClock \<Rightarrow> nat \<Rightarrow> VectorClock" where
  "VectorClock_prune c max_entries =
     (if length c \<le> max_entries then c
      else let to_drop = length c - max_entries
           in fold (\<lambda>a c. om_del (snd a) c) (take to_drop (by_age c)) c)"

definition compare_first :: "VectorClock \<Rightarrow> VectorClock \<Rightarrow> bool \<times> bool" where
  "compare_first a b =
     fold (\<lambda>kv g.
        let bv = VectorClock_get b (fst kv)
        in if counter (snd kv) > bv then (True, snd g)
           else if bv > counter (snd kv) then (fst g, True)
           else g) a (False, False)"

definition compare_second :: "VectorClock \<Rightarrow> VectorClock \<Rightarrow> bool \<times> bool \<Rightarrow> bool \<times> bool" where
  "compare_second a b g =
     fold (\<lambda>kv g. if map_of a (fst kv) \<noteq> None then g else (fst g, True)) b g"

definition VectorClock_compare :: "VectorClock \<Rightarrow> VectorClock \<Rightarrow> Ordering" where
  "VectorClock_compare a b =
     (let g = compare_second a b (compare_first a b);
          aGreaterSomewhere = fst g; bGreaterSomewhere = snd g
      in if \<not> aGreaterSomewhere \<and> \<not> bGreaterSomewhere then EQUAL
         else if aGreaterSomewhere \<and> \<not> bGreaterSomewhere then A_DOMINATES
         else if bGreaterSomewhere \<and> \<not> aGreaterSomewhere then B_DOMINATES
         else CONCURRENT)"

definition VectorClock_merge :: "VectorClock \<Rightarrow> VectorClock \<Rightarrow> VectorClock" where
  "VectorClock_merge a b =
     fold (\<lambda>kv out.
        if counter (snd kv) > VectorClock_get out (fst kv) then om_put (fst kv) (snd kv) out
        else out) b a"

definition VectorClock_eq :: "VectorClock \<Rightarrow> VectorClock \<Rightarrow> bool" where
  "VectorClock_eq a b =
     (if length a \<noteq> length b then False
      else list_all (\<lambda>kv. case map_of b (fst kv) of
             None \<Rightarrow> False
           | Some e \<Rightarrow> counter e = counter (snd kv)) a)"

definition entry_text :: "string \<times> Entry \<Rightarrow> string" where
  "entry_text kv = fst kv @ '':'' @ dec_word (counter (snd kv)) @ '':'' @ dec_word (updated_ms (snd kv))"

definition VectorClock_serialize :: "VectorClock \<Rightarrow> string" where
  "VectorClock_serialize c = join (CHR '','') (map entry_text c)"

text \<open>One token of \<open>parse\<close>; \<^const>\<open>None\<close> where the loop skips it or the conversion throws.\<close>

definition parse_entry :: "string \<Rightarrow> (string \<times> u64 \<times> u64) option" where
  "parse_entry entry =
     (if entry = [] then None
      else case str_find (CHR '':'') entry of
        None \<Rightarrow> None
      | Some first_colon \<Rightarrow>
          (let node = take first_colon entry; tail = drop (Suc first_colon) entry
           in if node = [] \<or> tail = [] then None
              else let (num, ts) =
                     (case str_find (CHR '':'') tail of
                        None \<Rightarrow> (tail, ''0'')
                      | Some second_colon \<Rightarrow>
                          (let ts = drop (Suc second_colon) tail
                           in (take second_colon tail, if ts = [] then ''0'' else ts)))
                   in if num = [] then None
                      else case (stoull num, stoull ts) of
                             (Some n, Some t) \<Rightarrow> Some (node, n, t)
                           | _ \<Rightarrow> None))"

definition VectorClock_parse :: "string \<Rightarrow> VectorClock" where
  "VectorClock_parse s =
     fold (\<lambda>entry vc. case parse_entry entry of
             None \<Rightarrow> vc
           | Some (node, n, t) \<Rightarrow> VectorClock_set vc node n t)
       (getline_all s (CHR '','')) []"

section \<open>Invariants\<close>

definition vc_wf :: "VectorClock \<Rightarrow> bool" where
  "vc_wf c \<longleftrightarrow> om_wf c \<and> (\<forall>kv \<in> set c. counter (snd kv) \<noteq> 0)"

text \<open>Node ids that the text form can carry.\<close>

definition vc_clean :: "VectorClock \<Rightarrow> bool" where
  "vc_clean c \<longleftrightarrow>
     (\<forall>n \<in> om_keys c. n \<noteq> [] \<and> CHR '':'' \<notin> set n \<and> CHR '','' \<notin> set n \<and> CHR ''|'' \<notin> set n)"

section \<open>The causal order as an interface\<close>

locale causality =
  fixes compare :: "'c \<Rightarrow> 'c \<Rightarrow> Ordering"
    and hist :: "'c \<Rightarrow> 'n \<Rightarrow> u64"
    and ok :: "'c \<Rightarrow> bool"
  assumes compare_classifies: "\<lbrakk> ok a; ok b \<rbrakk> \<Longrightarrow>
     compare a b =
       (if \<forall>n. hist a n = hist b n then EQUAL
        else if \<forall>n. hist b n \<le> hist a n then A_DOMINATES
        else if \<forall>n. hist a n \<le> hist b n then B_DOMINATES
        else CONCURRENT)"
begin

definition descends :: "'c \<Rightarrow> 'c \<Rightarrow> bool" where
  "descends a b \<longleftrightarrow> (\<forall>n. hist b n \<le> hist a n)"

lemma descends_refl [simp]: "descends a a"
  by (simp add: descends_def)

lemma descends_trans [trans]: "descends a b \<Longrightarrow> descends b c \<Longrightarrow> descends a c"
  by (auto simp: descends_def intro: order_trans)

lemma descends_antisym: "descends a b \<Longrightarrow> descends b a \<Longrightarrow> hist a = hist b"
  by (auto simp: descends_def intro: order_antisym)

lemma dominates_iff:
  "\<lbrakk> ok a; ok b \<rbrakk> \<Longrightarrow> compare a b = A_DOMINATES \<longleftrightarrow> descends a b \<and> \<not> descends b a"
  by (auto simp: compare_classifies descends_def dest: order_antisym)

lemma dominated_iff:
  "\<lbrakk> ok a; ok b \<rbrakk> \<Longrightarrow> compare a b = B_DOMINATES \<longleftrightarrow> descends b a \<and> \<not> descends a b"
  by (auto simp: compare_classifies descends_def dest: order_antisym)

lemma equal_iff:
  "\<lbrakk> ok a; ok b \<rbrakk> \<Longrightarrow> compare a b = EQUAL \<longleftrightarrow> descends a b \<and> descends b a"
  by (auto simp: compare_classifies descends_def dest: order_antisym)

lemma concurrent_iff:
  "\<lbrakk> ok a; ok b \<rbrakk> \<Longrightarrow> compare a b = CONCURRENT \<longleftrightarrow> \<not> descends a b \<and> \<not> descends b a"
  by (auto simp: compare_classifies descends_def dest: order_antisym)

lemma not_dominates_trans:
  "\<lbrakk> ok a; ok b; ok c; compare a b = A_DOMINATES; descends b c \<rbrakk> \<Longrightarrow> compare a c = A_DOMINATES"
  by (auto simp: dominates_iff intro: descends_trans)

lemma dominates_trans:
  "\<lbrakk> ok a; ok b; ok c; compare a b = A_DOMINATES; compare b c = A_DOMINATES \<rbrakk>
     \<Longrightarrow> compare a c = A_DOMINATES"
  by (auto simp: dominates_iff intro: descends_trans)

lemma dominates_irrefl: "ok a \<Longrightarrow> compare a a \<noteq> A_DOMINATES"
  by (simp add: dominates_iff)

end

section \<open>Lookup and well-formedness\<close>

lemma vc_get_Nil [simp]: "VectorClock_get [] n = 0"
  by (simp add: VectorClock_get_def)

lemma vc_get_put [simp]:
  "VectorClock_get (om_put k e c) n = (if n = k then counter e else VectorClock_get c n)"
  by (simp add: VectorClock_get_def)

lemma vc_get_del [simp]:
  "VectorClock_get (om_del k c) n = (if n = k then 0 else VectorClock_get c n)"
  by (simp add: VectorClock_get_def)

lemma vc_get_set [simp]:
  "VectorClock_get (VectorClock_set c k v t) n = (if n = k then v else VectorClock_get c n)"
  by (simp add: VectorClock_set_def)

lemma vc_wf_Nil [simp]: "vc_wf []"
  by (simp add: vc_wf_def)

lemma vc_wf_om: "vc_wf c \<Longrightarrow> om_wf c"
  by (simp add: vc_wf_def)

lemma set_om_put: "set (om_put k v m) \<subseteq> insert (k, v) (set m)"
  by (induction m) auto

lemma set_om_del: "set (om_del k m) \<subseteq> set m"
  by (auto simp: om_del_def)

lemma vc_wf_put: "\<lbrakk> vc_wf c; counter e \<noteq> 0 \<rbrakk> \<Longrightarrow> vc_wf (om_put k e c)"
  using set_om_put [of k e c] by (auto simp: vc_wf_def)

lemma vc_wf_filter: "vc_wf c \<Longrightarrow> vc_wf (filter P c)"
  by (simp add: vc_wf_def)

lemma vc_wf_set [simp, wf_intros]: "vc_wf c \<Longrightarrow> vc_wf (VectorClock_set c k v t)"
  by (auto simp: VectorClock_set_def vc_wf_put om_del_def vc_wf_filter)

lemma vc_entry: "\<lbrakk> vc_wf c; kv \<in> set c \<rbrakk>
    \<Longrightarrow> VectorClock_get c (fst kv) = counter (snd kv) \<and> counter (snd kv) \<noteq> 0"
  by (cases kv) (auto simp: vc_wf_def VectorClock_get_def om_wf_distinct)

lemma vc_get_nonzero: "\<lbrakk> vc_wf c; VectorClock_get c n \<noteq> 0 \<rbrakk>
    \<Longrightarrow> \<exists>e. (n, e) \<in> set c \<and> counter e = VectorClock_get c n"
  by (auto simp: VectorClock_get_def vc_wf_def om_in_set_iff split: option.splits)

lemma vc_get_keys: "vc_wf c \<Longrightarrow> n \<in> om_keys c \<longleftrightarrow> VectorClock_get c n \<noteq> 0"
  by (auto simp: om_keys_iff VectorClock_get_def vc_wf_def dest!: map_of_SomeD
      split: option.splits)

lemma increment_spec:
  "VectorClock_get (VectorClock_increment now c k) n =
     (if n = k then VectorClock_get c k + 1 else VectorClock_get c n)"
  by (simp add: VectorClock_increment_def VectorClock_get_def Let_def split: option.split)

lemma vc_wf_increment [wf_intros]:
  "\<lbrakk> vc_wf c; VectorClock_get c k \<noteq> - 1 \<rbrakk> \<Longrightarrow> vc_wf (VectorClock_increment now c k)"
  unfolding VectorClock_increment_def Let_def
  by (rule vc_wf_put) (auto simp: VectorClock_get_def add_eq_0_iff add.commute split: option.split)

section \<open>Comparison\<close>

lemma compare_first_eq:
  "compare_first a b =
     (\<exists>kv \<in> set a. counter (snd kv) > VectorClock_get b (fst kv),
      \<exists>kv \<in> set a. VectorClock_get b (fst kv) > counter (snd kv))"
proof -
  have "fold (\<lambda>kv g.
        let bv = VectorClock_get b (fst kv)
        in if counter (snd kv) > bv then (True, snd g)
           else if bv > counter (snd kv) then (fst g, True) else g) a g =
     (fst g \<or> (\<exists>kv \<in> set a. counter (snd kv) > VectorClock_get b (fst kv)),
      snd g \<or> (\<exists>kv \<in> set a. VectorClock_get b (fst kv) > counter (snd kv)))" for g
    by (induction a arbitrary: g) (auto simp: Let_def)
  from this [of "(False, False)"] show ?thesis
    by (simp add: compare_first_def)
qed

lemma compare_second_eq:
  "compare_second a b g = (fst g, snd g \<or> (\<exists>kv \<in> set b. map_of a (fst kv) = None))"
  unfolding compare_second_def by (induction b arbitrary: g) auto

lemma compare_a_greater:
  assumes "vc_wf a" "vc_wf b"
  shows "(\<exists>kv \<in> set a. counter (snd kv) > VectorClock_get b (fst kv))
     \<longleftrightarrow> (\<exists>n. VectorClock_get a n > VectorClock_get b n)"
proof
  assume "\<exists>n. VectorClock_get a n > VectorClock_get b n"
  then obtain n where n: "VectorClock_get a n > VectorClock_get b n" by blast
  then have "VectorClock_get a n \<noteq> 0" by auto
  with vc_get_nonzero [OF assms(1)] n
  show "\<exists>kv \<in> set a. counter (snd kv) > VectorClock_get b (fst kv)" by force
qed (use vc_entry [OF assms(1)] in metis)

lemma compare_b_greater:
  assumes "vc_wf a" "vc_wf b"
  shows "(\<exists>kv \<in> set a. VectorClock_get b (fst kv) > counter (snd kv)) \<or>
         (\<exists>kv \<in> set b. map_of a (fst kv) = None)
     \<longleftrightarrow> (\<exists>n. VectorClock_get b n > VectorClock_get a n)" (is "?L \<longleftrightarrow> ?R")
proof
  assume ?L
  then show ?R
  proof
    assume "\<exists>kv \<in> set b. map_of a (fst kv) = None"
    then obtain kv where "kv \<in> set b" "map_of a (fst kv) = None" by blast
    with vc_entry [OF assms(2)] have "VectorClock_get a (fst kv) < VectorClock_get b (fst kv)"
      by (simp add: VectorClock_get_def word_gt_0)
    then show ?R by blast
  qed (use vc_entry [OF assms(1)] in metis)
next
  assume ?R
  then obtain n where n: "VectorClock_get b n > VectorClock_get a n" by blast
  then have "VectorClock_get b n \<noteq> 0" by auto
  with vc_get_nonzero [OF assms(2)] obtain e where e: "(n, e) \<in> set b" by blast
  show ?L
  proof (cases "map_of a n")
    case None
    with e show ?thesis by force
  next
    case (Some e')
    then have "(n, e') \<in> set a" by (rule map_of_SomeD)
    with n Some show ?thesis by (force simp: VectorClock_get_def)
  qed
qed

lemma compare_spec:
  assumes "vc_wf a" "vc_wf b"
  shows "VectorClock_compare a b =
       (if \<forall>n. VectorClock_get a n = VectorClock_get b n then EQUAL
        else if \<forall>n. VectorClock_get b n \<le> VectorClock_get a n then A_DOMINATES
        else if \<forall>n. VectorClock_get a n \<le> VectorClock_get b n then B_DOMINATES
        else CONCURRENT)"
proof -
  have "compare_second a b (compare_first a b) =
      (\<exists>n. VectorClock_get a n > VectorClock_get b n, \<exists>n. VectorClock_get b n > VectorClock_get a n)"
    unfolding compare_second_eq compare_first_eq fst_conv snd_conv
    using compare_a_greater [OF assms] compare_b_greater [OF assms] by simp
  moreover have "(\<forall>n. VectorClock_get a n = VectorClock_get b n) \<longleftrightarrow>
      \<not> (\<exists>n. VectorClock_get a n > VectorClock_get b n) \<and> \<not> (\<exists>n. VectorClock_get b n > VectorClock_get a n)"
    by (metis less_irrefl linorder_less_linear)
  moreover have "(\<forall>n. VectorClock_get b n \<le> VectorClock_get a n) \<longleftrightarrow>
      \<not> (\<exists>n. VectorClock_get b n > VectorClock_get a n)"
    "(\<forall>n. VectorClock_get a n \<le> VectorClock_get b n) \<longleftrightarrow>
      \<not> (\<exists>n. VectorClock_get a n > VectorClock_get b n)"
    by (simp_all add: not_less)
  ultimately show ?thesis
    unfolding VectorClock_compare_def Let_def by (simp only: fst_conv snd_conv) auto
qed

interpretation vc: causality VectorClock_compare VectorClock_get vc_wf
  by unfold_locales (rule compare_spec)

section \<open>Equality and merge\<close>

lemma eq_spec:
  assumes "vc_wf a" "vc_wf b"
  shows "VectorClock_eq a b \<longleftrightarrow> (\<forall>n. VectorClock_get a n = VectorClock_get b n)"
proof
  assume eq: "VectorClock_eq a b"
  have sub: "VectorClock_get a n = VectorClock_get b n \<and> n \<in> om_keys b" if "n \<in> om_keys a" for n
  proof -
    from that obtain e where e: "(n, e) \<in> set a" by (auto simp: om_keys_def)
    from eq have "\<forall>kv \<in> set a. case map_of b (fst kv) of
        None \<Rightarrow> False | Some e' \<Rightarrow> counter e' = counter (snd kv)"
      by (simp add: VectorClock_eq_def list_all_iff split: if_splits)
    from bspec [OF this e] have "case map_of b n of None \<Rightarrow> False | Some e' \<Rightarrow> counter e' = counter e"
      by (cases "map_of b n") auto
    with vc_entry [OF assms(1) e] show ?thesis
      by (auto simp: VectorClock_get_def om_keys_iff split: option.splits)
  qed
  moreover have "om_keys a = om_keys b"
  proof (rule card_subset_eq)
    show "om_keys a \<subseteq> om_keys b" using sub by blast
    have "length a = length b" using eq by (auto simp: VectorClock_eq_def split: if_splits)
    then show "card (om_keys a) = card (om_keys b)"
      using assms by (simp add: om_length_keys [symmetric] vc_wf_om)
  qed simp
  ultimately show "\<forall>n. VectorClock_get a n = VectorClock_get b n"
    using vc_get_keys [OF assms(1)] vc_get_keys [OF assms(2)] by metis
next
  assume eq: "\<forall>n. VectorClock_get a n = VectorClock_get b n"
  then have "om_keys a = om_keys b"
    using vc_get_keys [OF assms(1)] vc_get_keys [OF assms(2)] by auto
  then have "length a = length b"
    using assms by (simp add: om_length_keys vc_wf_om)
  moreover have "case map_of b (fst kv) of None \<Rightarrow> False | Some e \<Rightarrow> counter e = counter (snd kv)"
    if "kv \<in> set a" for kv
    using vc_entry [OF assms(1) that] eq by (auto simp: VectorClock_get_def split: option.splits)
  ultimately show "VectorClock_eq a b"
    by (auto simp: VectorClock_eq_def list_all_iff)
qed

lemma merge_get_fold:
  "om_wf b \<Longrightarrow>
   VectorClock_get (fold (\<lambda>kv out.
        if counter (snd kv) > VectorClock_get out (fst kv) then om_put (fst kv) (snd kv) out
        else out) b a) n = max (VectorClock_get a n) (VectorClock_get b n)"
proof (induction b arbitrary: a)
  case (Cons kv b)
  then have "fst kv \<notin> om_keys b" by auto
  then have "VectorClock_get b (fst kv) = 0"
    by (simp add: VectorClock_get_def om_keys_None)
  moreover have "VectorClock_get (kv # b) n = (if n = fst kv then counter (snd kv) else VectorClock_get b n)"
    by (cases kv) (simp add: VectorClock_get_def)
  ultimately show ?case
    using Cons by (auto simp: max_def word_gt_0)
qed (simp add: max_def)

lemma merge_spec:
  "om_wf b \<Longrightarrow> VectorClock_get (VectorClock_merge a b) n = max (VectorClock_get a n) (VectorClock_get b n)"
  unfolding VectorClock_merge_def by (rule merge_get_fold)

lemma vc_wf_merge [simp, wf_intros]: "vc_wf a \<Longrightarrow> vc_wf b \<Longrightarrow> vc_wf (VectorClock_merge a b)"
proof -
  assume b: "vc_wf b" and a: "vc_wf a"
  from b have "\<forall>kv \<in> set b. counter (snd kv) \<noteq> 0" by (simp add: vc_wf_def)
  then show ?thesis
    unfolding VectorClock_merge_def using a by (induction b arbitrary: a) (auto intro: vc_wf_put)
qed

section \<open>Pruning\<close>

lemma fold_om_del: "fold (\<lambda>a c. om_del (snd a) c) xs c = filter (\<lambda>kv. fst kv \<notin> snd ` set xs) c"
  by (induction xs arbitrary: c) (auto simp: om_del_def intro!: filter_cong)

lemma set_by_age: "set (by_age c) = (\<lambda>kv. (updated_ms (snd kv), fst kv)) ` set c"
  by (simp add: by_age_def)

lemma length_by_age [simp]: "length (by_age c) = length c"
  by (simp add: by_age_def)

lemma sorted_by_age: "sorted (by_age c)"
  by (simp add: by_age_def)

lemma snd_by_age: "om_wf c \<Longrightarrow> distinct (map snd (by_age c)) \<and> set (map snd (by_age c)) = om_keys c"
proof -
  assume "om_wf c"
  have "mset (map snd (by_age c)) = mset (map fst c)"
    unfolding by_age_def mset_map mset_sort by (simp add: image_mset.compositionality comp_def)
  with om_wf_distinct [OF \<open>om_wf c\<close>] show ?thesis
    by (metis list.set_map mset_eq_imp_distinct_iff mset_eq_setD om_keys_def)
qed

lemma prune_filter:
  "\<not> length c \<le> m \<Longrightarrow> VectorClock_prune c m =
     filter (\<lambda>kv. fst kv \<notin> snd ` set (take (length c - m) (by_age c))) c"
  by (simp add: VectorClock_prune_def Let_def fold_om_del)

lemma set_prune: "set (VectorClock_prune c m) \<subseteq> set c"
  by (auto simp: VectorClock_prune_def fold_om_del Let_def)

lemma vc_wf_prune [simp, wf_intros]: "vc_wf c \<Longrightarrow> vc_wf (VectorClock_prune c m)"
  by (simp add: VectorClock_prune_def fold_om_del Let_def vc_wf_filter)

lemma prune_length: "om_wf c \<Longrightarrow> length (VectorClock_prune c m) = min (length c) m"
proof (cases "length c \<le> m")
  case False
  assume wf: "om_wf c"
  let ?d = "take (length c - m) (by_age c)"
  let ?p = "VectorClock_prune c m"
  have d: "distinct (map snd ?d)" "snd ` set ?d \<subseteq> om_keys c"
    using snd_by_age [OF wf] by (auto simp: take_map [symmetric] dest: in_set_takeD)
  have "om_keys ?p = om_keys c - snd ` set ?d"
    using False by (auto simp: prune_filter om_keys_def)
  then have "card (om_keys ?p) = card (om_keys c) - card (snd ` set ?d)"
    using d by (simp add: card_Diff_subset)
  also have "card (snd ` set ?d) = length c - m"
    using distinct_card [OF d(1)] by simp
  finally show ?thesis
    using wf False by (simp add: om_length_keys [symmetric] prune_filter)
qed (simp add: VectorClock_prune_def)

lemma prune_keeps_newest:
  assumes wf: "om_wf c" and k: "k \<in> set (VectorClock_prune c m)"
    and d: "d \<in> set c" "d \<notin> set (VectorClock_prune c m)"
  shows "(updated_ms (snd d), fst d) < (updated_ms (snd k), fst k)"
proof -
  have big: "\<not> length c \<le> m" using d by (auto simp: VectorClock_prune_def split: if_splits)
  let ?t = "length c - m"
  let ?age = "\<lambda>kv. (updated_ms (snd kv), fst kv)"
  have kc: "k \<in> set c" "fst k \<notin> snd ` set (take ?t (by_age c))"
    using k by (auto simp: prune_filter [OF big])
  from d obtain a where a: "a \<in> set (take ?t (by_age c))" "snd a = fst d"
    by (auto simp: prune_filter [OF big])
  from a(1) have "a \<in> set (by_age c)" by (rule in_set_takeD)
  then obtain d' where d': "d' \<in> set c" "a = ?age d'"
    unfolding set_by_age by (rule imageE)
  have fd: "fst d' = fst d" using d'(2) a(2) by simp
  have "map_of c (fst d') = Some (snd d')"
    by (rule om_in_set_iff [OF wf, THEN iffD1]) (simp add: d'(1))
  moreover have "map_of c (fst d) = Some (snd d)"
    by (rule om_in_set_iff [OF wf, THEN iffD1]) (simp add: d(1))
  ultimately have "snd d' = snd d" using fd by simp
  with d'(2) fd have da: "?age d = a" by simp
  have "?age k \<in> set (by_age c)" using kc(1) by (auto simp: set_by_age)
  moreover have "?age k \<notin> set (take ?t (by_age c))" using kc(2) by force
  ultimately have kd: "?age k \<in> set (drop ?t (by_age c))"
    by (metis Un_iff append_take_drop_id set_append)
  have "a \<le> ?age k"
    using sorted_by_age [of c] a(1) kd by (metis append_take_drop_id sorted_append)
  moreover have "a \<noteq> ?age k" using kc(2) a by force
  ultimately show ?thesis using da by simp
qed

section \<open>Text form\<close>

lemma vc_wf_parse [simp, wf_intros]: "vc_wf (VectorClock_parse s)"
proof -
  have "vc_wf c \<Longrightarrow> vc_wf (fold (\<lambda>entry vc. case parse_entry entry of
             None \<Rightarrow> vc | Some (node, n, t) \<Rightarrow> VectorClock_set vc node n t) xs c)" for xs c
    by (induction xs arbitrary: c) (auto split: option.split)
  then show ?thesis by (simp add: VectorClock_parse_def)
qed

lemma parse_entry_node:
  assumes "parse_entry entry = Some (n, c, t)"
  shows "n \<noteq> [] \<and> CHR '':'' \<notin> set n \<and> set n \<subseteq> set entry"
proof -
  from assms obtain p where p: "str_find (CHR '':'') entry = Some p" "n = take p entry" "n \<noteq> []"
    by (auto simp: parse_entry_def Let_def split: if_splits option.splits prod.splits)
  with str_find_at [OF p(1)] show ?thesis
    by (auto dest: in_set_takeD)
qed

text \<open>Every clock that was parsed from a field can be printed again.\<close>

lemma vc_clean_set:
  assumes "vc_clean c" "n \<noteq> []" "CHR '':'' \<notin> set n" "CHR '','' \<notin> set n" "CHR ''|'' \<notin> set n"
  shows "vc_clean (VectorClock_set c n ctr ms)"
  using assms by (auto simp: vc_clean_def VectorClock_set_def)

lemma parse_fold_clean:
  assumes "\<And>x. x \<in> set xs \<Longrightarrow> CHR '','' \<notin> set x \<and> CHR ''|'' \<notin> set x" "vc_clean c"
  shows "vc_clean (fold (\<lambda>entry vc. case parse_entry entry of
             None \<Rightarrow> vc | Some (node, n, t) \<Rightarrow> VectorClock_set vc node n t) xs c)"
  using assms
proof (induction xs arbitrary: c)
  case (Cons x xs)
  have x: "CHR '','' \<notin> set x" "CHR ''|'' \<notin> set x" using Cons.prems(1) [of x] by simp_all
  have "vc_clean (case parse_entry x of None \<Rightarrow> c | Some (node, n, t) \<Rightarrow> VectorClock_set c node n t)"
  proof (cases "parse_entry x")
    case (Some e)
    obtain n k t where e: "e = (n, k, t)" by (rule prod_cases3)
    have "n \<noteq> [] \<and> CHR '':'' \<notin> set n \<and> set n \<subseteq> set x" using parse_entry_node Some e by simp
    with x have "vc_clean (VectorClock_set c n k t)"
      by (intro vc_clean_set Cons.prems(2)) auto
    then show ?thesis by (simp add: Some e)
  qed (simp add: Cons.prems(2))
  with Cons.IH Cons.prems(1) show ?case by simp
qed simp

lemma parse_clean [simp, wf_intros]:
  "CHR ''|'' \<notin> set s \<Longrightarrow> vc_clean (VectorClock_parse s)"
  unfolding VectorClock_parse_def
  by (rule parse_fold_clean) (use getline_all_fields in \<open>blast, simp add: vc_clean_def\<close>)

lemma parse_entry_text:
  assumes "n \<noteq> []" "CHR '':'' \<notin> set n"
  shows "parse_entry (entry_text (n, e)) = Some (n, counter e, updated_ms e)"
proof -
  have "str_find (CHR '':'') (n @ CHR '':'' # dec_word (counter e) @ CHR '':'' # dec_word (updated_ms e))
      = Some (length n)"
    using assms by simp
  moreover have "str_find (CHR '':'') (dec_word (counter e) @ CHR '':'' # dec_word (updated_ms e))
      = Some (length (dec_word (counter e)))"
    by simp
  ultimately show ?thesis
    using assms by (simp add: parse_entry_def entry_text_def)
qed

lemma entry_text_token:
  "CHR '','' \<notin> set n \<Longrightarrow> entry_text (n, e) \<noteq> [] \<and> CHR '','' \<notin> set (entry_text (n, e))"
  by (simp add: entry_text_def)

lemma parse_fold_append:
  assumes "vc_wf (acc @ c)" "vc_clean c"
  shows "fold (\<lambda>entry vc. case parse_entry entry of
             None \<Rightarrow> vc | Some (node, n, t) \<Rightarrow> VectorClock_set vc node n t) (map entry_text c) acc
     = acc @ c"
  using assms
proof (induction c arbitrary: acc)
  case (Cons kv c)
  obtain n e where kv: "kv = (n, e)" by (cases kv)
  have n: "n \<noteq> []" "CHR '':'' \<notin> set n" and clean: "vc_clean c"
    using Cons.prems(2) by (auto simp: vc_clean_def kv)
  have wf: "om_wf (acc @ (n, e) # c)" "counter e \<noteq> 0"
    using Cons.prems(1) by (auto simp: vc_wf_def kv)
  then have "om_put n e acc = acc @ [(n, e)]"
    by (intro om_put_last) (auto simp: om_wf_def sorted_wrt_append om_keys_def)
  moreover have "\<lparr>counter = counter e, updated_ms = updated_ms e\<rparr> = e" by simp
  ultimately have "VectorClock_set acc n (counter e) (updated_ms e) = acc @ [kv]"
    using wf(2) by (simp only: VectorClock_set_def kv if_False)
  with Cons.IH [of "acc @ [kv]"] Cons.prems(1) clean n show ?case
    by (simp add: kv parse_entry_text)
qed simp

lemma parse_serialize:
  assumes "vc_wf c" "vc_clean c"
  shows "VectorClock_parse (VectorClock_serialize c) = c"
proof -
  have "\<forall>x \<in> set (map entry_text c). x \<noteq> [] \<and> CHR '','' \<notin> set x"
    using assms(2) by (auto simp: vc_clean_def om_keys_def entry_text_def)
  then have "getline_all (VectorClock_serialize c) (CHR '','') = map entry_text c"
    unfolding VectorClock_serialize_def by (rule getline_all_join)
  then show ?thesis
    using parse_fold_append [of "[]" c] assms by (simp add: VectorClock_parse_def)
qed

lemma serialize_clean [simp]: "vc_clean c \<Longrightarrow> CHR ''|'' \<notin> set (VectorClock_serialize c)"
  unfolding VectorClock_serialize_def
  by (rule join_clean) (auto simp: vc_clean_def om_keys_def entry_text_def)

lemma vc_clean_Nil [simp]: "vc_clean []"
  by (simp add: vc_clean_def)

lemma vc_clean_subset: "\<lbrakk> vc_clean c; om_keys d \<subseteq> om_keys c \<rbrakk> \<Longrightarrow> vc_clean d"
  by (auto simp: vc_clean_def)

section \<open>Properties\<close>

definition ex_clock :: "(string \<times> u64 \<times> u64) list \<Rightarrow> VectorClock" where
  "ex_clock xs = map (\<lambda>(n, c, t). (n, \<lparr>counter = c, updated_ms = t\<rparr>)) xs"

lemma ex_clock_wf:
  "vc_wf (ex_clock [(''a'', 2, 10), (''b'', 1, 30)])" "vc_wf (ex_clock [(''a'', 1, 10), (''c'', 4, 20)])"
  "vc_clean (ex_clock [(''a'', 2, 10), (''b'', 1, 30)])"
  by code_simp+

text \<open>C35: \<open>compare\<close> decides the causal order.  It answers EQUAL, A_DOMINATES, B_DOMINATES or
  CONCURRENT exactly when the counter histories are equal, above, below or incomparable, where
  a missing entry counts as zero; and \<open>operator==\<close> holds exactly when \<open>compare\<close> says EQUAL.\<close>

theorem compare_is_causal_order:
  assumes "vc_wf a" "vc_wf b"
  shows "VectorClock_compare a b =
       (if \<forall>n. VectorClock_get a n = VectorClock_get b n then EQUAL
        else if \<forall>n. VectorClock_get b n \<le> VectorClock_get a n then A_DOMINATES
        else if \<forall>n. VectorClock_get a n \<le> VectorClock_get b n then B_DOMINATES
        else CONCURRENT) \<and>
     (VectorClock_eq a b \<longleftrightarrow> VectorClock_compare a b = EQUAL)"
  using compare_spec [OF assms] eq_spec [OF assms] by simp

theorem compare_is_causal_order_witness:
  "VectorClock_compare (ex_clock [(''a'', 2, 10), (''b'', 1, 30)]) (ex_clock [(''a'', 1, 10), (''c'', 4, 20)]) = CONCURRENT \<and>
   \<not> VectorClock_eq (ex_clock [(''a'', 2, 10), (''b'', 1, 30)]) (ex_clock [(''a'', 1, 10), (''c'', 4, 20)])"
proof -
  have "VectorClock_compare (ex_clock [(''a'', 2, 10), (''b'', 1, 30)]) (ex_clock [(''a'', 1, 10), (''c'', 4, 20)]) = CONCURRENT"
    by code_simp
  with compare_is_causal_order [OF ex_clock_wf(1,2)] show ?thesis by simp
qed

text \<open>An increment advances the clock: the result is well formed and strictly dominates the
  old clock, for every counter that does not wrap around.\<close>

theorem increment_advances:
  assumes "vc_wf c" "VectorClock_get c k \<noteq> - 1"
  shows "vc_wf (VectorClock_increment now c k) \<and>
    VectorClock_compare (VectorClock_increment now c k) c = A_DOMINATES"
proof -
  let ?i = "VectorClock_increment now c k"
  have wf: "vc_wf ?i" using assms by (rule vc_wf_increment)
  have less: "VectorClock_get c k < VectorClock_get ?i k"
    using assms(2) by (simp add: increment_spec word_less_succ)
  then have "\<forall>n. VectorClock_get c n \<le> VectorClock_get ?i n"
    by (auto simp: increment_spec)
  moreover have "\<not> VectorClock_get ?i k \<le> VectorClock_get c k"
    using less by simp
  ultimately show ?thesis
    using wf vc.dominates_iff [OF wf assms(1)] unfolding vc.descends_def by blast
qed

theorem increment_advances_witness:
  "VectorClock_compare (VectorClock_increment 9 (ex_clock [(''a'', 2, 10), (''b'', 1, 30)]) ''b'')
     (ex_clock [(''a'', 2, 10), (''b'', 1, 30)]) = A_DOMINATES"
proof -
  have "VectorClock_get (ex_clock [(''a'', 2, 10), (''b'', 1, 30)]) ''b'' \<noteq> - 1" by code_simp
  from increment_advances [OF ex_clock_wf(1) this] show ?thesis by blast
qed

text \<open>At the largest counter an increment wraps to a stored zero and loses the own history.\<close>

lemma increment_wraps:
  assumes "VectorClock_get c k = - 1"
  shows "VectorClock_get (VectorClock_increment now c k) k = 0" "\<not> vc_wf (VectorClock_increment now c k)"
proof -
  show 0: "VectorClock_get (VectorClock_increment now c k) k = 0"
    using assms by (simp add: increment_spec)
  have "k \<in> om_keys (VectorClock_increment now c k)"
    by (simp add: VectorClock_increment_def Let_def)
  with 0 vc_get_keys show "\<not> vc_wf (VectorClock_increment now c k)" by blast
qed

text \<open>\<open>merge\<close> is the least upper bound of two clocks: a well-formed clock descends from the
  merge exactly when it descends from both; the operands can be swapped.\<close>

theorem merge_is_least_upper_bound:
  assumes "vc_wf a" "vc_wf b"
  shows "vc_wf (VectorClock_merge a b) \<and> VectorClock_eq (VectorClock_merge a b) (VectorClock_merge b a) \<and>
    (\<forall>c. (\<forall>n. VectorClock_get (VectorClock_merge a b) n \<le> VectorClock_get c n) \<longleftrightarrow>
       (\<forall>n. VectorClock_get a n \<le> VectorClock_get c n) \<and> (\<forall>n. VectorClock_get b n \<le> VectorClock_get c n))"
proof -
  have m: "VectorClock_get (VectorClock_merge a b) n = max (VectorClock_get a n) (VectorClock_get b n)"
      "VectorClock_get (VectorClock_merge b a) n = max (VectorClock_get a n) (VectorClock_get b n)" for n
    using assms by (simp_all add: merge_spec vc_wf_om max.commute)
  then have "VectorClock_eq (VectorClock_merge a b) (VectorClock_merge b a)"
    using assms by (simp add: eq_spec)
  with m assms show ?thesis by auto
qed

theorem merge_is_least_upper_bound_witness:
  "VectorClock_eq (VectorClock_merge (ex_clock [(''a'', 2, 10), (''b'', 1, 30)]) (ex_clock [(''a'', 1, 10), (''c'', 4, 20)]))
     (VectorClock_merge (ex_clock [(''a'', 1, 10), (''c'', 4, 20)]) (ex_clock [(''a'', 2, 10), (''b'', 1, 30)]))"
  using merge_is_least_upper_bound [OF ex_clock_wf(1,2)] by blast

text \<open>C40: pruning bounds the clock and drops the oldest entries.  The result has the smaller of
  the old size and the limit, its entries are entries of the old clock, and every dropped entry
  was updated before every kept one (ties by node id).\<close>

theorem prune_bounds_clock:
  assumes "vc_wf c"
  shows "length (VectorClock_prune c m) = min (length c) m \<and> vc_wf (VectorClock_prune c m) \<and>
    set (VectorClock_prune c m) \<subseteq> set c \<and>
    (\<forall>k \<in> set (VectorClock_prune c m). \<forall>d \<in> set c - set (VectorClock_prune c m).
       (updated_ms (snd d), fst d) < (updated_ms (snd k), fst k))"
  using assms prune_length [OF vc_wf_om [OF assms]] prune_keeps_newest [OF vc_wf_om [OF assms]] set_prune
  by auto

theorem prune_bounds_clock_witness:
  "length (VectorClock_prune (ex_clock [(''a'', 2, 10), (''b'', 1, 30)]) 1) = 1"
  using prune_bounds_clock [OF ex_clock_wf(1), of 1] by (simp add: ex_clock_def)

text \<open>The text form of a clock loses nothing.  Parsing what was serialized gives the clock
  again, timestamps included; and whatever text a field held, the clock parsed from it survives
  being serialized and parsed again.\<close>

theorem clock_text_roundtrip:
  assumes "vc_wf c" "vc_clean c" "CHR ''|'' \<notin> set s"
  shows "VectorClock_parse (VectorClock_serialize c) = c \<and>
    VectorClock_parse (VectorClock_serialize (VectorClock_parse s)) = VectorClock_parse s"
  using assms by (simp add: parse_serialize)

theorem clock_text_roundtrip_witness:
  "VectorClock_parse (VectorClock_serialize (ex_clock [(''a'', 2, 10), (''b'', 1, 30)])) =
     ex_clock [(''a'', 2, 10), (''b'', 1, 30)]"
  using clock_text_roundtrip [OF ex_clock_wf(1,3), of "''a:1''"] by simp

end
