(* ===== verification/Versioned_Value.thy ===== *)
theory Versioned_Value
  imports Base64 Vector_Clock
begin

text \<open>
  versioned_value.h and versioned_value.cpp: a value with its vector clock and tombstone flag,
  and its storage form \<open>base64(data)|clock[|D]\<close>.

  The locale \<open>bar_codec\<close> is what every \<open>|\<close>-separated format relies on: a printer whose
  output the parser inverts and which never emits the separator.  Base64 and the clock
  text form are its interpretations.
\<close>

record VersionedValue =
  data :: string
  clock :: VectorClock
  deleted :: bool

definition VersionedValue_serialize :: "VersionedValue \<Rightarrow> string" where
  "VersionedValue_serialize vv =
     (let s = encode (data vv) @ ''|'' @ VectorClock_serialize (clock vv)
      in if deleted vv then s @ ''|D'' else s)"

definition VersionedValue_deserialize :: "string \<Rightarrow> VersionedValue" where
  "VersionedValue_deserialize stored =
     (case str_find (CHR ''|'') stored of
        None \<Rightarrow> \<lparr>data = decode stored, clock = [], deleted = False\<rparr>
      | Some bar \<Rightarrow>
          (let d = decode (take bar stored); rest = drop (Suc bar) stored
           in case str_find (CHR ''|'') rest of
                None \<Rightarrow> \<lparr>data = d, clock = VectorClock_parse rest, deleted = False\<rparr>
              | Some bar2 \<Rightarrow>
                  \<lparr>data = d, clock = VectorClock_parse (take bar2 rest),
                   deleted = (drop (Suc bar2) rest = ''D'')\<rparr>))"

text \<open>The values that the storage form represents exactly.\<close>

definition vv_ok :: "VersionedValue \<Rightarrow> bool" where
  "vv_ok vv \<longleftrightarrow> vc_wf (clock vv) \<and> vc_clean (clock vv)"

section \<open>Separator-free codecs\<close>

locale bar_codec =
  fixes enc :: "'a \<Rightarrow> string" and dec :: "string \<Rightarrow> 'a" and ok :: "'a \<Rightarrow> bool"
  assumes dec_enc: "ok x \<Longrightarrow> dec (enc x) = x"
    and enc_bar: "ok x \<Longrightarrow> CHR ''|'' \<notin> set (enc x)"
begin

lemma find_after: "ok x \<Longrightarrow> str_find (CHR ''|'') (enc x @ CHR ''|'' # rest) = Some (length (enc x))"
  by (simp add: enc_bar)

lemma split_first: "ok x \<Longrightarrow> splitAll (enc x @ CHR ''|'' # rest) (CHR ''|'') = enc x # splitAll rest (CHR ''|'')"
  by (simp add: enc_bar)

lemma split_last: "ok x \<Longrightarrow> splitAll (enc x) (CHR ''|'') = [enc x]"
  by (simp add: enc_bar)

lemma enc_inj: "\<lbrakk> ok x; ok y; enc x = enc y \<rbrakk> \<Longrightarrow> x = y"
  by (metis dec_enc)

end

interpretation b64: bar_codec encode decode "\<lambda>_. True"
  by unfold_locales simp_all

interpretation vct: bar_codec VectorClock_serialize VectorClock_parse "\<lambda>c. vc_wf c \<and> vc_clean c"
  by unfold_locales (simp_all add: parse_serialize)

lemma vv_ok_iff: "vv_ok vv \<longleftrightarrow> vc_wf (clock vv) \<and> vc_clean (clock vv)"
  by (simp add: vv_ok_def)

lemma deserialize_serialize [codec_simps]:
  assumes "vv_ok vv"
  shows "VersionedValue_deserialize (VersionedValue_serialize vv) = vv"
proof (cases "deleted vv")
  case True
  have "VersionedValue_serialize vv =
      encode (data vv) @ CHR ''|'' # VectorClock_serialize (clock vv) @ CHR ''|'' # ''D''"
    using True by (simp add: VersionedValue_serialize_def)
  then show ?thesis
    using True assms
    by (simp add: VersionedValue_deserialize_def b64.find_after vct.find_after vct.dec_enc vv_ok_iff)
next
  case False
  have "VersionedValue_serialize vv = encode (data vv) @ CHR ''|'' # VectorClock_serialize (clock vv)"
    using False by (simp add: VersionedValue_serialize_def)
  then show ?thesis
    using False assms
    by (simp add: VersionedValue_deserialize_def b64.find_after vct.enc_bar vct.dec_enc vv_ok_iff)
qed

lemma vc_wf_deserialize [simp, wf_intros]: "vc_wf (clock (VersionedValue_deserialize s))"
  by (auto simp: VersionedValue_deserialize_def Let_def split: option.split)

lemma vv_ok_deserialize [simp, wf_intros]: "vv_ok (VersionedValue_deserialize s)"
proof -
  have "vc_clean (clock (VersionedValue_deserialize s))"
    by (auto simp: VersionedValue_deserialize_def Let_def split: option.split
        dest: str_find_at intro!: parse_clean)
  then show ?thesis by (simp add: vv_ok_def)
qed

section \<open>Properties\<close>

text \<open>The storage form of a value is exact.  A value whose clock the text form can carry is
  restored with its data, clock and tombstone flag; and whatever bytes the engine returns, the
  value read from them is stable under storing and reading it again.\<close>

theorem value_storage_roundtrip:
  assumes "vv_ok vv"
  shows "VersionedValue_deserialize (VersionedValue_serialize vv) = vv \<and>
    VersionedValue_deserialize (VersionedValue_serialize (VersionedValue_deserialize stored)) =
      VersionedValue_deserialize stored"
  using assms by (simp add: deserialize_serialize)

theorem value_storage_roundtrip_witness:
  "VersionedValue_deserialize (VersionedValue_serialize
     \<lparr>data = ''a|b'', clock = ex_clock [(''a'', 2, 10), (''b'', 1, 30)], deleted = True\<rparr>) =
   \<lparr>data = ''a|b'', clock = ex_clock [(''a'', 2, 10), (''b'', 1, 30)], deleted = True\<rparr>"
proof -
  have "vv_ok \<lparr>data = ''a|b'', clock = ex_clock [(''a'', 2, 10), (''b'', 1, 30)], deleted = True\<rparr>"
    by (simp add: vv_ok_def ex_clock_wf)
  from value_storage_roundtrip [OF this] show ?thesis by blast
qed

end
