(* ===== verification/Storage.thy ===== *)
theory Storage
  imports Versioned_Value
begin

text \<open>
  The storage seam (storage/storage_engine.h) as a record of its virtual functions, the
  in-memory engine, the RocksDB engine over the third-party database as parameters, and the
  replica rules of replica_ops.cpp.

  The locale \<open>storage_engine\<close> is the contract of the interface; the replica rules are
  verified once inside it, and it is interpreted on the in-memory engine.
\<close>

text \<open>\<open>forEach\<close> is the list of the pairs that it hands to its callback, in order.\<close>

record 's StorageEngine =
  se_put :: "'s \<Rightarrow> string \<Rightarrow> string \<Rightarrow> 's"
  se_get :: "'s \<Rightarrow> string \<Rightarrow> string option"
  se_forEach :: "'s \<Rightarrow> (string \<times> string) list"

section \<open>InMemoryStorageEngine\<close>

text \<open>
  The \<open>unordered_map\<close> is represented by its entries in key order; the C++ iteration order is
  unspecified, and no result below depends on the one chosen here.
\<close>

type_synonym mem_store = "(string, string) omap"

definition InMemoryStorageEngine_put :: "mem_store \<Rightarrow> string \<Rightarrow> string \<Rightarrow> mem_store" where
  "InMemoryStorageEngine_put m key value = om_put key value m"

definition InMemoryStorageEngine_get :: "mem_store \<Rightarrow> string \<Rightarrow> string option" where
  "InMemoryStorageEngine_get m key = map_of m key"

definition InMemoryStorageEngine_forEach :: "mem_store \<Rightarrow> (string \<times> string) list" where
  "InMemoryStorageEngine_forEach m = m"

definition InMemoryStorageEngine :: "mem_store StorageEngine" where
  "InMemoryStorageEngine =
     \<lparr>se_put = InMemoryStorageEngine_put, se_get = InMemoryStorageEngine_get,
      se_forEach = InMemoryStorageEngine_forEach\<rparr>"

section \<open>RocksDBStorageEngine\<close>

text \<open>
  The three calls into RocksDB that the engine makes: \<open>Put\<close> returns a status, \<open>Get\<close> a status
  (true for OK) with the value, and the iterator the pairs from \<open>SeekToFirst\<close> on.
\<close>

record 'd rocksdb_api =
  db_Put :: "'d \<Rightarrow> string \<Rightarrow> string \<Rightarrow> bool \<times> 'd"
  db_Get :: "'d \<Rightarrow> string \<Rightarrow> bool \<times> string"
  db_Iterator :: "'d \<Rightarrow> (string \<times> string) list"

definition RocksDBStorageEngine_put :: "'d rocksdb_api \<Rightarrow> 'd \<Rightarrow> string \<Rightarrow> string \<Rightarrow> 'd" where
  "RocksDBStorageEngine_put api db key value = snd (db_Put api db key value)"

definition RocksDBStorageEngine_get :: "'d rocksdb_api \<Rightarrow> 'd \<Rightarrow> string \<Rightarrow> string option" where
  "RocksDBStorageEngine_get api db key =
     (let s = db_Get api db key in if fst s then Some (snd s) else None)"

definition RocksDBStorageEngine_forEach :: "'d rocksdb_api \<Rightarrow> 'd \<Rightarrow> (string \<times> string) list" where
  "RocksDBStorageEngine_forEach api db = db_Iterator api db"

definition RocksDBStorageEngine :: "'d rocksdb_api \<Rightarrow> 'd StorageEngine" where
  "RocksDBStorageEngine api =
     \<lparr>se_put = RocksDBStorageEngine_put api, se_get = RocksDBStorageEngine_get api,
      se_forEach = RocksDBStorageEngine_forEach api\<rparr>"

section \<open>replica\_ops\<close>

definition readLocal :: "'s StorageEngine \<Rightarrow> 's \<Rightarrow> string \<Rightarrow> VersionedValue option" where
  "readLocal E st key =
     (case se_get E st key of
        None \<Rightarrow> None
      | Some stored \<Rightarrow> Some (VersionedValue_deserialize stored))"

definition applyReplicate ::
    "'s StorageEngine \<Rightarrow> 's \<Rightarrow> string \<Rightarrow> VersionedValue \<Rightarrow> bool \<times> 's" where
  "applyReplicate E st key incoming =
     (case se_get E st key of
        None \<Rightarrow> (True, se_put E st key (VersionedValue_serialize incoming))
      | Some stored \<Rightarrow>
          (let loc = VersionedValue_deserialize stored
           in if VectorClock_compare (clock loc) (clock incoming) = A_DOMINATES then (False, st)
              else (True, se_put E st key (VersionedValue_serialize incoming))))"

section \<open>The contract of a storage engine\<close>

locale storage_engine =
  fixes E :: "'s StorageEngine" and inv :: "'s \<Rightarrow> bool"
  assumes get_put: "inv s \<Longrightarrow> se_get E (se_put E s k v) k' = (if k' = k then Some v else se_get E s k')"
    and inv_put: "inv s \<Longrightarrow> inv (se_put E s k v)"
    and forEach_distinct: "inv s \<Longrightarrow> distinct (map fst (se_forEach E s))"
    and forEach_get: "inv s \<Longrightarrow> map_of (se_forEach E s) k = se_get E s k"
begin

lemma forEach_mem: "inv s \<Longrightarrow> (k, v) \<in> set (se_forEach E s) \<longleftrightarrow> se_get E s k = Some v"
  by (metis forEach_distinct forEach_get map_of_eq_Some_iff)

lemma readLocal_put:
  "\<lbrakk> inv s; vv_ok vv \<rbrakk> \<Longrightarrow>
     readLocal E (se_put E s k (VersionedValue_serialize vv)) k' =
       (if k' = k then Some vv else readLocal E s k')"
  by (simp add: readLocal_def get_put deserialize_serialize)

lemma readLocal_wf: "readLocal E s k = Some v \<Longrightarrow> vc_wf (clock v)"
  by (auto simp: readLocal_def split: option.splits)

lemma applyReplicate_inv: "inv s \<Longrightarrow> inv (snd (applyReplicate E s k v))"
  by (auto simp: applyReplicate_def Let_def inv_put split: option.split)

lemma applyReplicate_cases:
  assumes "inv s" "vv_ok v"
  shows "readLocal E (snd (applyReplicate E s k v)) k =
     (case readLocal E s k of
        None \<Rightarrow> Some v
      | Some l \<Rightarrow> if VectorClock_compare (clock l) (clock v) = A_DOMINATES then Some l else Some v)"
  using assms
  by (auto simp: applyReplicate_def readLocal_def Let_def get_put deserialize_serialize
      split: option.split)

lemma applyReplicate_other:
  "\<lbrakk> inv s; k' \<noteq> k \<rbrakk> \<Longrightarrow> se_get E (snd (applyReplicate E s k v)) k' = se_get E s k'"
  by (auto simp: applyReplicate_def Let_def get_put split: option.split)

text \<open>After the replicate, the stored version descends from the incoming one, ack or not.\<close>

lemma applyReplicate_at_least:
  assumes "inv s" "vv_ok v"
  shows "\<exists>w. readLocal E (snd (applyReplicate E s k v)) k = Some w \<and> vc.descends (clock w) (clock v)"
proof (cases "readLocal E s k")
  case None
  with assms show ?thesis by (simp add: applyReplicate_cases)
next
  case (Some l)
  then have "vc_wf (clock l)" by (rule readLocal_wf)
  with assms Some show ?thesis
    by (simp add: applyReplicate_cases vv_ok_iff vc.dominates_iff)
qed

text \<open>What the replica held is never replaced by something that it strictly dominates.\<close>

lemma applyReplicate_no_regress:
  assumes "inv s" "vv_ok v" "readLocal E s k = Some l"
    "readLocal E (snd (applyReplicate E s k v)) k = Some w"
  shows "VectorClock_compare (clock l) (clock w) \<noteq> A_DOMINATES"
proof -
  have "vc_wf (clock l)" using assms(3) by (rule readLocal_wf)
  with assms show ?thesis
    by (auto simp: applyReplicate_cases vc.dominates_irrefl split: if_splits)
qed

text \<open>Two comparable versions end in the same state in either order of arrival.\<close>

lemma applyReplicate_commute:
  assumes "inv s" "vv_ok u" "vv_ok v"
    "VectorClock_compare (clock v) (clock u) = A_DOMINATES"
  shows "readLocal E (snd (applyReplicate E (snd (applyReplicate E s k u)) k v)) k =
         readLocal E (snd (applyReplicate E (snd (applyReplicate E s k v)) k u)) k"
proof -
  have wf: "vc_wf (clock u)" "vc_wf (clock v)" using assms(2,3) by (auto simp: vv_ok_iff)
  have nd: "VectorClock_compare (clock u) (clock v) \<noteq> A_DOMINATES"
    using assms(4) wf by (simp add: vc.dominates_iff)
  show ?thesis
  proof (cases "readLocal E s k")
    case None
    with assms nd show ?thesis by (simp add: applyReplicate_cases applyReplicate_inv)
  next
    case (Some l)
    have wl: "vc_wf (clock l)" using Some by (rule readLocal_wf)
    have "VectorClock_compare (clock l) (clock v) = A_DOMINATES \<Longrightarrow>
        VectorClock_compare (clock l) (clock u) = A_DOMINATES"
      using vc.dominates_trans wl wf assms(4) by blast
    with assms Some nd show ?thesis
      by (auto simp: applyReplicate_cases applyReplicate_inv)
  qed
qed

end

interpretation ims: storage_engine InMemoryStorageEngine om_wf
  by unfold_locales
    (auto simp: InMemoryStorageEngine_def InMemoryStorageEngine_put_def InMemoryStorageEngine_get_def
      InMemoryStorageEngine_forEach_def om_wf_distinct)

section \<open>RocksDB keeps the contract\<close>

text \<open>
  What the engine relies on in RocksDB: a put that succeeds is visible to the next get of its
  key and to no other, and an iterator from the first key visits the stored pairs once each.
\<close>

definition rocksdb_laws :: "'d rocksdb_api \<Rightarrow> ('d \<Rightarrow> bool) \<Rightarrow> bool" where
  "rocksdb_laws api dbinv \<longleftrightarrow>
     (\<forall>d k v. dbinv d \<longrightarrow> dbinv (snd (db_Put api d k v)) \<and> db_Get api (snd (db_Put api d k v)) k = (True, v)) \<and>
     (\<forall>d k v k'. dbinv d \<and> k' \<noteq> k \<longrightarrow> db_Get api (snd (db_Put api d k v)) k' = db_Get api d k') \<and>
     (\<forall>d. dbinv d \<longrightarrow> distinct (map fst (db_Iterator api d))) \<and>
     (\<forall>d k v. dbinv d \<longrightarrow> (k, v) \<in> set (db_Iterator api d) \<longleftrightarrow> db_Get api d k = (True, v))"

lemma rocksdb_storage_engine:
  assumes "rocksdb_laws api dbinv"
  shows "storage_engine (RocksDBStorageEngine api) dbinv"
proof
  fix s k v k'
  assume s: "dbinv s"
  note laws = assms [unfolded rocksdb_laws_def]
  show "dbinv (se_put (RocksDBStorageEngine api) s k v)"
    using laws s by (simp add: RocksDBStorageEngine_def RocksDBStorageEngine_put_def)
  show "se_get (RocksDBStorageEngine api) (se_put (RocksDBStorageEngine api) s k v) k' =
      (if k' = k then Some v else se_get (RocksDBStorageEngine api) s k')"
    using laws s by (simp add: RocksDBStorageEngine_def RocksDBStorageEngine_put_def
        RocksDBStorageEngine_get_def Let_def)
  show d: "distinct (map fst (se_forEach (RocksDBStorageEngine api) s))"
    using laws s by (simp add: RocksDBStorageEngine_def RocksDBStorageEngine_forEach_def)
  have "(k, x) \<in> set (se_forEach (RocksDBStorageEngine api) s) \<longleftrightarrow>
      se_get (RocksDBStorageEngine api) s k = Some x" for x
    using laws s by (auto simp: RocksDBStorageEngine_def RocksDBStorageEngine_forEach_def
        RocksDBStorageEngine_get_def Let_def prod_eq_iff)
  then show "map_of (se_forEach (RocksDBStorageEngine api) s) k = se_get (RocksDBStorageEngine api) s k"
    using map_of_eq_Some_iff [OF d] by (metis option.exhaust)
qed

section \<open>Convergence\<close>

text \<open>A replica that receives a sequence of replicated versions of one key.\<close>

definition applyReplicates :: "'s StorageEngine \<Rightarrow> string \<Rightarrow> VersionedValue list \<Rightarrow> 's \<Rightarrow> 's" where
  "applyReplicates E key vs st = fold (\<lambda>v st. snd (applyReplicate E st key v)) vs st"

text \<open>\<open>m\<close> is the newest of the versions: it strictly dominates every other one.\<close>

definition newest :: "VersionedValue \<Rightarrow> VersionedValue list \<Rightarrow> bool" where
  "newest m vs \<longleftrightarrow> m \<in> set vs \<and>
     (\<forall>v \<in> set vs. v = m \<or> VectorClock_compare (clock m) (clock v) = A_DOMINATES)"

context storage_engine
begin

lemma replicates_inv: "inv s \<Longrightarrow> inv (applyReplicates E k vs s)"
  unfolding applyReplicates_def by (induction vs arbitrary: s) (simp_all add: applyReplicate_inv)

lemma newest_stays:
  assumes "inv s" "readLocal E s k = Some m" "vc_wf (clock m)"
    and "\<forall>v \<in> set vs. vv_ok v \<and> (v = m \<or> VectorClock_compare (clock m) (clock v) = A_DOMINATES)"
  shows "readLocal E (applyReplicates E k vs s) k = Some m"
  using assms(1,2,4)
proof (induction vs arbitrary: s)
  case (Cons v vs)
  have v: "vv_ok v" "v = m \<or> VectorClock_compare (clock m) (clock v) = A_DOMINATES"
    using Cons.prems(3) by auto
  have "readLocal E (snd (applyReplicate E s k v)) k = Some m"
    using v Cons.prems(2) by (auto simp: applyReplicate_cases [OF Cons.prems(1) v(1)])
  with Cons.IH [OF applyReplicate_inv [OF Cons.prems(1)]] Cons.prems(3) show ?case
    by (simp add: applyReplicates_def)
qed (simp add: applyReplicates_def)

lemma newest_wins:
  assumes "inv s" "newest m vs" "\<forall>v \<in> set vs. vv_ok v"
    and "\<forall>l. readLocal E s k = Some l \<longrightarrow> l = m \<or> VectorClock_compare (clock m) (clock l) = A_DOMINATES"
  shows "readLocal E (applyReplicates E k vs s) k = Some m"
proof -
  have m: "m \<in> set vs" "vc_wf (clock m)"
    and all: "\<forall>v \<in> set vs. vv_ok v \<and> (v = m \<or> VectorClock_compare (clock m) (clock v) = A_DOMINATES)"
    using assms(2,3) by (auto simp: newest_def vv_ok_iff)
  show ?thesis using assms(1,4) m(1) all
  proof (induction vs arbitrary: s)
    case (Cons v vs)
    let ?s = "snd (applyReplicate E s k v)"
    have v: "vv_ok v" "v = m \<or> VectorClock_compare (clock m) (clock v) = A_DOMINATES"
      using Cons.prems(4) by auto
    note step = applyReplicate_cases [OF Cons.prems(1) v(1), of k]
    have inv': "inv ?s" using Cons.prems(1) by (rule applyReplicate_inv)
    have eq: "applyReplicates E k (v # vs) s = applyReplicates E k vs ?s"
      by (simp add: applyReplicates_def)
    show ?case
    proof (cases "v = m")
      case True
      have "\<not> VectorClock_compare (clock l) (clock m) = A_DOMINATES \<or> l = m"
        if "readLocal E s k = Some l" for l
        using Cons.prems(2) that m(2) readLocal_wf [OF that] vc.dominates_iff by blast
      then have "readLocal E ?s k = Some m"
        unfolding step using True by (auto split: option.split)
      with newest_stays [OF inv' _ m(2)] Cons.prems(4) show ?thesis unfolding eq by simp
    next
      case False
      have "\<forall>l. readLocal E ?s k = Some l \<longrightarrow> l = m \<or> VectorClock_compare (clock m) (clock l) = A_DOMINATES"
        unfolding step using Cons.prems(2) v(2) by (auto split: option.splits if_splits)
      with Cons.IH [OF inv'] Cons.prems(3,4) False show ?thesis unfolding eq by simp
    qed
  qed simp
qed

end

section \<open>Properties\<close>

definition ex_old :: VersionedValue where
  "ex_old = \<lparr>data = ''x'', clock = ex_clock [(''a'', 1, 5)], deleted = False\<rparr>"

definition ex_new :: VersionedValue where
  "ex_new = \<lparr>data = ''y'', clock = ex_clock [(''a'', 2, 10), (''b'', 1, 30)], deleted = False\<rparr>"

lemma ex_versions:
  "vv_ok ex_old" "vv_ok ex_new" "VectorClock_compare (clock ex_new) (clock ex_old) = A_DOMINATES"
  by code_simp+

text \<open>C5: a replica never regresses.  After a replicated write, acknowledged or ignored, the
  replica stores a version that descends from the incoming one, what it stored before does not
  strictly dominate what it stores now, and every other key is untouched.\<close>

theorem replicate_never_regresses:
  assumes "om_wf st" "vv_ok v" "snd (applyReplicate InMemoryStorageEngine st key v) = st'"
  shows "\<exists>w. readLocal InMemoryStorageEngine st' key = Some w \<and>
    (\<forall>n. VectorClock_get (clock v) n \<le> VectorClock_get (clock w) n) \<and>
    (\<forall>l. readLocal InMemoryStorageEngine st key = Some l \<longrightarrow>
       VectorClock_compare (clock l) (clock w) \<noteq> A_DOMINATES) \<and>
    (\<forall>k. k \<noteq> key \<longrightarrow> readLocal InMemoryStorageEngine st' k = readLocal InMemoryStorageEngine st k)"
proof -
  obtain w where w: "readLocal InMemoryStorageEngine st' key = Some w" "vc.descends (clock w) (clock v)"
    using ims.applyReplicate_at_least [OF assms(1,2), of key] assms(3) by blast
  moreover have "VectorClock_compare (clock l) (clock w) \<noteq> A_DOMINATES"
    if "readLocal InMemoryStorageEngine st key = Some l" for l
    using ims.applyReplicate_no_regress [OF assms(1,2) that] w(1) assms(3) by blast
  moreover have "readLocal InMemoryStorageEngine st' k = readLocal InMemoryStorageEngine st k" if "k \<noteq> key" for k
    using ims.applyReplicate_other [OF assms(1) that, of v] assms(3) by (simp add: readLocal_def)
  ultimately show ?thesis unfolding vc.descends_def by blast
qed

theorem replicate_never_regresses_witness:
  "\<exists>w. readLocal InMemoryStorageEngine
      (snd (applyReplicate InMemoryStorageEngine [(''k'', VersionedValue_serialize ex_new)] ''k'' ex_old)) ''k'' = Some w \<and>
    VectorClock_compare (clock ex_new) (clock w) \<noteq> A_DOMINATES"
proof -
  have "om_wf [(''k'', VersionedValue_serialize ex_new)]" by simp
  from replicate_never_regresses [OF this ex_versions(1) refl, of "''k''"]
  show ?thesis
    using ex_versions(2) by (auto simp: readLocal_def InMemoryStorageEngine_def InMemoryStorageEngine_get_def
        deserialize_serialize)
qed

text \<open>C6: replicas converge.  If one of the versions that a replica receives strictly dominates
  all others, the replica ends with exactly that version, whatever the order and multiplicity in
  which they arrive and whatever older version it held before.\<close>

theorem replicas_converge:
  assumes "om_wf st" "newest m vs" "\<forall>v \<in> set vs. vv_ok v"
    and "\<forall>l. readLocal InMemoryStorageEngine st key = Some l \<longrightarrow>
      l = m \<or> VectorClock_compare (clock m) (clock l) = A_DOMINATES"
  shows "readLocal InMemoryStorageEngine (applyReplicates InMemoryStorageEngine key vs st) key = Some m"
  using assms by (rule ims.newest_wins)

theorem replicas_converge_witness:
  "readLocal InMemoryStorageEngine (applyReplicates InMemoryStorageEngine ''k'' [ex_new, ex_old, ex_new] []) ''k'' = Some ex_new \<and>
   readLocal InMemoryStorageEngine (applyReplicates InMemoryStorageEngine ''k'' [ex_old, ex_new] []) ''k'' = Some ex_new"
proof -
  have "newest ex_new [ex_new, ex_old, ex_new]" "newest ex_new [ex_old, ex_new]"
    by (simp_all add: newest_def ex_versions)
  moreover have "readLocal InMemoryStorageEngine [] ''k'' = None"
    by (simp add: readLocal_def InMemoryStorageEngine_def InMemoryStorageEngine_get_def)
  ultimately show ?thesis
    using replicas_converge [of "[]" ex_new "[ex_new, ex_old, ex_new]" "''k''"]
      replicas_converge [of "[]" ex_new "[ex_old, ex_new]" "''k''"] by (simp add: ex_versions)
qed


definition ex_rocksdb :: "mem_store rocksdb_api" where
  "ex_rocksdb =
     \<lparr>db_Put = (\<lambda>d k v. (True, om_put k v d)),
      db_Get = (\<lambda>d k. case map_of d k of None \<Rightarrow> (False, []) | Some v \<Rightarrow> (True, v)),
      db_Iterator = (\<lambda>d. d)\<rparr>"

lemma ex_rocksdb_simps:
  "db_Put ex_rocksdb d k v = (True, om_put k v d)" "db_Iterator ex_rocksdb d = d"
  "db_Get ex_rocksdb d k = (case map_of d k of None \<Rightarrow> (False, []) | Some v \<Rightarrow> (True, v))"
  by (simp_all add: ex_rocksdb_def)

lemma ex_rocksdb_laws: "rocksdb_laws ex_rocksdb om_wf"
  unfolding rocksdb_laws_def ex_rocksdb_simps
proof (intro conjI allI impI)
  fix d :: mem_store and k v
  assume "om_wf d"
  then show "((k, v) \<in> set d) = ((case map_of d k of None \<Rightarrow> (False, []) | Some v \<Rightarrow> (True, v)) = (True, v))"
    by (simp add: om_in_set_iff split: option.split)
qed (simp_all add: om_wf_distinct)


text \<open>
  The status of a RocksDB put is dropped: a write that the database refused leaves the store
  as it was, and the rule still reports that it stored the version.
\<close>

lemma rocksdb_put_failure_reported_as_stored:
  assumes "db_Get api d key = (False, x)" "db_Put api d key (VersionedValue_serialize v) = (False, d)"
  shows "applyReplicate (RocksDBStorageEngine api) d key v = (True, d)"
  using assms by (simp add: applyReplicate_def RocksDBStorageEngine_def RocksDBStorageEngine_get_def
      RocksDBStorageEngine_put_def)

end
