(* ===== verification/Router.thy ===== *)
theory Router
  imports Util
begin

text \<open>
  router.h and router.cpp: the consistent-hash ring with virtual nodes.  The two ordered maps
  of the class are \<open>ring\<close> and \<open>nodes\<close>; an iterator into \<open>ring\<close> is an index into its entry
  list.  The walk of \<open>findOwners\<close> may not end in every state, so it is a partial function.

  \<open>pref_list\<close> is the reference: the distinct physical nodes in ring order from the key's
  position on.  Under the invariant \<open>ring_ok\<close> the walk returns and yields its first
  \<open>replicas\<close> elements; removing a node deletes it from every preference list and changes
  nothing else.
\<close>

record Router =
  virtual_nodes :: int
  ring :: "(u64, string) omap"
  nodes :: "(string, NodeInfo) omap"

section \<open>Operations\<close>

definition Router_new :: "int \<Rightarrow> Router" where
  "Router_new vnodes = \<lparr>virtual_nodes = vnodes, ring = [], nodes = []\<rparr>"

definition vnode_key :: "string \<Rightarrow> nat \<Rightarrow> string" where
  "vnode_key i k = i @ ''#vn'' @ dec_nat k"

definition Router_insertVNode :: "NodeInfo \<Rightarrow> nat \<Rightarrow> Router \<Rightarrow> Router" where
  "Router_insertVNode node replica_index r =
     r\<lparr>ring := om_put (hash64 (vnode_key (node_id node) replica_index)) (node_id node) (ring r)\<rparr>"

definition Router_addPhysicalNode :: "Router \<Rightarrow> NodeInfo \<Rightarrow> Router" where
  "Router_addPhysicalNode r node =
     (if map_of (nodes r) (node_id node) \<noteq> None then r
      else fold (Router_insertVNode node) [0..<nat (virtual_nodes r)]
             (r\<lparr>nodes := om_put (node_id node) node (nodes r)\<rparr>))"

definition Router_removePhysicalNode :: "Router \<Rightarrow> string \<Rightarrow> Router" where
  "Router_removePhysicalNode r i =
     (if map_of (nodes r) i = None then r
      else r\<lparr>nodes := om_del i (nodes r), ring := filter (\<lambda>e. snd e \<noteq> i) (ring r)\<rparr>)"

definition Router_physicalCount :: "Router \<Rightarrow> nat" where
  "Router_physicalCount r = length (nodes r)"

definition Router_debugRing :: "Router \<Rightarrow> (u64 \<times> string) list" where
  "Router_debugRing r = ring r"

definition Router_getAllPhysicalNodes :: "Router \<Rightarrow> NodeInfo list" where
  "Router_getAllPhysicalNodes r = map snd (nodes r)"

text \<open>The body of the walk: the physical nodes chosen so far and their infos.\<close>

definition owners_step ::
    "Router \<Rightarrow> nat \<Rightarrow> string list \<times> NodeInfo list \<Rightarrow> string list \<times> NodeInfo list" where
  "owners_step r it st =
     (let phys = snd (ring r ! it)
      in case map_of (nodes r) phys of
           None \<Rightarrow> st
         | Some info \<Rightarrow>
             if phys \<in> set (fst st) then st else (fst st @ [phys], snd st @ [info]))"

definition next_it :: "Router \<Rightarrow> nat \<Rightarrow> nat" where
  "next_it r it = (if Suc it = length (ring r) then 0 else Suc it)"

partial_function (option) owners_loop ::
    "Router \<Rightarrow> int \<Rightarrow> nat \<Rightarrow> string list \<times> NodeInfo list \<Rightarrow> NodeInfo list option" where
  "owners_loop r replicas it st =
     (if \<not> (int (length (snd st)) < replicas \<and> ring r \<noteq> []) then Some (snd st)
      else if length (fst (owners_step r it st)) = length (nodes r)
           then Some (snd (owners_step r it st))
           else owners_loop r replicas (next_it r it) (owners_step r it st))"

definition lower_bound :: "Router \<Rightarrow> u64 \<Rightarrow> nat" where
  "lower_bound r h = length (takeWhile (\<lambda>e. fst e < h) (ring r))"

definition start_it :: "Router \<Rightarrow> u64 \<Rightarrow> nat" where
  "start_it r h = (if lower_bound r h = length (ring r) then 0 else lower_bound r h)"

definition Router_findOwners :: "Router \<Rightarrow> string \<Rightarrow> int \<Rightarrow> NodeInfo list option" where
  "Router_findOwners r key replicas =
     (let replicas = (if replicas \<le> 0 then 1 else replicas); h = hash64 key
      in if ring r = [] then Some []
         else owners_loop r replicas (start_it r h) ([], []))"

section \<open>The reference preference list\<close>

definition add_new :: "'a list \<Rightarrow> 'a \<Rightarrow> 'a list" where
  "add_new acc x = (if x \<in> set acc then acc else acc @ [x])"

definition nub :: "'a list \<Rightarrow> 'a list" where
  "nub xs = foldl add_new [] xs"

definition walk_order :: "Router \<Rightarrow> u64 \<Rightarrow> string list" where
  "walk_order r h =
     map snd (filter (\<lambda>e. h \<le> fst e) (ring r) @ filter (\<lambda>e. fst e < h) (ring r))"

definition pref_list :: "Router \<Rightarrow> string \<Rightarrow> string list" where
  "pref_list r key = nub (walk_order r (hash64 key))"

definition node_of :: "Router \<Rightarrow> string \<Rightarrow> NodeInfo" where
  "node_of r i = the (map_of (nodes r) i)"

text \<open>
  The invariant: both maps are sorted, each entry is filed under its own id, and the ring
  holds positions of exactly the registered nodes.
\<close>

definition ring_ok :: "Router \<Rightarrow> bool" where
  "ring_ok r \<longleftrightarrow> om_wf (ring r) \<and> om_wf (nodes r) \<and>
     (\<forall>e \<in> set (nodes r). node_id (snd e) = fst e) \<and>
     snd ` set (ring r) = om_keys (nodes r)"

text \<open>No virtual node of \<open>i\<close> falls on a ring position of another node.\<close>

definition vnodes_free :: "Router \<Rightarrow> string \<Rightarrow> bool" where
  "vnodes_free r i \<longleftrightarrow>
     (\<forall>k < nat (virtual_nodes r). map_of (ring r) (hash64 (vnode_key i k)) = None)"

section \<open>First occurrences\<close>

lemma set_foldl_add_new: "set (foldl add_new acc xs) = set acc \<union> set xs"
  by (induction xs arbitrary: acc) (auto simp: add_new_def)

lemma distinct_foldl_add_new: "distinct acc \<Longrightarrow> distinct (foldl add_new acc xs)"
  by (induction xs arbitrary: acc) (auto simp: add_new_def)

lemma set_nub [simp]: "set (nub xs) = set xs"
  by (simp add: nub_def set_foldl_add_new)

lemma distinct_nub [simp]: "distinct (nub xs)"
  by (simp add: nub_def distinct_foldl_add_new)

lemma nub_Nil [simp]: "nub [] = []"
  by (simp add: nub_def)

lemma nub_snoc: "nub (xs @ [x]) = add_new (nub xs) x"
  by (simp add: nub_def)

lemma nub_append_prefix: "\<exists>zs. nub (xs @ ys) = nub xs @ zs"
proof (induction ys rule: rev_induct)
  case (snoc y ys)
  then show ?case
    by (auto simp: nub_snoc [of "xs @ ys" y, simplified] add_new_def)
qed simp

lemma filter_add_new: "filter P (add_new acc x) = (if P x then add_new (filter P acc) x else filter P acc)"
  by (auto simp: add_new_def)

lemma filter_nub: "filter P (nub xs) = nub (filter P xs)"
proof (induction xs rule: rev_induct)
  case (snoc x xs)
  then show ?case by (cases "P x") (simp_all add: nub_snoc filter_add_new)
qed simp

lemma nub_take_prefix: "nub (take k xs) = take (length (nub (take k xs))) (nub xs)"
  using nub_append_prefix [of "take k xs" "drop k xs"] by auto

section \<open>The walk\<close>

lemma ring_ok_om: "ring_ok r \<Longrightarrow> om_wf (ring r) \<and> om_wf (nodes r)"
  by (simp add: ring_ok_def)

lemma ring_ok_ids: "ring_ok r \<Longrightarrow> snd ` set (ring r) = om_keys (nodes r)"
  by (simp add: ring_ok_def)

lemma set_walk_order: "set (walk_order r h) = snd ` set (ring r)"
proof -
  have "{e \<in> set (ring r). h \<le> fst e} \<union> {e \<in> set (ring r). fst e < h} = set (ring r)" by auto
  then show ?thesis by (simp add: walk_order_def image_Un [symmetric])
qed

lemma set_pref_list: "ring_ok r \<Longrightarrow> set (pref_list r key) = om_keys (nodes r)"
  by (simp add: pref_list_def set_walk_order ring_ok_ids)

lemma length_pref_list: "ring_ok r \<Longrightarrow> length (pref_list r key) = length (nodes r)"
  using distinct_card [of "pref_list r key"] set_pref_list [of r key] om_length_keys [of "nodes r"]
  by (simp add: ring_ok_om pref_list_def)

lemma node_of_id: "\<lbrakk> ring_ok r; i \<in> om_keys (nodes r) \<rbrakk>
    \<Longrightarrow> map_of (nodes r) i = Some (node_of r i) \<and> node_id (node_of r i) = i"
proof -
  assume ok: "ring_ok r" and "i \<in> om_keys (nodes r)"
  then obtain n where n: "map_of (nodes r) i = Some n" by (auto simp: om_keys_iff)
  then have "(i, n) \<in> set (nodes r)" by (rule map_of_SomeD)
  with ok n show ?thesis by (auto simp: ring_ok_def node_of_def)
qed

lemma sorted_takeWhile_filter:
  "om_wf m \<Longrightarrow> takeWhile (\<lambda>e. fst e < h) m = filter (\<lambda>e. fst e < h) m \<and>
     dropWhile (\<lambda>e. fst e < h) m = filter (\<lambda>e. h \<le> fst e) m"
proof (induction m)
  case (Cons e m)
  show ?case
  proof (cases "fst e < h")
    case True
    with Cons show ?thesis by auto
  next
    case False
    with Cons.prems have "\<forall>e' \<in> set m. h \<le> fst e'" by (fastforce simp: om_keys_def)
    with False show ?thesis by (auto simp: filter_empty_conv not_less [symmetric])
  qed
qed simp

lemma walk_order_rotate:
  assumes "om_wf (ring r)" "ring r \<noteq> []"
  shows "walk_order r h = map snd (drop (start_it r h) (ring r) @ take (start_it r h) (ring r)) \<and>
     start_it r h < length (ring r)"
proof -
  let ?t = "takeWhile (\<lambda>e. fst e < h) (ring r)"
  have split: "drop (length ?t) (ring r) = dropWhile (\<lambda>e. fst e < h) (ring r)"
    "take (length ?t) (ring r) = ?t"
    by (simp_all add: dropWhile_eq_drop takeWhile_eq_take [symmetric])
  show ?thesis
  proof (cases "lower_bound r h = length (ring r)")
    case True
    then have "?t = ring r" by (metis lower_bound_def split(2) take_all_iff order_refl)
    moreover have "dropWhile (\<lambda>e. fst e < h) (ring r) = []"
      using True split(1) by (simp add: lower_bound_def)
    ultimately have "filter (\<lambda>e. fst e < h) (ring r) = ring r \<and> filter (\<lambda>e. h \<le> fst e) (ring r) = []"
      using sorted_takeWhile_filter [OF assms(1), of h] by simp
    with True assms(2) show ?thesis by (simp add: start_it_def walk_order_def)
  next
    case False
    have "lower_bound r h < length (ring r)"
      using False length_takeWhile_le [of "\<lambda>e. fst e < h" "ring r"]
      by (simp add: lower_bound_def le_neq_implies_less)
    with False split sorted_takeWhile_filter [OF assms(1), of h] show ?thesis
      by (simp add: start_it_def walk_order_def lower_bound_def)
  qed
qed

lemma nth_rotated:
  assumes "i < length xs" "k < length xs"
  shows "(drop i xs @ take i xs) ! k = xs ! ((i + k) mod length xs)"
proof (cases "i + k < length xs")
  case True
  then have "k < length xs - i" by arith
  with True show ?thesis by (simp add: nth_append)
next
  case False
  with assms have "(i + k) mod length xs = k - (length xs - i)"
    by (simp add: mod_if ac_simps)
  moreover from False have "\<not> k < length xs - i" by arith
  ultimately show ?thesis using assms by (simp add: nth_append)
qed

lemma next_it_mod:
  "it < length (ring r) \<Longrightarrow> next_it r it = Suc it mod length (ring r)"
  by (auto simp: next_it_def)

lemma owners_step_known:
  assumes "ring_ok r" "it < length (ring r)"
  shows "owners_step r it (c, map (node_of r) c) =
     (add_new c (snd (ring r ! it)), map (node_of r) (add_new c (snd (ring r ! it))))"
proof -
  have "snd (ring r ! it) \<in> om_keys (nodes r)"
    using assms ring_ok_ids [OF assms(1)] nth_mem by blast
  with node_of_id [OF assms(1)] show ?thesis
    by (auto simp: owners_step_def add_new_def Let_def)
qed

lemma owners_loop_walk:
  assumes ok: "ring_ok r" and i: "i < length (ring r)"
    and xs: "xs = map snd (drop i (ring r) @ take i (ring r))"
  shows "\<lbrakk> k < length (ring r); int (length (nub (take k xs))) < replicas;
      length (nub (take k xs)) < length (nodes r) \<rbrakk> \<Longrightarrow>
    owners_loop r replicas ((i + k) mod length (ring r))
      (nub (take k xs), map (node_of r) (nub (take k xs)))
    = Some (map (node_of r) (take (nat replicas) (nub xs)))"
proof (induction "length (ring r) - k" arbitrary: k)
  case (Suc n)
  let ?L = "length (ring r)" and ?it = "(i + k) mod length (ring r)"
  let ?c = "nub (take k xs)" and ?c' = "nub (take (Suc k) xs)"
  have len: "length xs = ?L" using i by (simp add: xs)
  have it: "?it < ?L" using i by (intro mod_less_divisor) linarith
  have "xs ! k = snd (ring r ! ?it)"
    using nth_rotated [of i "ring r" k] i Suc.prems(1) by (simp add: xs nth_map del: map_append)
  then have c': "?c' = add_new ?c (snd (ring r ! ?it))"
    using Suc.prems(1) len by (simp add: take_Suc_conv_app_nth nub_snoc)
  have step: "owners_step r ?it (?c, map (node_of r) ?c) = (?c', map (node_of r) ?c')"
    using owners_step_known [OF ok it] by (simp add: c')
  have nub_len: "length (nub xs) = length (nodes r)"
  proof -
    have "set xs = snd ` (set (take i (ring r)) \<union> set (drop i (ring r)))" by (auto simp: xs)
    also have "\<dots> = om_keys (nodes r)"
      by (metis append_take_drop_id ok ring_ok_ids set_append)
    finally have "set xs = om_keys (nodes r)" .
    then show ?thesis
      by (metis distinct_card distinct_nub ok om_length_keys ring_ok_om set_nub)
  qed
  have le: "length ?c' \<le> Suc (length ?c)" by (simp add: c' add_new_def)
  have pre: "?c' = take (length ?c') (nub xs)" by (rule nub_take_prefix)
  show ?case
  proof (cases "length ?c' = length (nodes r)")
    case True
    with pre nub_len have "?c' = nub xs" by simp
    moreover have "length (nub xs) \<le> nat replicas"
      using True nub_len le Suc.prems(2) by simp
    ultimately show ?thesis
      using Suc.prems i by (subst owners_loop.simps) (auto simp: step nub_len)
  next
    case False
    have nodes_lt: "length ?c' < length (nodes r)"
      using False le Suc.prems(3) by simp
    have unf: "owners_loop r replicas ?it (?c, map (node_of r) ?c) =
        owners_loop r replicas (next_it r ?it) (?c', map (node_of r) ?c')"
      using Suc.prems i False by (subst owners_loop.simps) (auto simp: step)
    show ?thesis
    proof (cases "int (length ?c') < replicas")
      case True
      have "Suc k \<noteq> ?L"
      proof
        assume "Suc k = ?L"
        then have "?c' = nub xs" using len by simp
        with nub_len nodes_lt show False by simp
      qed
      then have k: "Suc k < ?L" using Suc.prems(1) by simp
      have "next_it r ?it = (i + Suc k) mod ?L"
        using it by (simp add: next_it_mod mod_Suc_eq)
      with Suc.hyps(1) [of "Suc k"] Suc.hyps(2) k True nodes_lt show ?thesis
        by (simp add: unf)
    next
      case False
      then have "length ?c' = nat replicas" using le Suc.prems(2) by linarith
      with pre have "?c' = take (nat replicas) (nub xs)" by simp
      with False show ?thesis
        unfolding unf by (subst owners_loop.simps) simp
    qed
  qed
qed simp

lemma findOwners_pref:
  assumes ok: "ring_ok r"
  shows "Router_findOwners r key replicas =
    Some (map (node_of r) (take (nat (if replicas \<le> 0 then 1 else replicas)) (pref_list r key)))"
proof (cases "ring r = []")
  case True
  then show ?thesis
    by (simp add: Router_findOwners_def Let_def pref_list_def walk_order_def)
next
  case False
  define rep where "rep = (if replicas \<le> 0 then 1 else replicas)"
  define it where "it = start_it r (hash64 key)"
  have w: "walk_order r (hash64 key) = map snd (drop it (ring r) @ take it (ring r))"
    "it < length (ring r)"
    using walk_order_rotate [of r "hash64 key"] ring_ok_om [OF ok] False by (simp_all add: it_def)
  have "nodes r \<noteq> []" using ring_ok_ids [OF ok] False by (cases "ring r") (auto simp: om_keys_def)
  moreover have "0 < rep" by (simp add: rep_def)
  ultimately have "owners_loop r rep it ([], []) =
      Some (map (node_of r) (take (nat rep) (nub (walk_order r (hash64 key)))))"
    using owners_loop_walk [OF ok w(2) w(1), of 0 rep] w(2) False by simp
  then show ?thesis
    using False
    by (simp add: Router_findOwners_def Let_def pref_list_def rep_def [symmetric] it_def [symmetric])
qed

section \<open>Adding and removing nodes\<close>

lemma add_known: "map_of (nodes r) (node_id n) \<noteq> None \<Longrightarrow> Router_addPhysicalNode r n = r"
  by (simp add: Router_addPhysicalNode_def)

lemma fold_insertVNode:
  "fold (Router_insertVNode n) ks r =
     r\<lparr>ring := fold (\<lambda>k m. om_put (hash64 (vnode_key (node_id n) k)) (node_id n) m) ks (ring r)\<rparr>"
  by (induction ks arbitrary: r) (simp_all add: Router_insertVNode_def)

lemma fold_put_get:
  "map_of (fold (\<lambda>k m. om_put (f k) v m) ks m) x = (if x \<in> f ` set ks then Some v else map_of m x)"
  by (induction ks arbitrary: m) auto

lemma fold_put_wf: "om_wf m \<Longrightarrow> om_wf (fold (\<lambda>k m. om_put (f k) v m) ks m)"
  by (induction ks arbitrary: m) auto

lemma add_new_node:
  assumes "map_of (nodes r) (node_id n) = None"
  shows "nodes (Router_addPhysicalNode r n) = om_put (node_id n) n (nodes r)"
    and "map_of (ring (Router_addPhysicalNode r n)) h =
      (if \<exists>k < nat (virtual_nodes r). h = hash64 (vnode_key (node_id n) k)
       then Some (node_id n) else map_of (ring r) h)"
    and "om_wf (ring r) \<Longrightarrow> om_wf (ring (Router_addPhysicalNode r n))"
    and "virtual_nodes (Router_addPhysicalNode r n) = virtual_nodes r"
  using assms
  by (auto simp: Router_addPhysicalNode_def fold_insertVNode fold_put_get image_iff
      intro!: fold_put_wf)

lemma om_range: "om_wf m \<Longrightarrow> v \<in> snd ` set m \<longleftrightarrow> (\<exists>k. map_of m k = Some v)"
  by (force simp: om_in_set_iff [symmetric])

lemma nodes_filed_put:
  "\<lbrakk> \<forall>e \<in> set m. node_id (snd e) = fst e \<rbrakk> \<Longrightarrow>
     \<forall>e \<in> set (om_put (node_id n) n m). node_id (snd e) = fst e"
  by (induction m) auto

lemma ring_ok_new [simp]: "ring_ok (Router_new v)"
  by (simp add: ring_ok_def Router_new_def)

lemma ring_ok_add [wf_intros]:
  assumes ok: "ring_ok r" and v: "0 < virtual_nodes r" and free: "vnodes_free r (node_id n)"
  shows "ring_ok (Router_addPhysicalNode r n)"
proof (cases "map_of (nodes r) (node_id n)")
  case None
  let ?r = "Router_addPhysicalNode r n"
  have wf: "om_wf (ring ?r)" "om_wf (nodes ?r)"
    using ring_ok_om [OF ok] add_new_node [OF None] by auto
  have "snd ` set (ring ?r) = insert (node_id n) (snd ` set (ring r))"
  proof (rule set_eqI)
    fix x
    have "(\<exists>h. map_of (ring ?r) h = Some x) \<longleftrightarrow> x = node_id n \<or> (\<exists>h. map_of (ring r) h = Some x)"
      using free v unfolding add_new_node(2) [OF None] vnodes_free_def
      by (auto split: if_splits) (metis option.distinct(1) zero_less_nat_eq)+
    then show "x \<in> snd ` set (ring ?r) \<longleftrightarrow> x \<in> insert (node_id n) (snd ` set (ring r))"
      using wf(1) ring_ok_om [OF ok] by (simp add: om_range)
  qed
  moreover have "\<forall>e \<in> set (nodes ?r). node_id (snd e) = fst e"
    using ok unfolding add_new_node(1) [OF None] by (intro nodes_filed_put) (simp add: ring_ok_def)
  ultimately show ?thesis
    using ok wf add_new_node(1) [OF None] by (simp add: ring_ok_def)
qed (use ok add_known in auto)

lemma ring_ok_remove [wf_intros]:
  assumes ok: "ring_ok r"
  shows "ring_ok (Router_removePhysicalNode r i)"
proof -
  have "snd ` set (filter (\<lambda>e. snd e \<noteq> i) (ring r)) = snd ` set (ring r) - {i}" by auto
  with ok show ?thesis
    by (auto simp: ring_ok_def Router_removePhysicalNode_def om_del_def om_keys_def)
qed

lemma pref_list_remove:
  assumes ok: "ring_ok r"
  shows "pref_list (Router_removePhysicalNode r i) key = filter (\<lambda>x. x \<noteq> i) (pref_list r key)"
proof (cases "map_of (nodes r) i")
  case None
  then have "i \<notin> set (pref_list r key)"
    using set_pref_list [OF ok] by (simp add: om_keys_None)
  with None show ?thesis
    by (metis (mono_tags, lifting) Router_removePhysicalNode_def filter_True)
next
  case (Some n)
  have "walk_order (Router_removePhysicalNode r i) h = filter (\<lambda>x. x \<noteq> i) (walk_order r h)" for h
    using Some
    by (simp add: walk_order_def Router_removePhysicalNode_def filter_map comp_def conj_commute)
  then show ?thesis by (simp add: pref_list_def filter_nub)
qed

lemma remove_add:
  assumes ok: "ring_ok r" and new: "map_of (nodes r) (node_id n) = None"
    and free: "vnodes_free r (node_id n)"
  shows "Router_removePhysicalNode (Router_addPhysicalNode r n) (node_id n) = r"
proof -
  let ?a = "Router_addPhysicalNode r n"
  have "om_del (node_id n) (nodes ?a) = nodes r"
    using ring_ok_om [OF ok] new by (intro om_ext) (auto simp: add_new_node(1) [OF new])
  moreover have "filter (\<lambda>e. snd e \<noteq> node_id n) (ring ?a) = ring r"
  proof (rule om_ext)
    show wf: "om_wf (filter (\<lambda>e. snd e \<noteq> node_id n) (ring ?a))" "om_wf (ring r)"
      using ring_ok_om [OF ok] add_new_node(3) [OF new] by auto
    fix h
    have "map_of (ring r) h \<noteq> Some (node_id n)"
      using new ring_ok_ids [OF ok] om_range [OF wf(2)] by (metis om_keys_None)
    then show "map_of (filter (\<lambda>e. snd e \<noteq> node_id n) (ring ?a)) h = map_of (ring r) h"
      using ring_ok_om [OF ok] add_new_node(3) [OF new] free
      by (auto simp: map_of_filter add_new_node(2) [OF new] vnodes_free_def split: option.split)
  qed
  moreover have "map_of (nodes ?a) (node_id n) \<noteq> None"
    by (simp add: add_new_node(1) [OF new])
  moreover have "?a\<lparr>nodes := nodes r, ring := ring r\<rparr> = r"
    using add_new_node(4) [OF new] by (intro Router.equality) simp_all
  ultimately show ?thesis
    unfolding Router_removePhysicalNode_def by (simp only: if_False)
qed

lemma pref_list_add:
  assumes "ring_ok r" "map_of (nodes r) (node_id n) = None" "vnodes_free r (node_id n)"
    "0 < virtual_nodes r"
  shows "filter (\<lambda>x. x \<noteq> node_id n) (pref_list (Router_addPhysicalNode r n) key) = pref_list r key"
  using pref_list_remove [OF ring_ok_add [OF assms(1,4,3)]] remove_add [OF assms(1-3)] by metis

section \<open>Owners\<close>

lemma findOwners_facts:
  assumes "ring_ok r" "Router_findOwners r key n = Some owners"
  shows "map node_id owners = take (nat (max 1 n)) (pref_list r key)"
    and "distinct (map node_id owners)"
    and "length owners = min (nat (max 1 n)) (Router_physicalCount r)"
    and "set owners \<subseteq> set (Router_getAllPhysicalNodes r)"
proof -
  let ?ids = "take (nat (max 1 n)) (pref_list r key)"
  have o: "owners = map (node_of r) ?ids"
    using assms by (simp add: findOwners_pref max_def split: if_splits)
  have mem: "i \<in> om_keys (nodes r)" if "i \<in> set ?ids" for i
    using that set_pref_list [OF assms(1)] by (auto dest: in_set_takeD)
  show ids: "map node_id owners = ?ids"
    using node_of_id [OF assms(1)] mem unfolding o map_map by (intro map_idI) simp
  show "distinct (map node_id owners)"
    unfolding ids by (simp add: pref_list_def)
  show "length owners = min (nat (max 1 n)) (Router_physicalCount r)"
    using o length_pref_list [OF assms(1)] by (simp add: Router_physicalCount_def min.commute)
  show "set owners \<subseteq> set (Router_getAllPhysicalNodes r)"
    using node_of_id [OF assms(1)] mem map_of_SomeD [of "nodes r"]
    unfolding o Router_getAllPhysicalNodes_def by force
qed

lemma take_filter_neq:
  assumes "distinct xs"
  shows "take n (filter (\<lambda>x. x \<noteq> i) xs) = take n (filter (\<lambda>x. x \<noteq> i) (take (Suc n) xs))"
  using assms
proof (induction xs arbitrary: n)
  case (Cons x xs)
  show ?case
  proof (cases "x = i")
    case True
    then have "filter (\<lambda>x. x \<noteq> i) (take n xs) = take n xs" "filter (\<lambda>x. x \<noteq> i) xs = xs"
      using Cons.prems by (auto simp: filter_id_conv dest: in_set_takeD)
    with True show ?thesis by simp
  next
    case False
    with Cons show ?thesis by (cases n) simp_all
  qed
qed simp

section \<open>Properties\<close>

definition ex_router3 :: Router where
  "ex_router3 = \<lparr>virtual_nodes = 1, ring = [(100, ''a''), (200, ''b''), (300, ''c'')],
     nodes = [(''a'', mkNodeInfo ''a'' ''h'' 1), (''b'', mkNodeInfo ''b'' ''h'' 2),
              (''c'', mkNodeInfo ''c'' ''h'' 3)]\<rparr>"

definition ex_d :: NodeInfo where
  "ex_d = mkNodeInfo ''d'' ''h'' 4"

lemma ex_router3_ok: "ring_ok ex_router3" "vnodes_free ex_router3 ''d''" "node_id ex_d = ''d''"
  "0 < virtual_nodes ex_router3" "map_of (nodes ex_router3) ''d'' = None"
proof -
  show "vnodes_free ex_router3 ''d''"
  proof -
    have "map_of (ring ex_router3) (hash64 (vnode_key ''d'' 0)) = None" by code_simp
    then show ?thesis by (simp add: vnodes_free_def ex_router3_def less_Suc_eq_0_disj)
  qed
qed (code_simp+)

text \<open>C7: the owner walk ends and is right.  On every well-formed ring \<open>findOwners\<close> returns the
  first distinct physical nodes met clockwise from the hash of the key - the requested number
  (at least one), or all of them if there are fewer - each once and with its registered address.\<close>

theorem findOwners_correct:
  assumes "ring_ok r"
  shows "\<exists>owners. Router_findOwners r key n = Some owners \<and>
    map node_id owners = take (nat (max 1 n)) (pref_list r key) \<and> distinct (map node_id owners) \<and>
    length owners = min (nat (max 1 n)) (Router_physicalCount r) \<and>
    set owners \<subseteq> set (Router_getAllPhysicalNodes r)"
proof -
  obtain owners where "Router_findOwners r key n = Some owners"
    using findOwners_pref [OF assms] by blast
  with findOwners_facts [OF assms this] show ?thesis by blast
qed

theorem findOwners_correct_witness:
  "\<exists>owners. Router_findOwners ex_router3 ''k'' 2 = Some owners \<and> length owners = 2 \<and> distinct (map node_id owners)"
  using findOwners_correct [OF ex_router3_ok(1), of "''k''" 2]
  by (auto simp: ex_router3_def Router_physicalCount_def)

text \<open>C39: membership changes keep the ring well formed, and removing a node that was just added
  restores the router exactly.\<close>

theorem ring_invariant:
  assumes "ring_ok r" "0 < virtual_nodes r" "vnodes_free r (node_id n)"
  shows "ring_ok (Router_addPhysicalNode r n) \<and> ring_ok (Router_removePhysicalNode r i) \<and>
    (map_of (nodes r) (node_id n) = None \<longrightarrow>
       Router_removePhysicalNode (Router_addPhysicalNode r n) (node_id n) = r)"
  using ring_ok_add [OF assms] ring_ok_remove [OF assms(1)] remove_add [OF assms(1) _ assms(3)] by blast

theorem ring_invariant_witness:
  "ring_ok (Router_addPhysicalNode ex_router3 ex_d) \<and>
   Router_removePhysicalNode (Router_addPhysicalNode ex_router3 ex_d) ''d'' = ex_router3"
  using ring_invariant [of ex_router3 ex_d "''a''"] ex_router3_ok by simp

text \<open>C33: consistent hashing disrupts as little as possible.  When a node leaves, the owners of
  every key are the owners before without that node, completed by the next one on the ring; when
  a node joins, the other owners of every key stay and keep their order.\<close>

theorem minimal_disruption:
  assumes "ring_ok r" "0 < k"
    and "Router_findOwners r key (int k + 1) = Some before"
    and "Router_findOwners (Router_removePhysicalNode r i) key (int k) = Some after_leave"
    and "ring_ok (Router_addPhysicalNode r n)" "map_of (nodes r) (node_id n) = None" "vnodes_free r (node_id n)"
    and "Router_findOwners (Router_addPhysicalNode r n) key (int k + 1) = Some after_join"
    and "Router_findOwners r key (int k) = Some old"
  shows "map node_id after_leave = take k (filter (\<lambda>x. x \<noteq> i) (map node_id before)) \<and>
    map node_id old = take k (filter (\<lambda>x. x \<noteq> node_id n) (map node_id after_join))"
proof -
  have n: "nat (max 1 (int k + 1)) = Suc k" "nat (max 1 (int k)) = k"
    using assms(2) by simp_all
  have d: "distinct (pref_list q key)" for q by (simp add: pref_list_def)
  have "map node_id after_leave = take k (filter (\<lambda>x. x \<noteq> i) (pref_list r key))"
    using findOwners_facts(1) [OF ring_ok_remove [OF assms(1)] assms(4)] pref_list_remove [OF assms(1)] n by simp
  moreover have "pref_list (Router_removePhysicalNode (Router_addPhysicalNode r n) (node_id n)) key = pref_list r key"
    using remove_add [OF assms(1,6,7)] by simp
  then have "map node_id old = take k (filter (\<lambda>x. x \<noteq> node_id n) (pref_list (Router_addPhysicalNode r n) key))"
    using findOwners_facts(1) [OF assms(1,9)] pref_list_remove [OF assms(5)] n by simp
  ultimately show ?thesis
    using findOwners_facts(1) [OF assms(1,3)] findOwners_facts(1) [OF assms(5,8)] take_filter_neq [OF d] n by simp
qed

theorem minimal_disruption_witness:
  "\<exists>before after. Router_findOwners ex_router3 ''k'' 3 = Some before \<and>
    Router_findOwners (Router_removePhysicalNode ex_router3 ''a'') ''k'' 2 = Some after \<and>
    map node_id after = take 2 (filter (\<lambda>x. x \<noteq> ''a'') (map node_id before))"
proof -
  have ok: "ring_ok ex_router3" "ring_ok (Router_removePhysicalNode ex_router3 ''a'')"
    "ring_ok (Router_addPhysicalNode ex_router3 ex_d)"
    using ex_router3_ok ring_ok_add [of ex_router3 ex_d] ring_ok_remove by simp_all
  obtain o1 o2 o3 o4 where "Router_findOwners ex_router3 ''k'' (int 2 + 1) = Some o1"
    "Router_findOwners (Router_removePhysicalNode ex_router3 ''a'') ''k'' (int 2) = Some o2"
    "Router_findOwners (Router_addPhysicalNode ex_router3 ex_d) ''k'' (int 2 + 1) = Some o3"
    "Router_findOwners ex_router3 ''k'' (int 2) = Some o4"
    using ok findOwners_pref by blast
  with minimal_disruption [OF ok(1) _ this(1,2) ok(3) _ _ this(3,4)] ex_router3_ok show ?thesis by simp
qed

text \<open>A node that is already registered keeps its first address when it is added again.\<close>

lemma readd_keeps_old_address:
  "Router_getAllPhysicalNodes (Router_addPhysicalNode (Router_addPhysicalNode (Router_new 1)
     (mkNodeInfo ''n'' ''old'' 1)) (mkNodeInfo ''n'' ''new'' 2)) = [mkNodeInfo ''n'' ''old'' 1]"
  by (simp add: Router_addPhysicalNode_def Router_new_def Router_insertVNode_def
      Router_getAllPhysicalNodes_def mkNodeInfo_def)

end
