(* ===== verification/Hints.thy ===== *)
theory Hints
  imports Versioned_Value
begin

text \<open>
  hints/hint\_store and hints/handoff\_thread: writes kept for a node that is down, and their
  delivery once it is back.  The hash map of hint lists is an ordered map; the two loops over
  it (expiry and the total count) do not depend on the order.  The delivery function is a
  parameter over an environment state, and the clock an argument in nanoseconds.

  Shown: the per-target cap, which hints survive expiry, and that a delivery round neither
  loses nor duplicates a hint: each is delivered or kept for the next round.
\<close>

record Hint =
  h_target :: string
  h_key :: string
  h_value :: VersionedValue
  h_created_at :: int

record HintStore =
  hs_ttl :: int
  hs_max_per_target :: nat
  hs_hints :: "(string, Hint list) omap"

section \<open>HintStore\<close>

definition HintStore_new :: "int \<Rightarrow> nat \<Rightarrow> HintStore" where
  "HintStore_new ttl_seconds max_hints_per_target =
     \<lparr>hs_ttl = ttl_seconds * 1000000000, hs_max_per_target = max_hints_per_target, hs_hints = []\<rparr>"

definition hints_for :: "HintStore \<Rightarrow> string \<Rightarrow> Hint list" where
  "hints_for hs t = (case map_of (hs_hints hs) t of None \<Rightarrow> [] | Some l \<Rightarrow> l)"

definition HintStore_store :: "int \<Rightarrow> HintStore \<Rightarrow> string \<Rightarrow> string \<Rightarrow> VersionedValue \<Rightarrow> HintStore" where
  "HintStore_store now hs t key v =
     (let l = hints_for hs t;
          l' = (if length l \<ge> hs_max_per_target hs then l
                else l @ [\<lparr>h_target = t, h_key = key, h_value = v, h_created_at = now\<rparr>])
      in hs\<lparr>hs_hints := om_put t l' (hs_hints hs)\<rparr>)"

definition HintStore_drain :: "HintStore \<Rightarrow> string \<Rightarrow> Hint list \<times> HintStore" where
  "HintStore_drain hs t =
     (case map_of (hs_hints hs) t of
        None \<Rightarrow> ([], hs)
      | Some l \<Rightarrow> (l, hs\<lparr>hs_hints := om_del t (hs_hints hs)\<rparr>))"

definition HintStore_dropTarget :: "HintStore \<Rightarrow> string \<Rightarrow> nat \<times> HintStore" where
  "HintStore_dropTarget hs t =
     (case map_of (hs_hints hs) t of
        None \<Rightarrow> (0, hs)
      | Some l \<Rightarrow> (length l, hs\<lparr>hs_hints := om_del t (hs_hints hs)\<rparr>))"

definition HintStore_expireOld :: "int \<Rightarrow> HintStore \<Rightarrow> HintStore" where
  "HintStore_expireOld now hs =
     hs\<lparr>hs_hints := filter (\<lambda>p. snd p \<noteq> [])
          (map (\<lambda>(t, l). (t, filter (\<lambda>h. \<not> now - h_created_at h > hs_ttl hs) l)) (hs_hints hs))\<rparr>"

definition HintStore_hintCount :: "HintStore \<Rightarrow> nat" where
  "HintStore_hintCount hs = sum_list (map (\<lambda>p. length (snd p)) (hs_hints hs))"

definition HintStore_hintCountFor :: "HintStore \<Rightarrow> string \<Rightarrow> nat" where
  "HintStore_hintCountFor hs t =
     (case map_of (hs_hints hs) t of None \<Rightarrow> 0 | Some l \<Rightarrow> length l)"

section \<open>HandoffThread\<close>

type_synonym 'e deliver_fn = "'e \<Rightarrow> NodeInfo \<Rightarrow> string \<Rightarrow> VersionedValue \<Rightarrow> bool \<times> 'e"

record HandoffThread =
  ht_store :: HintStore
  ht_recovery_queue :: "NodeInfo list"
  ht_delivered :: u64

definition HandoffThread_notifyRecovery :: "HandoffThread \<Rightarrow> NodeInfo \<Rightarrow> HandoffThread" where
  "HandoffThread_notifyRecovery ht recovered =
     ht\<lparr>ht_recovery_queue := ht_recovery_queue ht @ [recovered]\<rparr>"

fun deliver_hints ::
    "int \<Rightarrow> 'e deliver_fn \<Rightarrow> NodeInfo \<Rightarrow> Hint list \<Rightarrow> HandoffThread \<Rightarrow> 'e \<Rightarrow> HandoffThread \<times> 'e" where
  "deliver_hints now deliver target [] ht e = (ht, e)"
| "deliver_hints now deliver target (h # hs) ht e =
     (case deliver e target (h_key h) (h_value h) of (ok, e) \<Rightarrow>
        deliver_hints now deliver target hs
          (if ok then ht\<lparr>ht_delivered := ht_delivered ht + 1\<rparr>
           else ht\<lparr>ht_store := HintStore_store now (ht_store ht) (node_id target) (h_key h) (h_value h)\<rparr>) e)"

definition HandoffThread_deliverFor ::
    "int \<Rightarrow> 'e deliver_fn \<Rightarrow> NodeInfo \<Rightarrow> HandoffThread \<Rightarrow> 'e \<Rightarrow> HandoffThread \<times> 'e" where
  "HandoffThread_deliverFor now deliver target ht e =
     (case HintStore_drain (ht_store ht) (node_id target) of (hints, st) \<Rightarrow>
        deliver_hints now deliver target hints (ht\<lparr>ht_store := st\<rparr>) e)"

fun deliver_targets ::
    "int \<Rightarrow> 'e deliver_fn \<Rightarrow> NodeInfo list \<Rightarrow> HandoffThread \<Rightarrow> 'e \<Rightarrow> HandoffThread \<times> 'e" where
  "deliver_targets now deliver [] ht e = (ht, e)"
| "deliver_targets now deliver (t # ts) ht e =
     (case HandoffThread_deliverFor now deliver t ht e of (ht, e) \<Rightarrow>
        deliver_targets now deliver ts ht e)"

text \<open>One turn of the loop in \<open>run\<close>.\<close>

definition HandoffThread_run_once ::
    "int \<Rightarrow> 'e deliver_fn \<Rightarrow> HandoffThread \<Rightarrow> 'e \<Rightarrow> HandoffThread \<times> 'e" where
  "HandoffThread_run_once now deliver ht e =
     (let targets = ht_recovery_queue ht
      in case deliver_targets now deliver targets (ht\<lparr>ht_recovery_queue := []\<rparr>) e of (ht, e) \<Rightarrow>
           (ht\<lparr>ht_store := HintStore_expireOld now (ht_store ht)\<rparr>, e))"

section \<open>Invariant\<close>

definition hints_wf :: "HintStore \<Rightarrow> bool" where
  "hints_wf hs \<longleftrightarrow> om_wf (hs_hints hs) \<and>
     (\<forall>p \<in> set (hs_hints hs). length (snd p) \<le> hs_max_per_target hs \<and> (\<forall>h \<in> set (snd p). h_target h = fst p))"

text \<open>The hints of a round that the delivery function refuses, with the environment threaded.\<close>

fun refused :: "'e deliver_fn \<Rightarrow> NodeInfo \<Rightarrow> Hint list \<Rightarrow> 'e \<Rightarrow> Hint list" where
  "refused deliver target [] e = []"
| "refused deliver target (h # hs) e =
     (case deliver e target (h_key h) (h_value h) of (ok, e) \<Rightarrow>
        (if ok then [] else [h]) @ refused deliver target hs e)"

lemma hints_for_store [simp]:
  "hints_for (HintStore_store now hs t k v) t' =
     (if t' = t \<and> length (hints_for hs t) < hs_max_per_target hs
      then hints_for hs t @ [\<lparr>h_target = t, h_key = k, h_value = v, h_created_at = now\<rparr>]
      else hints_for hs t')"
  by (auto simp: HintStore_store_def hints_for_def Let_def)

lemma max_store [simp]: "hs_max_per_target (HintStore_store now hs t k v) = hs_max_per_target hs"
  by (simp add: HintStore_store_def Let_def)

lemma drain_eq:
  "HintStore_drain hs t = (hints_for hs t, snd (HintStore_drain hs t))"
  "hints_for (snd (HintStore_drain hs t)) t' = (if t' = t then [] else hints_for hs t')"
  "hs_max_per_target (snd (HintStore_drain hs t)) = hs_max_per_target hs"
  by (auto simp: HintStore_drain_def hints_for_def split: option.split)

lemma hints_wf_for:
  "hints_wf hs \<longleftrightarrow> om_wf (hs_hints hs) \<and>
     (\<forall>t. length (hints_for hs t) \<le> hs_max_per_target hs \<and> (\<forall>h \<in> set (hints_for hs t). h_target h = t))"
proof -
  have "(\<forall>p \<in> set (hs_hints hs). P (fst p) (snd p)) \<longleftrightarrow> (\<forall>t l. map_of (hs_hints hs) t = Some l \<longrightarrow> P t l)"
    if "om_wf (hs_hints hs)" for P :: "string \<Rightarrow> Hint list \<Rightarrow> bool"
    using om_in_set_iff [OF that] by fastforce
  from this [of "\<lambda>t l. length l \<le> hs_max_per_target hs \<and> (\<forall>h \<in> set l. h_target h = t)"]
  show ?thesis
    by (auto simp: hints_wf_def hints_for_def split: option.splits)
qed

lemma store_wf [wf_intros]: "hints_wf hs \<Longrightarrow> hints_wf (HintStore_store now hs t k v)"
  unfolding hints_wf_for hints_for_store max_store
  by (auto simp: HintStore_store_def Let_def)

lemma drain_wf [wf_intros]: "hints_wf hs \<Longrightarrow> hints_wf (snd (HintStore_drain hs t))"
  by (auto simp: hints_wf_def HintStore_drain_def om_del_def split: option.split)

lemma dropTarget_wf [wf_intros]: "hints_wf hs \<Longrightarrow> hints_wf (snd (HintStore_dropTarget hs t))"
  by (auto simp: hints_wf_def HintStore_dropTarget_def om_del_def split: option.split)

lemma expireOld_for:
  assumes "om_wf (hs_hints hs)"
  shows "hints_for (HintStore_expireOld now hs) t =
    filter (\<lambda>h. now - h_created_at h \<le> hs_ttl hs) (hints_for hs t)"
proof -
  let ?m = "map (\<lambda>(t, l). (t, filter (\<lambda>h. \<not> now - h_created_at h > hs_ttl hs) l)) (hs_hints hs)"
  have "om_wf ?m"
    using assms by (rule om_wf_map_snd)
  then have "map_of (filter (\<lambda>p. snd p \<noteq> []) ?m) t =
      (case map_of ?m t of None \<Rightarrow> None | Some l \<Rightarrow> if l \<noteq> [] then Some l else None)"
    using map_of_filter [of ?m "\<lambda>p. snd p \<noteq> []" t] by (auto split: option.splits)
  moreover have "map_of ?m t = map_option (filter (\<lambda>h. \<not> now - h_created_at h > hs_ttl hs)) (map_of (hs_hints hs) t)"
    by (rule map_of_map_snd)
  ultimately show ?thesis
    by (simp add: HintStore_expireOld_def hints_for_def not_less split: option.split)
qed

lemma expireOld_wf [wf_intros]: "hints_wf hs \<Longrightarrow> hints_wf (HintStore_expireOld now hs)"
proof -
  assume wf: "hints_wf hs"
  have "om_wf (hs_hints (HintStore_expireOld now hs))"
    using wf by (simp add: HintStore_expireOld_def hints_wf_def)
  moreover have "hs_max_per_target (HintStore_expireOld now hs) = hs_max_per_target hs"
    by (simp add: HintStore_expireOld_def)
  ultimately show ?thesis
    using wf unfolding hints_wf_for
    by (auto simp: expireOld_for intro: le_trans [OF length_filter_le])
qed

section \<open>Delivery\<close>

lemma deliver_hints_spec:
  assumes "hints_wf (ht_store ht)"
    and "length (hints_for (ht_store ht) (node_id target)) + length hs \<le> hs_max_per_target (ht_store ht)"
    and "deliver_hints now deliver target hs ht e = (ht', e')"
  shows "hints_wf (ht_store ht') \<and>
    hints_for (ht_store ht') (node_id target) =
      hints_for (ht_store ht) (node_id target) @
      map (\<lambda>h. h\<lparr>h_target := node_id target, h_created_at := now\<rparr>) (refused deliver target hs e) \<and>
    (\<forall>t. t \<noteq> node_id target \<longrightarrow> hints_for (ht_store ht') t = hints_for (ht_store ht) t) \<and>
    ht_delivered ht' + of_nat (length (refused deliver target hs e)) =
      ht_delivered ht + of_nat (length hs) \<and>
    ht_recovery_queue ht' = ht_recovery_queue ht"
  using assms
proof (induction hs arbitrary: ht e)
  case (Cons h hs)
  obtain ok e1 where d: "deliver e target (h_key h) (h_value h) = (ok, e1)"
    by fastforce
  show ?case
  proof (cases ok)
    case True
    then show ?thesis
      using Cons.IH [of "ht\<lparr>ht_delivered := ht_delivered ht + 1\<rparr>" e1] Cons.prems d
      by (simp add: algebra_simps)
  next
    case False
    let ?ht = "ht\<lparr>ht_store := HintStore_store now (ht_store ht) (node_id target) (h_key h) (h_value h)\<rparr>"
    have "h\<lparr>h_target := node_id target, h_created_at := now\<rparr> =
        \<lparr>h_target = node_id target, h_key = h_key h, h_value = h_value h, h_created_at = now\<rparr>"
      by simp
    then show ?thesis
      using Cons.IH [of ?ht e1] Cons.prems d False store_wf [OF Cons.prems(1)]
      by (simp add: algebra_simps)
  qed
qed simp

lemma deliverFor_spec:
  assumes "hints_wf (ht_store ht)" "HandoffThread_deliverFor now deliver target ht e = (ht', e')"
  shows "hints_wf (ht_store ht') \<and>
    hints_for (ht_store ht') (node_id target) =
      map (\<lambda>h. h\<lparr>h_target := node_id target, h_created_at := now\<rparr>)
        (refused deliver target (hints_for (ht_store ht) (node_id target)) e) \<and>
    (\<forall>t. t \<noteq> node_id target \<longrightarrow> hints_for (ht_store ht') t = hints_for (ht_store ht) t) \<and>
    ht_delivered ht' + of_nat (length (refused deliver target (hints_for (ht_store ht) (node_id target)) e)) =
      ht_delivered ht + of_nat (length (hints_for (ht_store ht) (node_id target)))"
proof -
  let ?hs = "hints_for (ht_store ht) (node_id target)"
  let ?st = "snd (HintStore_drain (ht_store ht) (node_id target))"
  have run: "deliver_hints now deliver target ?hs (ht\<lparr>ht_store := ?st\<rparr>) e = (ht', e')"
    using assms(2) unfolding HandoffThread_deliverFor_def
    by (subst (asm) drain_eq(1)) simp
  have "length ?hs \<le> hs_max_per_target (ht_store ht)"
    using assms(1) unfolding hints_wf_for by blast
  then show ?thesis
    using deliver_hints_spec [OF _ _ run] drain_wf [OF assms(1), of "node_id target"]
    by (simp add: drain_eq(2,3))
qed

section \<open>Properties\<close>

definition ex_hint_value :: VersionedValue where
  "ex_hint_value = \<lparr>data = ''v'', clock = [(''n1'', \<lparr>counter = 1, updated_ms = 5\<rparr>)], deleted = False\<rparr>"

definition ex_hints :: HintStore where
  "ex_hints = HintStore_store 2 (HintStore_store 1 (HintStore_new 10 100) ''n3'' ''k1'' ex_hint_value)
     ''n3'' ''k2'' ex_hint_value"

definition ex_deliver :: "unit deliver_fn" where
  "ex_deliver e target key v = (key = ''k1'', e)"

definition ex_n3 :: NodeInfo where
  "ex_n3 = mkNodeInfo ''n3'' ''h3'' 3"

definition ex_handoff :: HandoffThread where
  "ex_handoff = \<lparr>ht_store = ex_hints, ht_recovery_queue = [], ht_delivered = 0\<rparr>"

lemma ex_hints_wf: "hints_wf (ht_store ex_handoff)"
  unfolding ex_handoff_def ex_hints_def HandoffThread.select_convs
  by (intro wf_intros) (simp add: hints_wf_def HintStore_new_def)

lemma ex_hints_held:
  "hints_for ex_hints ''n3'' =
     [\<lparr>h_target = ''n3'', h_key = ''k1'', h_value = ex_hint_value, h_created_at = 1\<rparr>,
      \<lparr>h_target = ''n3'', h_key = ''k2'', h_value = ex_hint_value, h_created_at = 2\<rparr>]"
  "hs_ttl ex_hints = 10000000000"
  by (simp_all add: ex_hints_def) (simp_all add: hints_for_def HintStore_new_def HintStore_store_def Let_def)

text \<open>A delivery round for a recovered node neither loses nor duplicates a hint.  Every hint
  that was held for it is either handed over and counted or, in the original order, held for
  the next round; the hints of other nodes are untouched and the per-target cap still holds.\<close>

theorem deliverFor_no_loss:
  assumes "hints_wf (ht_store ht)" "HandoffThread_deliverFor now deliver target ht e = (ht', e')"
  shows "hints_wf (ht_store ht') \<and>
    map (\<lambda>h. (h_key h, h_value h)) (hints_for (ht_store ht') (node_id target)) =
      map (\<lambda>h. (h_key h, h_value h))
        (refused deliver target (hints_for (ht_store ht) (node_id target)) e) \<and>
    (\<forall>t. t \<noteq> node_id target \<longrightarrow> hints_for (ht_store ht') t = hints_for (ht_store ht) t) \<and>
    ht_delivered ht' =
      ht_delivered ht + of_nat (length (hints_for (ht_store ht) (node_id target)) -
        length (refused deliver target (hints_for (ht_store ht) (node_id target)) e))"
proof -
  let ?hs = "hints_for (ht_store ht) (node_id target)"
  have le: "length (refused deliver target hs e) \<le> length hs" for hs e
    by (induction hs arbitrary: e) (auto split: prod.split simp: le_SucI)
  then have "(of_nat (length ?hs - length (refused deliver target ?hs e)) :: u64) =
      of_nat (length ?hs) - of_nat (length (refused deliver target ?hs e))"
    by (simp add: of_nat_diff)
  moreover have "ht_delivered ht' =
      ht_delivered ht + (of_nat (length ?hs) - of_nat (length (refused deliver target ?hs e)))"
    using deliverFor_spec [OF assms] by (simp only: add_diff_eq eq_diff_eq)
  ultimately show ?thesis
    using deliverFor_spec [OF assms] by (simp add: comp_def)
qed

theorem deliverFor_no_loss_witness:
  "\<exists>ht' e'. HandoffThread_deliverFor 9 ex_deliver ex_n3 ex_handoff () = (ht', e') \<and>
     map (\<lambda>h. (h_key h, h_value h)) (hints_for (ht_store ht') ''n3'') = [(''k2'', ex_hint_value)] \<and>
     ht_delivered ht' = 1"
proof -
  obtain ht' e' where eq: "HandoffThread_deliverFor 9 ex_deliver ex_n3 ex_handoff () = (ht', e')"
    by (rule prod.exhaust)
  have held: "hints_for (ht_store ex_handoff) ''n3'' = hints_for ex_hints ''n3''"
    by (simp add: ex_handoff_def)
  show ?thesis
    using deliverFor_no_loss [OF ex_hints_wf eq] eq
    by (simp add: held ex_hints_held ex_n3_def mkNodeInfo_def ex_deliver_def) (simp add: ex_handoff_def)
qed

text \<open>The hint store keeps its cap.  A store is dropped exactly when the target already holds
  the maximum; otherwise the hint is appended.  Expiry removes exactly the hints older than the
  time to live, per target and in order.\<close>

theorem hint_store_cap_and_expiry:
  assumes "hints_wf hs"
  shows "hints_wf (HintStore_store now hs t k v) \<and> hints_wf (HintStore_expireOld now hs) \<and>
    hints_for (HintStore_store now hs t k v) t =
      (if length (hints_for hs t) < hs_max_per_target hs
       then hints_for hs t @ [\<lparr>h_target = t, h_key = k, h_value = v, h_created_at = now\<rparr>]
       else hints_for hs t) \<and>
    hints_for (HintStore_expireOld now hs) t =
      filter (\<lambda>h. now - h_created_at h \<le> hs_ttl hs) (hints_for hs t)"
  using store_wf [OF assms, of now t k v] expireOld_wf [OF assms, of now] expireOld_for [of hs now t] assms
  by (simp add: hints_wf_def)

theorem hint_store_cap_and_expiry_witness:
  "hints_for (HintStore_expireOld 10000000002 ex_hints) ''n3'' =
     [\<lparr>h_target = ''n3'', h_key = ''k2'', h_value = ex_hint_value, h_created_at = 2\<rparr>]"
proof -
  have "hints_wf ex_hints"
    using ex_hints_wf by (simp add: ex_handoff_def)
  from hint_store_cap_and_expiry [OF this, of 10000000002 "''n3''"] show ?thesis
    by (simp add: ex_hints_held)
qed

end
