(* ===== verification/Metrics.thy ===== *)
theory Metrics
  imports Prelude
begin

text \<open>
  metrics.h: the operation label and the default metrics backend, a set of 64-bit counters
  updated by atomic increments that wrap.  Latencies are dropped by this backend.
\<close>

datatype Op = Put | Get | Delete

fun opLabel :: "Op \<Rightarrow> string" where
  "opLabel Op.Put = ''put''"
| "opLabel Op.Get = ''get''"
| "opLabel Op.Delete = ''delete''"

record InMemoryMetrics =
  requests :: u64
  quorum_ok :: u64
  quorum_fail :: u64
  read_repair :: u64
  hints_stored :: u64
  hints_delivered :: u64
  ae_syncs :: u64
  ae_keys_repaired :: u64
  membership_syncs :: u64
  ring_nodes :: u64
  pool_created :: u64
  pool_reused :: u64

definition InMemoryMetrics_new :: InMemoryMetrics where
  "InMemoryMetrics_new =
     \<lparr>requests = 0, quorum_ok = 0, quorum_fail = 0, read_repair = 0, hints_stored = 0,
      hints_delivered = 0, ae_syncs = 0, ae_keys_repaired = 0, membership_syncs = 0,
      ring_nodes = 0, pool_created = 0, pool_reused = 0\<rparr>"

definition InMemoryMetrics_incRequest :: "Op \<Rightarrow> InMemoryMetrics \<Rightarrow> InMemoryMetrics" where
  "InMemoryMetrics_incRequest op m = m\<lparr>requests := requests m + 1\<rparr>"

definition InMemoryMetrics_incQuorumSuccess :: "Op \<Rightarrow> InMemoryMetrics \<Rightarrow> InMemoryMetrics" where
  "InMemoryMetrics_incQuorumSuccess op m = m\<lparr>quorum_ok := quorum_ok m + 1\<rparr>"

definition InMemoryMetrics_incQuorumFailure :: "Op \<Rightarrow> InMemoryMetrics \<Rightarrow> InMemoryMetrics" where
  "InMemoryMetrics_incQuorumFailure op m = m\<lparr>quorum_fail := quorum_fail m + 1\<rparr>"

definition InMemoryMetrics_incReadRepair :: "InMemoryMetrics \<Rightarrow> InMemoryMetrics" where
  "InMemoryMetrics_incReadRepair m = m\<lparr>read_repair := read_repair m + 1\<rparr>"

definition InMemoryMetrics_incHintStored :: "InMemoryMetrics \<Rightarrow> InMemoryMetrics" where
  "InMemoryMetrics_incHintStored m = m\<lparr>hints_stored := hints_stored m + 1\<rparr>"

definition InMemoryMetrics_incHintDelivered :: "InMemoryMetrics \<Rightarrow> InMemoryMetrics" where
  "InMemoryMetrics_incHintDelivered m = m\<lparr>hints_delivered := hints_delivered m + 1\<rparr>"

definition InMemoryMetrics_incAntiEntropySync :: "InMemoryMetrics \<Rightarrow> InMemoryMetrics" where
  "InMemoryMetrics_incAntiEntropySync m = m\<lparr>ae_syncs := ae_syncs m + 1\<rparr>"

definition InMemoryMetrics_incAntiEntropyKeysRepaired :: "InMemoryMetrics \<Rightarrow> InMemoryMetrics" where
  "InMemoryMetrics_incAntiEntropyKeysRepaired m = m\<lparr>ae_keys_repaired := ae_keys_repaired m + 1\<rparr>"

definition InMemoryMetrics_incMembershipSync :: "InMemoryMetrics \<Rightarrow> InMemoryMetrics" where
  "InMemoryMetrics_incMembershipSync m = m\<lparr>membership_syncs := membership_syncs m + 1\<rparr>"

definition InMemoryMetrics_setRingNodes :: "u64 \<Rightarrow> InMemoryMetrics \<Rightarrow> InMemoryMetrics" where
  "InMemoryMetrics_setRingNodes n m = m\<lparr>ring_nodes := n\<rparr>"

definition InMemoryMetrics_incPoolConnectionCreated :: "InMemoryMetrics \<Rightarrow> InMemoryMetrics" where
  "InMemoryMetrics_incPoolConnectionCreated m = m\<lparr>pool_created := pool_created m + 1\<rparr>"

definition InMemoryMetrics_incPoolConnectionReused :: "InMemoryMetrics \<Rightarrow> InMemoryMetrics" where
  "InMemoryMetrics_incPoolConnectionReused m = m\<lparr>pool_reused := pool_reused m + 1\<rparr>"

end
