(* ===== verification/Coordinator.thy ===== *)
theory Coordinator
  imports Storage Router Hints Metrics
begin

text \<open>
  coordinator.h and coordinator.cpp: quorum writes, quorum reads, reconciliation and read
  repair.  The coordinator reaches its peers only through a \<open>ReplicaClient\<close> (replica\_client.h),
  a record of functions over an environment \<open>'e\<close>.

  A fan-out starts one thread per remote replica.  \<open>fo_order\<close> is the order in which their calls
  take effect - a permutation of the remotes - and \<open>fo_seen\<close> lists the calls whose results had
  been recorded, in that order, when the waiting thread was woken by the quorum condition or the
  deadline; the other calls still happen.  Results are stated for every order and every snapshot,
  and Fan\_Out shows that these are the outcomes of the threads.
  \<open>findOwners\<close> may not return; then neither does the operation, and its result is \<^const>\<open>None\<close>.
\<close>

record ReplicaReadResult =
  rr_ok :: bool
  rr_found :: bool
  rr_value :: VersionedValue

record 'e ReplicaClient =
  rc_write :: "'e \<Rightarrow> NodeInfo \<Rightarrow> string \<Rightarrow> VersionedValue \<Rightarrow> bool \<times> 'e"
  rc_read :: "'e \<Rightarrow> NodeInfo \<Rightarrow> string \<Rightarrow> ReplicaReadResult \<times> 'e"

record QuorumConfig =
  qc_N :: int
  qc_W :: int
  qc_R :: int
  max_clock_entries :: nat

record PutResult =
  pr_ok :: bool
  pr_clock :: VectorClock
  pr_error :: string

datatype GetStatus = OK | SIBLINGS | NOTFOUND | ERROR

record GetResult =
  gr_status :: GetStatus
  gr_values :: "VersionedValue list"
  gr_error :: string

record 's Coordinator =
  c_self :: NodeInfo
  c_router :: Router
  c_engine :: "'s StorageEngine"
  c_storage :: 's
  c_metrics :: InMemoryMetrics
  c_defaults :: QuorumConfig
  c_hint_store :: "HintStore option"
  c_is_alive :: "(string \<Rightarrow> bool) option"

record fanout =
  fo_order :: "NodeInfo list \<Rightarrow> NodeInfo list"
  fo_seen :: "nat list"

text \<open>The results that the coordinator has seen, in the order in which they were recorded.\<close>

definition snapshot :: "fanout \<Rightarrow> 'a list \<Rightarrow> 'a list" where
  "snapshot fo xs = map ((!) xs) (filter (\<lambda>j. j < length xs) (remdups (fo_seen fo)))"

section \<open>Clocks\<close>

definition Coordinator_localClock :: "'s Coordinator \<Rightarrow> string \<Rightarrow> VectorClock" where
  "Coordinator_localClock c key =
     (case se_get (c_engine c) (c_storage c) key of
        None \<Rightarrow> []
      | Some stored \<Rightarrow> clock (VersionedValue_deserialize stored))"

definition Coordinator_bumpedClock :: "u64 \<Rightarrow> 's Coordinator \<Rightarrow> string \<Rightarrow> VectorClock \<Rightarrow> VectorClock" where
  "Coordinator_bumpedClock now_ms c key context =
     (let me = node_id (c_self c);
          base = max (VectorClock_get context me) (VectorClock_get (Coordinator_localClock c key) me)
      in VectorClock_prune (VectorClock_set_now now_ms context me (base + 1))
           (max_clock_entries (c_defaults c)))"

section \<open>Quorum write\<close>

definition is_dead :: "'s Coordinator \<Rightarrow> string \<Rightarrow> bool" where
  "is_dead c i = (case c_is_alive c of None \<Rightarrow> False | Some alive \<Rightarrow> \<not> alive i)"

text \<open>The first candidate that is neither this node nor an owner and is alive.\<close>

definition standin :: "'s Coordinator \<Rightarrow> NodeInfo list \<Rightarrow> NodeInfo \<Rightarrow> NodeInfo option" where
  "standin c owners owner =
     find (\<lambda>candidate.
         node_id candidate \<noteq> node_id (c_self c) \<and> node_id candidate \<noteq> node_id owner \<and>
         node_id candidate \<notin> node_id ` set owners \<and> \<not> is_dead c (node_id candidate))
       (Router_getAllPhysicalNodes (c_router c))"

definition write_owner ::
    "int \<Rightarrow> string \<Rightarrow> VersionedValue \<Rightarrow> NodeInfo list \<Rightarrow> NodeInfo
       \<Rightarrow> 's Coordinator \<times> int \<times> NodeInfo list \<Rightarrow> 's Coordinator \<times> int \<times> NodeInfo list" where
  "write_owner now key vv owners owner st =
     (case st of (c, localAcks, remotes) \<Rightarrow>
        if node_id owner = node_id (c_self c) then
          (c\<lparr>c_storage := se_put (c_engine c) (c_storage c) key (VersionedValue_serialize vv)\<rparr>,
           localAcks + 1, remotes)
        else if is_dead c (node_id owner) then
          let remotes = (case standin c owners owner of None \<Rightarrow> remotes | Some n \<Rightarrow> remotes @ [n]);
              c = (case c_hint_store c of
                     None \<Rightarrow> c
                   | Some hs \<Rightarrow>
                       c\<lparr>c_hint_store := Some (HintStore_store now hs (node_id owner) key vv),
                         c_metrics := InMemoryMetrics_incHintStored (c_metrics c)\<rparr>)
          in (c, localAcks, remotes)
        else (c, localAcks, remotes @ [owner]))"

definition write_plan ::
    "int \<Rightarrow> string \<Rightarrow> VersionedValue \<Rightarrow> NodeInfo list \<Rightarrow> 's Coordinator
       \<Rightarrow> 's Coordinator \<times> int \<times> NodeInfo list" where
  "write_plan now key vv owners c = fold (write_owner now key vv owners) owners (c, 0, [])"

fun send_writes ::
    "'e ReplicaClient \<Rightarrow> string \<Rightarrow> VersionedValue \<Rightarrow> NodeInfo list \<Rightarrow> 'e \<Rightarrow> bool list \<times> 'e" where
  "send_writes rc key vv [] e = ([], e)"
| "send_writes rc key vv (p # ps) e =
     (case rc_write rc e p key vv of (ok, e) \<Rightarrow>
      case send_writes rc key vv ps e of (oks, e) \<Rightarrow> (ok # oks, e))"

definition Coordinator_writeQuorum ::
    "'e ReplicaClient \<Rightarrow> fanout \<Rightarrow> int \<Rightarrow> string \<Rightarrow> VersionedValue \<Rightarrow> int \<Rightarrow> int \<Rightarrow> Op
       \<Rightarrow> 's Coordinator \<Rightarrow> 'e \<Rightarrow> (PutResult \<times> 's Coordinator \<times> 'e) option" where
  "Coordinator_writeQuorum rc fo now key vv N W op c e =
     (case Router_findOwners (c_router c) key N of
        None \<Rightarrow> None
      | Some owners \<Rightarrow>
          if owners = [] then
            Some (\<lparr>pr_ok = False, pr_clock = [], pr_error = ''no_nodes_in_ring''\<rparr>,
                  c\<lparr>c_metrics := InMemoryMetrics_incQuorumFailure op (c_metrics c)\<rparr>, e)
          else case write_plan now key vv owners c of (c, localAcks, remotes) \<Rightarrow>
            case send_writes rc key vv (fo_order fo remotes) e of (oks, e) \<Rightarrow>
              let finalAcks = localAcks + int (length (filter id (snapshot fo oks)))
              in if finalAcks \<ge> W then
                   Some (\<lparr>pr_ok = True, pr_clock = clock vv, pr_error = []\<rparr>,
                         c\<lparr>c_metrics := InMemoryMetrics_incQuorumSuccess op (c_metrics c)\<rparr>, e)
                 else
                   Some (\<lparr>pr_ok = False, pr_clock = [], pr_error = ''quorum_not_met''\<rparr>,
                         c\<lparr>c_metrics := InMemoryMetrics_incQuorumFailure op (c_metrics c)\<rparr>, e))"

definition Coordinator_coordinatePut ::
    "'e ReplicaClient \<Rightarrow> fanout \<Rightarrow> int \<Rightarrow> u64 \<Rightarrow> string \<Rightarrow> string \<Rightarrow> VectorClock \<Rightarrow> int \<Rightarrow> int
       \<Rightarrow> 's Coordinator \<Rightarrow> 'e \<Rightarrow> (PutResult \<times> 's Coordinator \<times> 'e) option" where
  "Coordinator_coordinatePut rc fo now now_ms key value context N W c e =
     Coordinator_writeQuorum rc fo now key
       \<lparr>data = value, clock = Coordinator_bumpedClock now_ms c key context, deleted = False\<rparr> N W Op.Put c e"

definition Coordinator_coordinateDelete ::
    "'e ReplicaClient \<Rightarrow> fanout \<Rightarrow> int \<Rightarrow> u64 \<Rightarrow> string \<Rightarrow> VectorClock \<Rightarrow> int \<Rightarrow> int
       \<Rightarrow> 's Coordinator \<Rightarrow> 'e \<Rightarrow> (PutResult \<times> 's Coordinator \<times> 'e) option" where
  "Coordinator_coordinateDelete rc fo now now_ms key context N W c e =
     Coordinator_writeQuorum rc fo now key
       \<lparr>data = [], clock = Coordinator_bumpedClock now_ms c key context, deleted = True\<rparr> N W Op.Delete c e"

section \<open>Quorum read\<close>

record Resp =
  r_peer :: NodeInfo
  r_found :: bool
  r_vv :: VersionedValue

text \<open>The default-constructed \<open>VersionedValue\<close> of a response without a value.\<close>

definition no_value :: VersionedValue where
  "no_value = \<lparr>data = [], clock = [], deleted = False\<rparr>"

definition add_maximal :: "VersionedValue list \<Rightarrow> VersionedValue \<Rightarrow> VersionedValue list \<Rightarrow> VersionedValue list" where
  "add_maximal found cand maximal =
     (if list_ex (\<lambda>other. VectorClock_compare (clock other) (clock cand) = A_DOMINATES) found then maximal
      else if list_ex (\<lambda>m. VectorClock_compare (clock m) (clock cand) = EQUAL) maximal then maximal
      else maximal @ [cand])"

definition maximalVersions :: "Resp list \<Rightarrow> VersionedValue list" where
  "maximalVersions responses =
     (let found = map r_vv (filter r_found responses) in fold (add_maximal found) found [])"

text \<open>Local responses and the remotes to ask.\<close>

definition read_owner ::
    "'s Coordinator \<Rightarrow> string \<Rightarrow> NodeInfo \<Rightarrow> Resp list \<times> NodeInfo list \<Rightarrow> Resp list \<times> NodeInfo list" where
  "read_owner c key owner st =
     (case st of (responses, remotes) \<Rightarrow>
        if node_id owner = node_id (c_self c) then
          (responses @ [case se_get (c_engine c) (c_storage c) key of
              None \<Rightarrow> \<lparr>r_peer = owner, r_found = False, r_vv = no_value\<rparr>
            | Some stored \<Rightarrow>
                \<lparr>r_peer = owner, r_found = True, r_vv = VersionedValue_deserialize stored\<rparr>],
           remotes)
        else if is_dead c (node_id owner) then (responses, remotes)
        else (responses, remotes @ [owner]))"

definition read_plan :: "'s Coordinator \<Rightarrow> string \<Rightarrow> NodeInfo list \<Rightarrow> Resp list \<times> NodeInfo list" where
  "read_plan c key owners = fold (read_owner c key) owners ([], [])"

text \<open>The reads in order of completion: \<^const>\<open>None\<close> for a replica that failed to answer.\<close>

fun send_reads ::
    "'e ReplicaClient \<Rightarrow> string \<Rightarrow> NodeInfo list \<Rightarrow> 'e \<Rightarrow> Resp option list \<times> 'e" where
  "send_reads rc key [] e = ([], e)"
| "send_reads rc key (p # ps) e =
     (case rc_read rc e p key of (rr, e) \<Rightarrow>
      case send_reads rc key ps e of (rs, e) \<Rightarrow>
        ((if rr_ok rr then Some \<lparr>r_peer = p, r_found = rr_found rr, r_vv = rr_value rr\<rparr> else None) # rs, e))"

definition Coordinator_repairAsync ::
    "'e ReplicaClient \<Rightarrow> NodeInfo \<Rightarrow> string \<Rightarrow> VersionedValue \<Rightarrow> 's Coordinator \<Rightarrow> 'e \<Rightarrow> 's Coordinator \<times> 'e" where
  "Coordinator_repairAsync rc peer key value c e =
     (let c = c\<lparr>c_metrics := InMemoryMetrics_incReadRepair (c_metrics c)\<rparr>
      in if node_id peer = node_id (c_self c) then
           (c\<lparr>c_storage := se_put (c_engine c) (c_storage c) key (VersionedValue_serialize value)\<rparr>, e)
         else (c, snd (rc_write rc e peer key value)))"

definition is_stale :: "VersionedValue \<Rightarrow> Resp \<Rightarrow> bool" where
  "is_stale dominant r \<longleftrightarrow>
     \<not> r_found r \<or> VectorClock_compare (clock dominant) (clock (r_vv r)) = A_DOMINATES"

definition repair_all ::
    "'e ReplicaClient \<Rightarrow> string \<Rightarrow> VersionedValue \<Rightarrow> Resp list \<Rightarrow> 's Coordinator \<Rightarrow> 'e \<Rightarrow> 's Coordinator \<times> 'e" where
  "repair_all rc key dominant responses c e =
     fold (\<lambda>r (c, e). if is_stale dominant r then Coordinator_repairAsync rc (r_peer r) key dominant c e
                      else (c, e)) responses (c, e)"

definition Coordinator_coordinateGet ::
    "'e ReplicaClient \<Rightarrow> fanout \<Rightarrow> string \<Rightarrow> int \<Rightarrow> int \<Rightarrow> 's Coordinator \<Rightarrow> 'e
       \<Rightarrow> (GetResult \<times> 's Coordinator \<times> 'e) option" where
  "Coordinator_coordinateGet rc fo key N R c e =
     (case Router_findOwners (c_router c) key N of
        None \<Rightarrow> None
      | Some owners \<Rightarrow>
          if owners = [] then
            Some (\<lparr>gr_status = ERROR, gr_values = [], gr_error = ''no_nodes_in_ring''\<rparr>,
                  c\<lparr>c_metrics := InMemoryMetrics_incQuorumFailure Op.Get (c_metrics c)\<rparr>, e)
          else case read_plan c key owners of (localResps, remotes) \<Rightarrow>
            case send_reads rc key (fo_order fo remotes) e of (rs, e) \<Rightarrow>
              let responses = localResps @ List.map_filter id (snapshot fo rs)
              in if int (length responses) < R then
                   Some (\<lparr>gr_status = ERROR, gr_values = [], gr_error = ''quorum_not_met''\<rparr>,
                         c\<lparr>c_metrics := InMemoryMetrics_incQuorumFailure Op.Get (c_metrics c)\<rparr>, e)
                 else
                   let c = c\<lparr>c_metrics := InMemoryMetrics_incQuorumSuccess Op.Get (c_metrics c)\<rparr>;
                       maximal = maximalVersions responses
                   in if maximal = [] then
                        Some (\<lparr>gr_status = NOTFOUND, gr_values = [], gr_error = []\<rparr>, c, e)
                      else if length maximal > 1 then
                        Some (\<lparr>gr_status = SIBLINGS, gr_values = maximal, gr_error = []\<rparr>, c, e)
                      else case repair_all rc key (hd maximal) responses c e of (c, e) \<Rightarrow>
                        if deleted (hd maximal)
                        then Some (\<lparr>gr_status = NOTFOUND, gr_values = [], gr_error = []\<rparr>, c, e)
                        else Some (\<lparr>gr_status = OK, gr_values = [hd maximal], gr_error = []\<rparr>, c, e))"

section \<open>The clock of a new version\<close>

lemma localClock_wf [simp]: "vc_wf (Coordinator_localClock c key)"
  by (simp add: Coordinator_localClock_def split: option.split)

lemma bumpedClock_wf [wf_intros]: "vc_wf context \<Longrightarrow> vc_wf (Coordinator_bumpedClock now_ms c key context)"
  by (simp add: Coordinator_bumpedClock_def Let_def VectorClock_set_now_def)

lemma bumpedClock_clean [wf_intros]:
  assumes "vc_clean context" "isValidNodeId (node_id (c_self c))"
  shows "vc_clean (Coordinator_bumpedClock now_ms c key context)"
proof -
  have "om_keys (VectorClock_prune x m) \<subseteq> om_keys x" for x m
    using set_prune [of x m] by (auto simp: om_keys_def)
  moreover have "vc_clean (VectorClock_set context (node_id (c_self c)) k t)" for k t
    using assms isValidNodeId_clean isValidNodeId_nonempty by (intro vc_clean_set) auto
  ultimately show ?thesis
    unfolding Coordinator_bumpedClock_def Let_def VectorClock_set_now_def by (blast intro: vc_clean_subset)
qed

section \<open>Reconciliation\<close>

abbreviation clocks_wf :: "VersionedValue list \<Rightarrow> bool" where
  "clocks_wf vs \<equiv> (\<forall>v \<in> set vs. vc_wf (clock v))"

text \<open>Some element of a finite set of clocked versions that descends from \<open>f\<close> is not dominated.\<close>

lemma undominated_above:
  assumes "clocks_wf vs" "f \<in> set vs"
  shows "\<exists>m \<in> set vs. vc.descends (clock m) (clock f) \<and>
    (\<forall>v \<in> set vs. VectorClock_compare (clock v) (clock m) \<noteq> A_DOMINATES)"
proof -
  let ?above = "\<lambda>m. {v \<in> set vs. VectorClock_compare (clock v) (clock m) = A_DOMINATES}"
  have "\<exists>m \<in> set vs. vc.descends (clock m) (clock f) \<and> ?above m = {}"
    using assms(2)
  proof (induction "card (?above f)" arbitrary: f rule: less_induct)
    case less
    show ?case
    proof (cases "?above f = {}")
      case True
      then show ?thesis using less.prems vc.descends_refl by blast
    next
      case False
      then obtain g where g: "g \<in> set vs" "VectorClock_compare (clock g) (clock f) = A_DOMINATES"
        by blast
      have sub: "?above g \<subset> ?above f"
      proof
        show "?above g \<subseteq> ?above f"
          using vc.dominates_trans assms(1) g less.prems by blast
        have "g \<in> ?above f" "g \<notin> ?above g"
          using g assms(1) vc.dominates_irrefl by blast+
        then show "?above g \<noteq> ?above f" by blast
      qed
      have "card (?above g) < card (?above f)"
        by (rule psubset_card_mono [OF _ sub]) simp
      from less.hyps [OF this g(1)] obtain m where
        m: "m \<in> set vs" "vc.descends (clock m) (clock g)" "?above m = {}"
        by blast
      have "vc.descends (clock g) (clock f)"
        using g assms(1) less.prems vc.dominates_iff by blast
      then show ?thesis using m vc.descends_trans by blast
    qed
  qed
  then show ?thesis by blast
qed

lemma fold_add_maximal:
  assumes "clocks_wf found" "set vs \<subseteq> set found"
    and "set acc \<subseteq> set found" "\<forall>m \<in> set acc. \<forall>v \<in> set found. VectorClock_compare (clock v) (clock m) \<noteq> A_DOMINATES"
    and "sorted_wrt (\<lambda>a b. VectorClock_compare (clock a) (clock b) \<noteq> EQUAL) acc"
    and "out = fold (add_maximal found) vs acc"
  shows "set acc \<subseteq> set out \<and> set out \<subseteq> set acc \<union> set vs \<and>
    (\<forall>m \<in> set out. \<forall>v \<in> set found. VectorClock_compare (clock v) (clock m) \<noteq> A_DOMINATES) \<and>
    sorted_wrt (\<lambda>a b. VectorClock_compare (clock a) (clock b) \<noteq> EQUAL) out \<and>
    (\<forall>v \<in> set vs. (\<forall>w \<in> set found. VectorClock_compare (clock w) (clock v) \<noteq> A_DOMINATES) \<longrightarrow>
       (\<exists>m \<in> set out. VectorClock_compare (clock m) (clock v) = EQUAL))"
  using assms(2-6)
proof (induction vs arbitrary: acc)
  case (Cons v vs)
  let ?acc = "add_maximal found v acc"
  have acc: "set acc \<subseteq> set ?acc" "set ?acc \<subseteq> insert v (set acc)"
    by (auto simp: add_maximal_def)
  have 1: "\<forall>m \<in> set ?acc. \<forall>v \<in> set found. VectorClock_compare (clock v) (clock m) \<noteq> A_DOMINATES"
    using Cons.prems(3) by (auto simp: add_maximal_def list_ex_iff)
  have 2: "sorted_wrt (\<lambda>a b. VectorClock_compare (clock a) (clock b) \<noteq> EQUAL) ?acc"
    using Cons.prems(4) by (auto simp: add_maximal_def list_ex_iff sorted_wrt_append)
  have 3: "\<exists>m \<in> set ?acc. VectorClock_compare (clock m) (clock v) = EQUAL"
    if "\<forall>w \<in> set found. VectorClock_compare (clock w) (clock v) \<noteq> A_DOMINATES"
  proof -
    have "vc_wf (clock v)" using assms(1) Cons.prems(1) by auto
    then have "VectorClock_compare (clock v) (clock v) = EQUAL" by (simp add: vc.equal_iff)
    then show ?thesis using that by (auto simp: add_maximal_def list_ex_iff)
  qed
  have "set vs \<subseteq> set found" "set ?acc \<subseteq> set found"
    using Cons.prems(1,2) acc by auto
  from Cons.IH [OF this 1 2] Cons.prems(5)
  show ?case
    using acc 3 by simp blast
qed simp

lemma maximal_facts:
  assumes "clocks_wf (map r_vv (filter r_found rs))"
  shows "set (maximalVersions rs) \<subseteq> set (map r_vv (filter r_found rs))"
    and "\<And>m v. \<lbrakk> m \<in> set (maximalVersions rs); v \<in> set (map r_vv (filter r_found rs)) \<rbrakk>
      \<Longrightarrow> VectorClock_compare (clock v) (clock m) \<noteq> A_DOMINATES"
    and "sorted_wrt (\<lambda>a b. VectorClock_compare (clock a) (clock b) = CONCURRENT) (maximalVersions rs)"
    and "\<And>v. v \<in> set (map r_vv (filter r_found rs))
      \<Longrightarrow> \<exists>m \<in> set (maximalVersions rs). vc.descends (clock m) (clock v)"
proof -
  let ?f = "map r_vv (filter r_found rs)"
  let ?m = "maximalVersions rs"
  have m: "?m = fold (add_maximal ?f) ?f []"
    by (simp add: maximalVersions_def Let_def)
  have facts: "set [] \<subseteq> set ?m \<and> set ?m \<subseteq> set [] \<union> set ?f \<and>
    (\<forall>m \<in> set ?m. \<forall>v \<in> set ?f. VectorClock_compare (clock v) (clock m) \<noteq> A_DOMINATES) \<and>
    sorted_wrt (\<lambda>a b. VectorClock_compare (clock a) (clock b) \<noteq> EQUAL) ?m \<and>
    (\<forall>v \<in> set ?f. (\<forall>w \<in> set ?f. VectorClock_compare (clock w) (clock v) \<noteq> A_DOMINATES) \<longrightarrow>
       (\<exists>m \<in> set ?m. VectorClock_compare (clock m) (clock v) = EQUAL))"
    by (rule fold_add_maximal [OF assms order_refl _ _ _ m]) simp_all
  show sub: "set ?m \<subseteq> set ?f"
    using facts by simp
  show undom: "VectorClock_compare (clock v) (clock m) \<noteq> A_DOMINATES"
    if "m \<in> set ?m" "v \<in> set ?f" for m v
    using facts that by blast
  have neq: "sorted_wrt (\<lambda>a b. VectorClock_compare (clock a) (clock b) \<noteq> EQUAL) ?m"
    using facts by blast
  show "sorted_wrt (\<lambda>a b. VectorClock_compare (clock a) (clock b) = CONCURRENT) ?m"
  proof (rule sorted_wrt_mono_rel [OF _ neq])
    fix a b assume ab: "a \<in> set ?m" "b \<in> set ?m" "VectorClock_compare (clock a) (clock b) \<noteq> EQUAL"
    then have wf: "vc_wf (clock a)" "vc_wf (clock b)"
      using sub assms by blast+
    have "VectorClock_compare (clock a) (clock b) \<noteq> A_DOMINATES"
        "VectorClock_compare (clock b) (clock a) \<noteq> A_DOMINATES"
      using undom ab sub by blast+
    then show "VectorClock_compare (clock a) (clock b) = CONCURRENT"
      using ab(3) wf by (simp add: vc.dominates_iff vc.equal_iff vc.concurrent_iff)
  qed
  show "\<exists>m \<in> set ?m. vc.descends (clock m) (clock v)" if v: "v \<in> set ?f" for v
  proof -
    obtain u where u: "u \<in> set ?f" "vc.descends (clock u) (clock v)"
      "\<forall>w \<in> set ?f. VectorClock_compare (clock w) (clock u) \<noteq> A_DOMINATES"
      using undominated_above [OF assms v] by blast
    then obtain m where mm: "m \<in> set ?m" "VectorClock_compare (clock m) (clock u) = EQUAL"
      using facts by blast
    have "vc_wf (clock m)" "vc_wf (clock u)"
      using sub assms u(1) mm(1) by (blast, blast)
    then have "vc.descends (clock m) (clock u)"
      using mm(2) by (simp add: vc.equal_iff)
    from vc.descends_trans [OF this u(2)] mm(1) show ?thesis by blast
  qed
qed

section \<open>The fan-out plan\<close>

abbreviation is_self :: "'s Coordinator \<Rightarrow> NodeInfo \<Rightarrow> bool" where
  "is_self c owner \<equiv> node_id owner = node_id (c_self c)"

definition remote_of :: "'s Coordinator \<Rightarrow> NodeInfo list \<Rightarrow> NodeInfo \<Rightarrow> NodeInfo list" where
  "remote_of c owners owner =
     (if is_self c owner then []
      else if is_dead c (node_id owner) then (case standin c owners owner of None \<Rightarrow> [] | Some n \<Rightarrow> [n])
      else [owner])"

definition same_setup :: "'s Coordinator \<Rightarrow> 's Coordinator \<Rightarrow> bool" where
  "same_setup c c' \<longleftrightarrow>
     c_self c' = c_self c \<and> c_router c' = c_router c \<and> c_engine c' = c_engine c \<and>
     c_defaults c' = c_defaults c \<and> c_is_alive c' = c_is_alive c"

lemma same_setup_refl [simp]: "same_setup c c"
  by (simp add: same_setup_def)

lemma same_setup_trans: "\<lbrakk> same_setup a b; same_setup b c \<rbrakk> \<Longrightarrow> same_setup a c"
  by (simp add: same_setup_def)

lemma same_setup_update [simp]:
  "same_setup c (c'\<lparr>c_storage := x\<rparr>) = same_setup c c'"
  "same_setup c (c'\<lparr>c_metrics := m\<rparr>) = same_setup c c'"
  "same_setup c (c'\<lparr>c_hint_store := h\<rparr>) = same_setup c c'"
  by (simp_all add: same_setup_def)

lemma same_setup_remote: "same_setup c c' \<Longrightarrow> remote_of c' = remote_of c"
  by (intro ext) (simp add: same_setup_def remote_of_def standin_def is_dead_def)

lemma write_owner_step:
  "write_owner now key vv owners o1 (c, n, rs) = (c', n', rs') \<Longrightarrow>
     same_setup c c' \<and> n' = (if is_self c o1 then n + 1 else n) \<and> rs' = rs @ remote_of c owners o1 \<and>
     c_storage c' = (if is_self c o1 then se_put (c_engine c) (c_storage c) key (VersionedValue_serialize vv)
                     else c_storage c)"
  by (auto simp: write_owner_def remote_of_def Let_def split: if_splits option.splits)

lemma write_plan_fold:
  assumes "fold (write_owner now key vv owners) os (c, n, rs) = (c', n', rs')"
  shows "same_setup c c' \<and> n' = n + int (length (filter (is_self c) os)) \<and>
    rs' = rs @ concat (map (remote_of c owners) os) \<and>
    c_storage c' = ((\<lambda>st. se_put (c_engine c) st key (VersionedValue_serialize vv)) ^^
      length (filter (is_self c) os)) (c_storage c)"
  using assms
proof (induction os arbitrary: c n rs)
  case (Cons o1 os)
  obtain c1 n1 rs1 where w: "write_owner now key vv owners o1 (c, n, rs) = (c1, n1, rs1)"
    by (rule prod_cases3)
  note s1 = write_owner_step [OF w]
  have "fold (write_owner now key vv owners) os (c1, n1, rs1) = (c', n', rs')"
    using Cons.prems w by simp
  note IH = Cons.IH [OF this]
  have eqs: "is_self c1 = is_self c" "c_engine c1 = c_engine c" "remote_of c1 = remote_of c"
    using s1 same_setup_remote by (auto simp: same_setup_def)
  let ?f = "\<lambda>st. se_put (c_engine c) st key (VersionedValue_serialize vv)"
  have swap: "(?f ^^ k) (?f st) = ?f ((?f ^^ k) st)" for k st
    by (rule funpow_swap1 [symmetric])
  have "same_setup c c'"
    using IH s1 same_setup_trans by blast
  then show ?case
    using IH s1 unfolding eqs by (auto simp: swap)
qed simp

lemma write_plan_spec:
  assumes "write_plan now key vv owners c = (c', n, rs)"
  shows "same_setup c c'" "n = int (length (filter (is_self c) owners))"
    "rs = concat (map (remote_of c owners) owners)"
    "c_storage c' = ((\<lambda>st. se_put (c_engine c) st key (VersionedValue_serialize vv)) ^^
      length (filter (is_self c) owners)) (c_storage c)"
  using write_plan_fold [OF assms [unfolded write_plan_def]] by simp_all

lemma remotes_alive:
  assumes "\<forall>o1 \<in> set owners. is_self c o1 \<or> \<not> is_dead c (node_id o1)"
  shows "concat (map (remote_of c os) owners) = filter (\<lambda>o1. \<not> is_self c o1) owners"
  using assms by (induction owners) (auto simp: remote_of_def)

lemma read_plan_spec:
  "read_plan c key owners =
     (map (\<lambda>o1. case se_get (c_engine c) (c_storage c) key of
              None \<Rightarrow> \<lparr>r_peer = o1, r_found = False, r_vv = no_value\<rparr>
            | Some stored \<Rightarrow> \<lparr>r_peer = o1, r_found = True, r_vv = VersionedValue_deserialize stored\<rparr>)
        (filter (is_self c) owners),
      filter (\<lambda>o1. \<not> is_self c o1 \<and> \<not> is_dead c (node_id o1)) owners)"
proof -
  let ?r = "\<lambda>o1. case se_get (c_engine c) (c_storage c) key of
              None \<Rightarrow> \<lparr>r_peer = o1, r_found = False, r_vv = no_value\<rparr>
            | Some stored \<Rightarrow> \<lparr>r_peer = o1, r_found = True, r_vv = VersionedValue_deserialize stored\<rparr>"
  have "fold (read_owner c key) owners (ls, rs) =
      (ls @ map ?r (filter (is_self c) owners),
       rs @ filter (\<lambda>o1. \<not> is_self c o1 \<and> \<not> is_dead c (node_id o1)) owners)" for ls rs
    by (induction owners arbitrary: ls rs) (simp_all add: read_owner_def)
  then show ?thesis by (simp add: read_plan_def)
qed

section \<open>The contract of the replica client\<close>

text \<open>
  \<open>holds e i k\<close> is the version of key \<open>k\<close> that node \<open>i\<close> stores in the environment \<open>e\<close>;
  \<open>okey\<close> says which keys and \<open>carries\<close> which versions the client can transport.  An acknowledged write leaves the
  replica with a version that descends from the one written; an answered read reports the
  clock that the replica holds.
\<close>

locale replica_client =
  fixes rc :: "'e ReplicaClient"
    and holds :: "'e \<Rightarrow> string \<Rightarrow> string \<Rightarrow> VersionedValue option"
    and inv :: "'e \<Rightarrow> bool"
    and okey :: "string \<Rightarrow> bool"
    and carries :: "string \<Rightarrow> VersionedValue \<Rightarrow> bool"
  assumes write_inv: "\<lbrakk> inv e; carries k v; rc_write rc e p k v = (ok, e') \<rbrakk> \<Longrightarrow> inv e'"
    and write_ok: "\<lbrakk> inv e; carries k v; rc_write rc e p k v = (True, e') \<rbrakk>
      \<Longrightarrow> \<exists>w. holds e' (node_id p) k = Some w \<and> vc.descends (clock w) (clock v)"
    and write_keeps: "\<lbrakk> inv e; carries k v; rc_write rc e p k v = (ok, e');
        holds e i k = Some w; vc.descends (clock w) (clock v) \<rbrakk>
      \<Longrightarrow> \<exists>w'. holds e' i k = Some w' \<and> vc.descends (clock w') (clock v)"
    and read_spec: "\<lbrakk> inv e; okey k; rc_read rc e p k = (r, e') \<rbrakk>
      \<Longrightarrow> inv e' \<and> holds e' = holds e \<and>
        (rr_ok r \<longrightarrow> (case holds e (node_id p) k of
            None \<Rightarrow> \<not> rr_found r
          | Some w \<Rightarrow> rr_found r \<and> clock (rr_value r) = clock w))"
    and holds_wf: "\<lbrakk> inv e; holds e i k = Some w \<rbrakk> \<Longrightarrow> vc_wf (clock w)"
begin

lemma send_writes_spec:
  assumes "inv e" "carries k v" "send_writes rc k v ps e = (oks, e')"
  shows "inv e' \<and> length oks = length ps \<and>
    (\<forall>i w. holds e i k = Some w \<and> vc.descends (clock w) (clock v) \<longrightarrow>
       (\<exists>w'. holds e' i k = Some w' \<and> vc.descends (clock w') (clock v))) \<and>
    (\<forall>j < length ps. oks ! j \<longrightarrow>
       (\<exists>w. holds e' (node_id (ps ! j)) k = Some w \<and> vc.descends (clock w) (clock v)))"
  using assms(1,3)
proof (induction ps arbitrary: e oks)
  case (Cons p ps)
  obtain ok e1 where w: "rc_write rc e p k v = (ok, e1)" by fastforce
  obtain oks1 e2 where s: "send_writes rc k v ps e1 = (oks1, e2)" by fastforce
  have eqs: "oks = ok # oks1" "e' = e2"
    using Cons.prems(2) w s by simp_all
  have "inv e1" using write_inv [OF Cons.prems(1) assms(2) w] .
  note IH = Cons.IH [OF this s [folded eqs(2)]]
  have keep: "\<exists>w'. holds e' i k = Some w' \<and> vc.descends (clock w') (clock v)"
    if "holds e i k = Some w" "vc.descends (clock w) (clock v)" for i w
    using write_keeps [OF Cons.prems(1) assms(2) w that] IH by blast
  have first: "\<exists>w. holds e' (node_id p) k = Some w \<and> vc.descends (clock w) (clock v)" if ok
  proof -
    have "rc_write rc e p k v = (True, e1)" using w that by simp
    from write_ok [OF Cons.prems(1) assms(2) this] IH show ?thesis by blast
  qed
  have nth: "\<exists>w. holds e' (node_id ((p # ps) ! j)) k = Some w \<and> vc.descends (clock w) (clock v)"
    if "j < length (p # ps)" "oks ! j" for j
  proof (cases j)
    case 0
    then show ?thesis using first that eqs by simp
  next
    case (Suc n)
    then show ?thesis using IH that eqs by simp
  qed
  show ?case
    using IH keep nth eqs by auto
qed simp

lemma send_reads_spec:
  assumes "inv e" "okey k" "send_reads rc k ps e = (rs, e')"
  shows "inv e' \<and> holds e' = holds e \<and> length rs = length ps \<and>
    (\<forall>j < length ps. \<forall>r. rs ! j = Some r \<longrightarrow> r_peer r = ps ! j \<and>
       (case holds e (node_id (ps ! j)) k of
          None \<Rightarrow> \<not> r_found r
        | Some w \<Rightarrow> r_found r \<and> clock (r_vv r) = clock w))"
  using assms(1,3)
proof (induction ps arbitrary: e rs)
  case (Cons p ps)
  obtain rr e1 where w: "rc_read rc e p k = (rr, e1)" by fastforce
  obtain rs1 e2 where s: "send_reads rc k ps e1 = (rs1, e2)" by fastforce
  have eqs: "rs = (if rr_ok rr then Some \<lparr>r_peer = p, r_found = rr_found rr, r_vv = rr_value rr\<rparr> else None) # rs1"
      "e' = e2"
    using Cons.prems(2) w s by simp_all
  note first = read_spec [OF Cons.prems(1) assms(2) w]
  then have "inv e1" by blast
  note IH = Cons.IH [OF this s [folded eqs(2)]]
  have nth: "r_peer r = (p # ps) ! j \<and>
       (case holds e (node_id ((p # ps) ! j)) k of
          None \<Rightarrow> \<not> r_found r
        | Some w \<Rightarrow> r_found r \<and> clock (r_vv r) = clock w)"
    if "j < length (p # ps)" "rs ! j = Some r" for j r
  proof (cases j)
    case 0
    then show ?thesis
      using first that eqs by (cases "holds e (node_id p) k") (auto split: if_splits)
  next
    case (Suc n)
    then show ?thesis using IH first that eqs by simp
  qed
  show ?case
    using IH first nth eqs by auto
qed simp

end

section \<open>Quorums\<close>

text \<open>Every spawned call runs exactly once.\<close>

definition fair :: "fanout \<Rightarrow> bool" where
  "fair fo \<longleftrightarrow> (\<forall>rs. mset (fo_order fo rs) = mset rs)"

lemma fair_distinct:
  assumes "fair fo" "distinct (map node_id rs)"
  shows "distinct (map node_id (fo_order fo rs))" "set (fo_order fo rs) = set rs"
proof -
  have m: "mset (fo_order fo rs) = mset rs"
    using assms(1) by (simp add: fair_def)
  then show "set (fo_order fo rs) = set rs"
    by (rule mset_eq_setD)
  have "mset (map node_id (fo_order fo rs)) = mset (map node_id rs)"
    using m by simp
  then show "distinct (map node_id (fo_order fo rs))"
    using assms(2) mset_eq_imp_distinct_iff by blast
qed

lemma card_positions:
  assumes "distinct (map node_id ps)" "length oks = length ps"
  shows "card {node_id (ps ! j) | j. j < length ps \<and> j \<in> set (fo_seen fo) \<and> P (oks ! j)} =
    length (filter P (snapshot fo oks))"
proof -
  let ?J = "filter (\<lambda>j. P (oks ! j)) (filter (\<lambda>j. j < length oks) (remdups (fo_seen fo)))"
  have "{node_id (ps ! j) | j. j < length ps \<and> j \<in> set (fo_seen fo) \<and> P (oks ! j)} =
      (\<lambda>j. node_id (ps ! j)) ` set ?J"
    using assms(2) by auto
  moreover have "inj_on (\<lambda>j. node_id (ps ! j)) (set ?J)"
    using assms by (auto simp: inj_on_def distinct_conv_nth)
  moreover have "card (set ?J) = length ?J"
    by (intro distinct_card) simp
  ultimately show ?thesis
    by (simp add: card_image snapshot_def filter_map comp_def)
qed

lemma set_snapshot: "x \<in> set (snapshot fo xs) \<longleftrightarrow> (\<exists>j \<in> set (fo_seen fo). j < length xs \<and> xs ! j = x)"
  by (auto simp: snapshot_def)

lemma local_count:
  assumes "distinct (map node_id owners)"
  shows "length (filter (is_self c) owners) = (if node_id (c_self c) \<in> node_id ` set owners then 1 else 0)"
  using assms by (induction owners) auto

lemma writeQuorum_returns:
  "Router_findOwners (c_router c) key N = Some owners
     \<Longrightarrow> Coordinator_writeQuorum rc fo now key vv N W op c e \<noteq> None"
  by (simp add: Coordinator_writeQuorum_def Let_def split: prod.split)

lemma writeQuorum_cases:
  assumes "Coordinator_writeQuorum rc fo now key vv N W op c e = Some (pr, c', e')"
    and "Router_findOwners (c_router c) key N = Some owners" "owners \<noteq> []"
    and "write_plan now key vv owners c = (c1, n, rs)"
    and "send_writes rc key vv (fo_order fo rs) e = (oks, e1)"
  shows "e' = e1 \<and> c_storage c' = c_storage c1 \<and> same_setup c1 c' \<and>
    (pr_ok pr \<longleftrightarrow> W \<le> n + int (length (filter id (snapshot fo oks)))) \<and>
    (pr_ok pr \<longrightarrow> pr_clock pr = clock vv)"
  using assms by (auto simp: Coordinator_writeQuorum_def Let_def split: if_splits)

context replica_client
begin

text \<open>An acknowledged write is held by \<open>W\<close> distinct owners when none of them is marked dead.\<close>

lemma write_quorum_holders:
  assumes "inv e" "carries key vv" "fair fo"
    and "Router_findOwners (c_router c) key N = Some owners" "distinct (map node_id owners)"
    and "\<forall>o1 \<in> set owners. is_self c o1 \<or> \<not> is_dead c (node_id o1)"
    and "Coordinator_writeQuorum rc fo now key vv N W op c e = Some (pr, c', e')" "pr_ok pr"
  shows "\<exists>S \<subseteq> node_id ` set owners. W \<le> int (card S) \<and> inv e' \<and>
    (\<forall>i \<in> S. i \<noteq> node_id (c_self c) \<longrightarrow>
       (\<exists>w. holds e' i key = Some w \<and> vc.descends (clock w) (clock vv))) \<and>
    (node_id (c_self c) \<in> S \<longrightarrow>
       c_storage c' = se_put (c_engine c) (c_storage c) key (VersionedValue_serialize vv))"
proof -
  have "owners \<noteq> []"
    using assms(4,7,8) by (auto simp: Coordinator_writeQuorum_def)
  obtain c1 n rs where plan: "write_plan now key vv owners c = (c1, n, rs)"
    by (rule prod_cases3)
  obtain oks e1 where sent: "send_writes rc key vv (fo_order fo rs) e = (oks, e1)"
    by fastforce
  note res = writeQuorum_cases [OF assms(7,4) \<open>owners \<noteq> []\<close> plan sent]
  let ?me = "node_id (c_self c)" and ?ps = "fo_order fo rs"
  have rs: "rs = filter (\<lambda>o1. \<not> is_self c o1) owners"
    using write_plan_spec(3) [OF plan] remotes_alive [OF assms(6)] by simp
  have drs: "distinct (map node_id rs)"
    unfolding rs using assms(5) by (simp add: distinct_map_filter)
  note ps = fair_distinct [OF assms(3) drs]
  note spec = send_writes_spec [OF assms(1,2) sent]
  define A where "A = {node_id (?ps ! j) | j. j < length ?ps \<and> j \<in> set (fo_seen fo) \<and> id (oks ! j)}"
  define L where "L = (if ?me \<in> node_id ` set owners then {?me} else {})"
  have cA: "card A = length (filter id (snapshot fo oks))"
    unfolding A_def using ps(1) spec by (intro card_positions) simp_all
  have A: "A \<subseteq> node_id ` set rs"
    using nth_mem ps(2) by (fastforce simp: A_def)
  then have "?me \<notin> A" "A \<subseteq> node_id ` set owners"
    by (auto simp: rs)
  have "finite A"
    using A finite_subset by blast
  have "card (L \<union> A) = card L + card A"
    using \<open>finite A\<close> \<open>?me \<notin> A\<close> by (auto simp: L_def)
  moreover have "n = int (card L)"
    using write_plan_spec(2) [OF plan] local_count [OF assms(5), of c] by (simp add: L_def)
  ultimately have "W \<le> int (card (L \<union> A))"
    using res assms(8) cA by simp
  moreover have "L \<union> A \<subseteq> node_id ` set owners"
    using \<open>A \<subseteq> node_id ` set owners\<close> by (simp add: L_def)
  moreover have "\<forall>i \<in> L \<union> A. i \<noteq> ?me \<longrightarrow> (\<exists>w. holds e' i key = Some w \<and> vc.descends (clock w) (clock vv))"
    using spec res by (auto simp: L_def A_def)
  moreover have "?me \<in> L \<union> A \<longrightarrow>
      c_storage c' = se_put (c_engine c) (c_storage c) key (VersionedValue_serialize vv)"
    using \<open>?me \<notin> A\<close> write_plan_spec(4) [OF plan] local_count [OF assms(5), of c] res
    by (auto simp: L_def split: if_splits)
  ultimately show ?thesis
    using spec res by blast
qed

end

lemma coordinateGet_cases:
  assumes "Coordinator_coordinateGet rc fo key N R c e = Some (gr, c', e')" "gr_status gr \<noteq> ERROR"
    and "Router_findOwners (c_router c) key N = Some owners"
    and "read_plan c key owners = (ls, remotes)"
    and "send_reads rc key (fo_order fo remotes) e = (rs, e1)"
    and "responses = ls @ List.map_filter id (snapshot fo rs)"
  shows "R \<le> int (length responses) \<and>
    (\<forall>m \<in> set (maximalVersions responses).
       m \<in> set (gr_values gr) \<or> gr_status gr = NOTFOUND \<and> deleted m)"
proof -
  have single: "\<forall>m \<in> set xs. m = hd xs" if "xs \<noteq> []" "\<not> length xs > 1" for xs :: "VersionedValue list"
    using that by (cases xs) auto
  show ?thesis
    using assms single
    by (auto simp: Coordinator_coordinateGet_def Let_def split: if_splits prod.splits)
qed

lemma length_map_filter_id: "length (List.map_filter id xs) = length (filter (\<lambda>x. x \<noteq> None) xs)"
  by (simp add: List.map_filter_def)

lemma set_map_filter_id: "r \<in> set (List.map_filter id xs) \<longleftrightarrow> Some r \<in> set xs"
  by (force simp: List.map_filter_def)

context replica_client
begin

text \<open>What node \<open>i\<close> stores, seen from the coordinator \<open>c\<close> and its environment.\<close>

definition stored_at :: "'s Coordinator \<Rightarrow> 'e \<Rightarrow> string \<Rightarrow> string \<Rightarrow> VersionedValue option" where
  "stored_at c e key i =
     (if i = node_id (c_self c) then readLocal (c_engine c) (c_storage c) key else holds e i key)"

lemma local_responses:
  assumes "read_plan c key owners = (ls, remotes)"
  shows "length ls = length (filter (is_self c) owners)"
    "remotes = filter (\<lambda>o1. \<not> is_self c o1 \<and> \<not> is_dead c (node_id o1)) owners"
    "\<lbrakk> r \<in> set ls; r_found r \<rbrakk> \<Longrightarrow> vc_wf (clock (r_vv r))"
    "\<lbrakk> node_id (c_self c) \<in> node_id ` set owners; readLocal (c_engine c) (c_storage c) key = Some w \<rbrakk>
      \<Longrightarrow> w \<in> set (map r_vv (filter r_found ls))"
  using assms unfolding read_plan_spec
  by (force simp: readLocal_def split: option.splits)+

lemma remote_response:
  assumes "inv e" "okey key" "send_reads rc key ps e = (rs, e1)" "Some r \<in> set (snapshot fo rs)" "r_found r"
  shows "vc_wf (clock (r_vv r))"
proof -
  note spec = send_reads_spec [OF assms(1-3)]
  obtain j where "j < length ps" "rs ! j = Some r"
    using assms(4) spec by (auto simp: set_snapshot)
  then have "case holds e (node_id (ps ! j)) key of None \<Rightarrow> \<not> r_found r
      | Some w \<Rightarrow> r_found r \<and> clock (r_vv r) = clock w"
    using spec by blast
  then show ?thesis
    using assms(5) holds_wf [OF assms(1)] by (auto split: option.splits)
qed

lemma responders:
  assumes "inv e" "fair fo" "distinct (map node_id owners)" "okey key"
    and "read_plan c key owners = (ls, remotes)"
    and "send_reads rc key (fo_order fo remotes) e = (rs, e1)"
    and "responses = ls @ List.map_filter id (snapshot fo rs)"
  shows "\<exists>T \<subseteq> node_id ` set owners. card T = length responses \<and>
    (\<forall>i \<in> T. \<forall>w. stored_at c e key i = Some w \<longrightarrow>
       (\<exists>v \<in> set (map r_vv (filter r_found responses)). clock v = clock w))"
proof -
  let ?me = "node_id (c_self c)" and ?ps = "fo_order fo remotes"
  note ls = local_responses [OF assms(5)]
  have "distinct (map node_id remotes)"
    unfolding ls(2) using assms(3) by (simp add: distinct_map_filter)
  note ps = fair_distinct [OF assms(2) this]
  note spec = send_reads_spec [OF assms(1,4,6)]
  define A where "A = {node_id (?ps ! j) | j. j < length ?ps \<and> j \<in> set (fo_seen fo) \<and> rs ! j \<noteq> None}"
  define L where "L = (if ?me \<in> node_id ` set owners then {?me} else {})"
  have cA: "card A = length (filter (\<lambda>x. x \<noteq> None) (snapshot fo rs))"
    unfolding A_def using ps(1) spec by (intro card_positions) simp_all
  have "A \<subseteq> node_id ` set remotes"
    using nth_mem ps(2) by (fastforce simp: A_def)
  then have A: "?me \<notin> A" "A \<subseteq> node_id ` set owners" "finite A"
    by (auto simp: ls(2) intro: finite_subset)
  then have "card (L \<union> A) = length responses"
    using cA local_count [OF assms(3), of c]
    by (auto simp: L_def assms(7) ls(1) length_map_filter_id)
  moreover have "\<exists>v \<in> set (map r_vv (filter r_found responses)). clock v = clock w"
    if i: "i \<in> L \<union> A" and w: "stored_at c e key i = Some w" for i w
  proof (cases "i = ?me")
    case True
    then have "?me \<in> node_id ` set owners"
      using i A by (auto simp: L_def split: if_splits)
    then show ?thesis
      using ls(4) [of w] w True by (force simp: stored_at_def assms(7))
  next
    case False
    from False i obtain j r where j: "j < length ?ps" "j \<in> set (fo_seen fo)" "rs ! j = Some r" "i = node_id (?ps ! j)"
      by (auto simp: A_def L_def split: if_splits)
    then have r: "r_found r" "clock (r_vv r) = clock w"
      using spec w False by (auto simp: stored_at_def)
    have "Some r \<in> set (snapshot fo rs)"
      using j spec by (auto simp: set_snapshot)
    then show ?thesis
      using r by (force simp: assms(7) set_map_filter_id)
  qed
  moreover have "L \<union> A \<subseteq> node_id ` set owners"
    using A by (simp add: L_def)
  ultimately show ?thesis by blast
qed

text \<open>
  A read whose responders overlap a set \<open>S\<close> of owners that store a descendant of \<open>c0\<close>
  returns a descendant of \<open>c0\<close>, or reports a tombstone that is one.
\<close>

lemma read_quorum_sees:
  assumes "inv e" "fair fo" "okey key"
    and "Router_findOwners (c_router c) key N = Some owners" "distinct (map node_id owners)"
    and "Coordinator_coordinateGet rc fo key N R c e = Some (gr, c', e')" "gr_status gr \<noteq> ERROR"
    and "S \<subseteq> node_id ` set owners" "int (length owners) < int (card S) + R"
    and "\<And>i. i \<in> S \<Longrightarrow> \<exists>w. stored_at c e key i = Some w \<and> vc.descends (clock w) c0"
  shows "\<exists>m. vc.descends (clock m) c0 \<and>
    (m \<in> set (gr_values gr) \<or> gr_status gr = NOTFOUND \<and> deleted m)"
proof -
  obtain ls remotes where plan: "read_plan c key owners = (ls, remotes)" by fastforce
  obtain rs e1 where sent: "send_reads rc key (fo_order fo remotes) e = (rs, e1)" by fastforce
  define responses where "responses = ls @ List.map_filter id (snapshot fo rs)"
  note res = coordinateGet_cases [OF assms(6,7,4) plan sent responses_def]
  let ?found = "map r_vv (filter r_found responses)"
  obtain T where T: "T \<subseteq> node_id ` set owners" "card T = length responses"
    "\<And>i w. \<lbrakk> i \<in> T; stored_at c e key i = Some w \<rbrakk> \<Longrightarrow> \<exists>v \<in> set ?found. clock v = clock w"
    using responders [OF assms(1,2,5,3) plan sent responses_def] by blast
  have "card (node_id ` set owners) < card S + card T"
    using assms(5,9) distinct_card [of "map node_id owners"] res T(2) by simp
  then obtain i where "i \<in> S" "i \<in> T"
    using card_overlap [OF _ assms(8) T(1)] by auto
  then obtain v where v: "v \<in> set ?found" "vc.descends (clock v) c0"
    using assms(10) T(3) by metis
  have "clocks_wf ?found"
    using local_responses(3) [OF plan] remote_response [OF assms(1,3) sent]
    by (auto simp: responses_def set_map_filter_id)
  then obtain m where "m \<in> set (maximalVersions responses)" "vc.descends (clock m) (clock v)"
    using maximal_facts(4) [of responses] v(1) by blast
  then show ?thesis using res v(2) vc.descends_trans by blast
qed

end

section \<open>Hints for dead owners\<close>

lemma write_owner_hints:
  assumes "write_owner now key vv owners o1 (c, n, rs) = (c1, n1, rs1)" "c_hint_store c = Some hs"
  shows "c_hint_store c1 = Some (if \<not> is_self c o1 \<and> is_dead c (node_id o1)
      then HintStore_store now hs (node_id o1) key vv else hs)"
  using assms by (auto simp: write_owner_def Let_def split: if_splits option.splits)

lemma write_plan_hints:
  assumes "fold (write_owner now key vv owners) os (c, n, rs) = (c', n', rs')" "c_hint_store c = Some hs"
    and "distinct (map node_id os)"
  shows "\<exists>hs'. c_hint_store c' = Some hs' \<and> hs_max_per_target hs' = hs_max_per_target hs \<and>
    (\<forall>i. hints_for hs' i =
       (if i \<noteq> node_id (c_self c) \<and> i \<in> node_id ` set os \<and> is_dead c i \<and>
           length (hints_for hs i) < hs_max_per_target hs
        then hints_for hs i @ [\<lparr>h_target = i, h_key = key, h_value = vv, h_created_at = now\<rparr>]
        else hints_for hs i))"
  using assms
proof (induction os arbitrary: c n rs hs)
  case (Cons o1 os)
  obtain c1 n1 rs1 where w: "write_owner now key vv owners o1 (c, n, rs) = (c1, n1, rs1)"
    by (rule prod_cases3)
  define h1 where "h1 = (if \<not> is_self c o1 \<and> is_dead c (node_id o1)
      then HintStore_store now hs (node_id o1) key vv else hs)"
  have h: "c_hint_store c1 = Some h1"
    using write_owner_hints [OF w Cons.prems(2)] by (simp only: h1_def)
  have same: "c_self c1 = c_self c" "is_dead c1 = is_dead c"
    using write_owner_step [OF w] by (auto simp: same_setup_def is_dead_def fun_eq_iff)
  have "fold (write_owner now key vv owners) os (c1, n1, rs1) = (c', n', rs')"
    using Cons.prems(1) w by simp
  from Cons.IH [OF this h] Cons.prems(3) obtain hs' where hs': "c_hint_store c' = Some hs'"
    "hs_max_per_target hs' = hs_max_per_target h1"
    "\<And>i. hints_for hs' i =
       (if i \<noteq> node_id (c_self c) \<and> i \<in> node_id ` set os \<and> is_dead c i \<and>
           length (hints_for h1 i) < hs_max_per_target h1
        then hints_for h1 i @ [\<lparr>h_target = i, h_key = key, h_value = vv, h_created_at = now\<rparr>]
        else hints_for h1 i)"
    unfolding same by auto
  have m: "hs_max_per_target h1 = hs_max_per_target hs"
    by (simp add: h1_def)
  have f: "hints_for h1 i = (if i = node_id o1 \<and> \<not> is_self c o1 \<and> is_dead c i \<and>
        length (hints_for hs i) < hs_max_per_target hs
      then hints_for hs i @ [\<lparr>h_target = i, h_key = key, h_value = vv, h_created_at = now\<rparr>]
      else hints_for hs i)" for i
    by (auto simp: h1_def)
  have notin: "node_id o1 \<notin> node_id ` set os"
    using Cons.prems(3) by auto
  have "hints_for hs' i =
       (if i \<noteq> node_id (c_self c) \<and> i \<in> node_id ` set (o1 # os) \<and> is_dead c i \<and>
           length (hints_for hs i) < hs_max_per_target hs
        then hints_for hs i @ [\<lparr>h_target = i, h_key = key, h_value = vv, h_created_at = now\<rparr>]
        else hints_for hs i)" for i
    using notin unfolding hs'(3) m f by (cases "i = node_id o1") auto
  then show ?case using hs' m by auto
qed simp

section \<open>Properties\<close>

text \<open>C25: reconciliation keeps exactly the causal frontier of the responses.  The versions a read
  keeps are among the ones found, pairwise concurrent, none of them is dominated by a version
  found, and every version found is an ancestor of one that is kept.\<close>

theorem maximalVersions_frontier:
  assumes "\<forall>r \<in> set rs. r_found r \<longrightarrow> vc_wf (clock (r_vv r))"
  shows "set (maximalVersions rs) \<subseteq> r_vv ` {r \<in> set rs. r_found r} \<and>
    sorted_wrt (\<lambda>a b. VectorClock_compare (clock a) (clock b) = CONCURRENT) (maximalVersions rs) \<and>
    (\<forall>r \<in> set rs. r_found r \<longrightarrow>
       (\<forall>m \<in> set (maximalVersions rs). VectorClock_compare (clock (r_vv r)) (clock m) \<noteq> A_DOMINATES) \<and>
       (\<exists>m \<in> set (maximalVersions rs). \<forall>n. VectorClock_get (clock (r_vv r)) n \<le> VectorClock_get (clock m) n))"
proof -
  have wf: "clocks_wf (map r_vv (filter r_found rs))" using assms by auto
  note facts = maximal_facts [OF wf]
  have found: "r_vv r \<in> set (map r_vv (filter r_found rs))" if "r \<in> set rs" "r_found r" for r
    using that by simp
  have "set (maximalVersions rs) \<subseteq> r_vv ` {r \<in> set rs. r_found r}"
    using facts(1) by simp
  with facts(3) facts(2) [OF _ found] facts(4) [OF found, unfolded vc.descends_def] show ?thesis by blast
qed

definition ex_resps :: "Resp list" where
  "ex_resps =
     [\<lparr>r_peer = mkNodeInfo ''a'' ''h'' 1, r_found = True, r_vv = ex_old\<rparr>,
      \<lparr>r_peer = mkNodeInfo ''b'' ''h'' 2, r_found = True, r_vv = ex_new\<rparr>,
      \<lparr>r_peer = mkNodeInfo ''c'' ''h'' 3, r_found = False, r_vv = no_value\<rparr>]"

theorem maximalVersions_frontier_witness:
  "\<exists>m \<in> set (maximalVersions ex_resps). \<forall>n. VectorClock_get (clock ex_new) n \<le> VectorClock_get (clock m) n"
proof -
  have "\<forall>r \<in> set ex_resps. r_found r \<longrightarrow> vc_wf (clock (r_vv r))"
    using ex_versions(1,2) by (simp add: ex_resps_def vv_ok_def)
  from maximalVersions_frontier [OF this] show ?thesis by (simp add: ex_resps_def)
qed

lemma length_om_put: "length (om_put k v m) \<le> Suc (length m)"
  by (induction m) auto


definition ex_writer :: "(string \<Rightarrow> bool) option \<Rightarrow> mem_store Coordinator" where
  "ex_writer alive =
     \<lparr>c_self = mkNodeInfo ''a'' ''h'' 1, c_router = ex_router3, c_engine = InMemoryStorageEngine,
      c_storage = [(''k'', VersionedValue_serialize ex_old)], c_metrics = InMemoryMetrics_new,
      c_defaults = \<lparr>qc_N = 3, qc_W = 2, qc_R = 2, max_clock_entries = 20\<rparr>,
      c_hint_store = Some (HintStore_new 100 10), c_is_alive = alive\<rparr>"


text \<open>C27: every owner that is marked dead gets a hint.  A write, successful or not, appends for
  each dead owner exactly one hint with the written version - unless the owner's hints are at
  their cap - and leaves the hints of every other node alone.\<close>

theorem dead_owners_get_hints:
  assumes "ring_ok (c_router c)" "Router_findOwners (c_router c) key N = Some owners"
    and "c_hint_store c = Some hs"
    and "Coordinator_writeQuorum rc fo now key vv N W op c e = Some (pr, c', e')"
  shows "\<exists>hs'. c_hint_store c' = Some hs' \<and>
    (\<forall>i. hints_for hs' i =
       (if i \<noteq> node_id (c_self c) \<and> i \<in> node_id ` set owners \<and> is_dead c i \<and>
           length (hints_for hs i) < hs_max_per_target hs
        then hints_for hs i @ [\<lparr>h_target = i, h_key = key, h_value = vv, h_created_at = now\<rparr>]
        else hints_for hs i))"
proof (cases "owners = []")
  case True
  then show ?thesis using assms(2-4) by (auto simp: Coordinator_writeQuorum_def)
next
  case False
  obtain c1 n rs where plan: "write_plan now key vv owners c = (c1, n, rs)"
    by (rule prod_cases3)
  have "c_hint_store c' = c_hint_store c1"
    using assms(2,4) False plan
    by (auto simp: Coordinator_writeQuorum_def Let_def split: if_splits prod.splits)
  with write_plan_hints [OF plan [unfolded write_plan_def] assms(3) findOwners_facts(2) [OF assms(1,2)]]
  show ?thesis by auto
qed

definition ex_client :: "bool \<Rightarrow> unit ReplicaClient" where
  "ex_client up =
     \<lparr>rc_write = (\<lambda>e p k v. (up, e)),
      rc_read = (\<lambda>e p k. (\<lparr>rr_ok = up, rr_found = up, rr_value = ex_new\<rparr>, e))\<rparr>"

definition ex_order :: fanout where
  "ex_order = \<lparr>fo_order = (\<lambda>rs. rs), fo_seen = [0, 1, 2]\<rparr>"

theorem dead_owners_get_hints_witness:
  "\<exists>pr c' hs'. Coordinator_writeQuorum (ex_client True) ex_order 5 ''k'' ex_new 3 2 Op.Put
      (ex_writer (Some (\<lambda>i. i \<noteq> ''c''))) () = Some (pr, c', ()) \<and> c_hint_store c' = Some hs' \<and>
    map h_key (hints_for hs' ''c'') = [''k'']"
proof -
  let ?c = "ex_writer (Some (\<lambda>i. i \<noteq> ''c''))"
  have ok: "ring_ok (c_router ?c)" "c_hint_store ?c = Some (HintStore_new 100 10)"
    using ex_router3_ok(1) by (simp_all add: ex_writer_def)
  obtain owners where o: "Router_findOwners (c_router ?c) ''k'' 3 = Some owners"
    using findOwners_pref [OF ok(1)] by blast
  have r: "c_router ?c = ex_router3" by (simp add: ex_writer_def)
  have "length (pref_list ex_router3 ''k'') = 3"
    using length_pref_list [OF ex_router3_ok(1)] by (simp add: ex_router3_def)
  then have "map node_id owners = pref_list ex_router3 ''k''"
    using findOwners_facts(1) [OF ok(1) o] by (simp add: r)
  then have "node_id ` set owners = om_keys (nodes ex_router3)"
    using set_pref_list [OF ex_router3_ok(1), of "''k''"] by (metis list.set_map)
  then have c: "''c'' \<in> node_id ` set owners"
    by (simp add: ex_router3_def)
  obtain pr c' e' where w: "Coordinator_writeQuorum (ex_client True) ex_order 5 ''k'' ex_new 3 2 Op.Put ?c () = Some (pr, c', e')"
    using writeQuorum_returns [OF o] by (metis not_Some_eq prod_cases3)
  from dead_owners_get_hints [OF ok(1) o ok(2) w] obtain hs' where hs': "c_hint_store c' = Some hs'"
    and "\<And>i. hints_for hs' i =
       (if i \<noteq> node_id (c_self ?c) \<and> i \<in> node_id ` set owners \<and> is_dead ?c i \<and>
           length (hints_for (HintStore_new 100 10) i) < hs_max_per_target (HintStore_new 100 10)
        then hints_for (HintStore_new 100 10) i @ [\<lparr>h_target = i, h_key = ''k'', h_value = ex_new, h_created_at = 5\<rparr>]
        else hints_for (HintStore_new 100 10) i)"
    by blast
  moreover have "''c'' \<noteq> node_id (c_self ?c)" "is_dead ?c ''c''" "hints_for (HintStore_new 100 10) ''c'' = []"
    "hs_max_per_target (HintStore_new 100 10) = 10"
    by (simp_all add: ex_writer_def is_dead_def hints_for_def HintStore_new_def mkNodeInfo_def)
  ultimately have "map h_key (hints_for hs' ''c'') = [''k'']" using c by simp
  then show ?thesis using w hs' by simp
qed

text \<open>C28: what a read returns has the shape of its status.  OK carries exactly one live version,
  SIBLINGS at least two, NOTFOUND and ERROR none; an error text is given exactly for ERROR; and
  on a well-formed ring with a member the operation always returns.\<close>

theorem get_result_shape:
  assumes "ring_ok (c_router c)"
  shows "\<exists>gr c' e'. Coordinator_coordinateGet rc fo key N R c e = Some (gr, c', e') \<and>
    (gr_status gr = OK \<longrightarrow> (\<exists>v. gr_values gr = [v] \<and> \<not> deleted v)) \<and>
    (gr_status gr = SIBLINGS \<longrightarrow> 2 \<le> length (gr_values gr)) \<and>
    (gr_status gr = NOTFOUND \<or> gr_status gr = ERROR \<longrightarrow> gr_values gr = []) \<and>
    (gr_error gr = [] \<longleftrightarrow> gr_status gr \<noteq> ERROR)"
proof -
  obtain owners where o: "Router_findOwners (c_router c) key N = Some owners"
    using findOwners_pref [OF assms] by blast
  obtain ls remotes where plan: "read_plan c key owners = (ls, remotes)" by fastforce
  obtain rs e1 where sent: "send_reads rc key (fo_order fo remotes) e = (rs, e1)" by fastforce
  define ms where "ms = maximalVersions (ls @ List.map_filter id (snapshot fo rs))"
  obtain c2 e2 where "repair_all rc key (hd ms) (ls @ List.map_filter id (snapshot fo rs))
      (c\<lparr>c_metrics := InMemoryMetrics_incQuorumSuccess Op.Get (c_metrics c)\<rparr>) e1 = (c2, e2)" by fastforce
  then show ?thesis
    using o plan sent by (auto simp: Coordinator_coordinateGet_def Let_def ms_def [symmetric])
qed

theorem get_result_shape_witness:
  "\<exists>gr c' e'. Coordinator_coordinateGet (ex_client True) ex_order ''k'' 3 2 (ex_writer None) () = Some (gr, c', e') \<and>
    (gr_error gr = [] \<longleftrightarrow> gr_status gr \<noteq> ERROR)"
proof -
  have "ring_ok (c_router (ex_writer None))" using ex_router3_ok(1) by (simp add: ex_writer_def)
  from get_result_shape [OF this, of "ex_client True" ex_order "''k''" 3 2 "()"] show ?thesis by blast
qed

text \<open>
  Two dead owners of one key are given the same stand-in, which then acknowledges twice: with
  three owners, one of them this node, three acknowledgements come from two replicas.
\<close>

definition ex_router4 :: Router where
  "ex_router4 = ex_router3\<lparr>ring := ring ex_router3 @ [(400, ''d'')], nodes := nodes ex_router3 @ [(''d'', ex_d)]\<rparr>"

lemma standin_acknowledges_twice:
  "case write_plan 5 ''k'' ex_new (map (node_of ex_router4) [''a'', ''b'', ''c''])
      ((ex_writer (Some (\<lambda>i. i = ''a'' \<or> i = ''d'')))\<lparr>c_router := ex_router4\<rparr>) of
     (c, localAcks, remotes) \<Rightarrow> localAcks = 1 \<and> map node_id remotes = [''d'', ''d'']"
  by code_simp

end
