(* ===== verification/Replica_Client.thy ===== *)
theory Replica_Client
  imports Coordinator
begin

text \<open>
  net/pooled\_replica\_client.cpp and net/tcp\_replica\_client.cpp: the wire form of replica
  writes and reads.  The two clients send the same messages and read the same replies; they
  differ in how a request reaches the peer, which is the argument \<open>xchg\<close> here (it returns the
  empty string on failure).  The pooled exchange itself is in Connection_Pool.

  The replica's answers are those of \<open>Node::handleReplicate\<close> and \<open>Node::handleReadReplica\<close>,
  modelled here on the storage engine so that both ends of the protocol stand together.
\<close>

type_synonym 'e xchg = "'e \<Rightarrow> NodeInfo \<Rightarrow> string \<Rightarrow> string \<times> 'e"

section \<open>Client side\<close>

definition write_msg :: "string \<Rightarrow> string \<Rightarrow> VersionedValue \<Rightarrow> string" where
  "write_msg origin key v =
     ''REPLICATE|'' @ key @ ''|'' @ encode (data v) @ ''|'' @ origin @ ''|'' @ VectorClock_serialize (clock v)"

definition read_msg :: "string \<Rightarrow> string \<Rightarrow> string" where
  "read_msg origin key = ''READ|'' @ key @ ''|'' @ origin"

text \<open>\<open>reply.rfind("RESPONSE|OK", 0) == 0\<close>\<close>

definition is_ok_reply :: "string \<Rightarrow> bool" where
  "is_ok_reply reply \<longleftrightarrow> take 11 reply = ''RESPONSE|OK''"

definition no_response :: ReplicaReadResult where
  "no_response = \<lparr>rr_ok = False, rr_found = False, rr_value = no_value\<rparr>"

definition parse_read_reply :: "string \<Rightarrow> ReplicaReadResult" where
  "parse_read_reply reply =
     (if reply = [] then no_response
      else let f = splitAll reply (CHR ''|'')
           in if field f 0 \<noteq> ''VAL'' then no_response
              else if length f \<ge> 2 \<and> f ! 1 = ''NOTFOUND''
              then \<lparr>rr_ok = True, rr_found = False, rr_value = no_value\<rparr>
              else \<lparr>rr_ok = True, rr_found = True,
                     rr_value = \<lparr>data = decode (field f 1), clock = VectorClock_parse (field f 2),
                                 deleted = False\<rparr>\<rparr>)"

definition PooledReplicaClient_writeReplica ::
    "'e xchg \<Rightarrow> string \<Rightarrow> 'e \<Rightarrow> NodeInfo \<Rightarrow> string \<Rightarrow> VersionedValue \<Rightarrow> bool \<times> 'e" where
  "PooledReplicaClient_writeReplica xchg origin e peer key v =
     (case xchg e peer (write_msg origin key v) of (reply, e) \<Rightarrow> (is_ok_reply reply, e))"

definition PooledReplicaClient_readReplica ::
    "'e xchg \<Rightarrow> string \<Rightarrow> 'e \<Rightarrow> NodeInfo \<Rightarrow> string \<Rightarrow> ReplicaReadResult \<times> 'e" where
  "PooledReplicaClient_readReplica xchg origin e peer key =
     (case xchg e peer (read_msg origin key) of (reply, e) \<Rightarrow> (parse_read_reply reply, e))"

definition PooledReplicaClient :: "'e xchg \<Rightarrow> string \<Rightarrow> 'e ReplicaClient" where
  "PooledReplicaClient xchg origin =
     \<lparr>rc_write = PooledReplicaClient_writeReplica xchg origin,
      rc_read = PooledReplicaClient_readReplica xchg origin\<rparr>"

text \<open>The one-shot client; \<open>send\<close> is \<open>TCPClient::sendAndReceiveFramed\<close>.\<close>

definition TcpReplicaClient_writeReplica ::
    "('e \<Rightarrow> string \<Rightarrow> u16 \<Rightarrow> string \<Rightarrow> string \<times> 'e) \<Rightarrow> string
       \<Rightarrow> 'e \<Rightarrow> NodeInfo \<Rightarrow> string \<Rightarrow> VersionedValue \<Rightarrow> bool \<times> 'e" where
  "TcpReplicaClient_writeReplica send origin e peer key v =
     (case send e (host peer) (port peer) (write_msg origin key v) of (reply, e) \<Rightarrow> (is_ok_reply reply, e))"

definition TcpReplicaClient_readReplica ::
    "('e \<Rightarrow> string \<Rightarrow> u16 \<Rightarrow> string \<Rightarrow> string \<times> 'e) \<Rightarrow> string
       \<Rightarrow> 'e \<Rightarrow> NodeInfo \<Rightarrow> string \<Rightarrow> ReplicaReadResult \<times> 'e" where
  "TcpReplicaClient_readReplica send origin e peer key =
     (case send e (host peer) (port peer) (read_msg origin key) of (reply, e) \<Rightarrow> (parse_read_reply reply, e))"

definition TcpReplicaClient ::
    "('e \<Rightarrow> string \<Rightarrow> u16 \<Rightarrow> string \<Rightarrow> string \<times> 'e) \<Rightarrow> string \<Rightarrow> 'e ReplicaClient" where
  "TcpReplicaClient send origin =
     \<lparr>rc_write = TcpReplicaClient_writeReplica send origin,
      rc_read = TcpReplicaClient_readReplica send origin\<rparr>"

section \<open>Replica side\<close>

definition handleReplicate :: "'s StorageEngine \<Rightarrow> 's \<Rightarrow> string list \<Rightarrow> string \<times> 's" where
  "handleReplicate E st f =
     (''RESPONSE|OK'',
      snd (applyReplicate E st (field f 1)
             \<lparr>data = decode (field f 2), clock = VectorClock_parse (field f 4), deleted = False\<rparr>))"

definition handleReadReplica :: "'s StorageEngine \<Rightarrow> 's \<Rightarrow> string list \<Rightarrow> string" where
  "handleReadReplica E st f =
     (case readLocal E st (field f 1) of
        None \<Rightarrow> ''VAL|NOTFOUND''
      | Some v \<Rightarrow> ''VAL|'' @ encode (data v) @ ''|'' @ VectorClock_serialize (clock v))"

section \<open>The two ends agree\<close>

text \<open>Keys, origins and versions whose clock the messages carry.\<close>

definition key_ok :: "string \<Rightarrow> bool" where
  "key_ok key \<longleftrightarrow> CHR ''|'' \<notin> set key"

definition carries :: "string \<Rightarrow> VersionedValue \<Rightarrow> bool" where
  "carries key v \<longleftrightarrow> key_ok key \<and> vv_ok v \<and> encode (data v) \<noteq> ''NOTFOUND''"

lemma split_write_msg:
  assumes "key_ok key" "key_ok origin" "vv_ok v"
  shows "splitAll (write_msg origin key v) (CHR ''|'') =
    [''REPLICATE'', key, encode (data v), origin, VectorClock_serialize (clock v)]"
  using splitAll_join [of "[''REPLICATE'', key, encode (data v), origin, VectorClock_serialize (clock v)]" "CHR ''|''"] assms
  by (simp add: write_msg_def key_ok_def vv_ok_iff)

lemma split_read_msg:
  assumes "key_ok key" "key_ok origin"
  shows "splitAll (read_msg origin key) (CHR ''|'') = [''READ'', key, origin]"
  using splitAll_join [of "[''READ'', key, origin]" "CHR ''|''"] assms
  by (simp add: read_msg_def key_ok_def)

text \<open>The replica applies exactly the version that was sent, as long as it is not a tombstone.\<close>

lemma handleReplicate_write:
  assumes "key_ok key" "key_ok origin" "vv_ok v"
  shows "handleReplicate E st (splitAll (write_msg origin key v) (CHR ''|'')) =
    (''RESPONSE|OK'', snd (applyReplicate E st key (v\<lparr>deleted := False\<rparr>)))"
proof -
  have "VectorClock_parse (VectorClock_serialize (clock v)) = clock v"
    using assms(3) by (simp add: vct.dec_enc vv_ok_iff)
  then show ?thesis
    unfolding split_write_msg [OF assms] by (cases v) (simp add: handleReplicate_def)
qed

lemma is_ok_reply_ok [simp]: "is_ok_reply ''RESPONSE|OK''"
  by (simp add: is_ok_reply_def)

lemma is_ok_reply_Nil [simp]: "\<not> is_ok_reply []"
  by (simp add: is_ok_reply_def)

lemma parse_read_reply_Nil [simp]: "parse_read_reply [] = no_response"
  by (simp add: parse_read_reply_def)

lemma parse_read_notfound:
  "parse_read_reply ''VAL|NOTFOUND'' = \<lparr>rr_ok = True, rr_found = False, rr_value = no_value\<rparr>"
  by code_simp

lemma parse_read_val:
  assumes "vv_ok v"
  shows "parse_read_reply (''VAL|'' @ encode (data v) @ ''|'' @ VectorClock_serialize (clock v)) =
    (if encode (data v) = ''NOTFOUND'' then \<lparr>rr_ok = True, rr_found = False, rr_value = no_value\<rparr>
     else \<lparr>rr_ok = True, rr_found = True, rr_value = v\<lparr>deleted := False\<rparr>\<rparr>)"
proof -
  have "splitAll (''VAL|'' @ encode (data v) @ ''|'' @ VectorClock_serialize (clock v)) (CHR ''|'') =
      [''VAL'', encode (data v), VectorClock_serialize (clock v)]"
    using splitAll_join [of "[''VAL'', encode (data v), VectorClock_serialize (clock v)]" "CHR ''|''"] assms
    by (simp add: vv_ok_iff)
  moreover have "v\<lparr>deleted := False\<rparr> = \<lparr>data = data v, clock = clock v, deleted = False\<rparr>"
    by (cases v) simp
  moreover have "VectorClock_parse (VectorClock_serialize (clock v)) = clock v"
    using assms by (simp add: vct.dec_enc vv_ok_iff)
  ultimately show ?thesis
    by (simp add: parse_read_reply_def Let_def)
qed

text \<open>What the coordinator learns from a replica, by what the replica stores.\<close>

lemma read_exchange:
  assumes "key_ok key" "key_ok origin"
  shows "parse_read_reply (handleReadReplica E st (splitAll (read_msg origin key) (CHR ''|''))) =
    (case readLocal E st key of
       None \<Rightarrow> \<lparr>rr_ok = True, rr_found = False, rr_value = no_value\<rparr>
     | Some v \<Rightarrow>
         if encode (data v) = ''NOTFOUND'' then \<lparr>rr_ok = True, rr_found = False, rr_value = no_value\<rparr>
         else \<lparr>rr_ok = True, rr_found = True, rr_value = v\<lparr>deleted := False\<rparr>\<rparr>)"
proof (cases "readLocal E st key")
  case None
  then show ?thesis
    unfolding split_read_msg [OF assms] by (simp add: handleReadReplica_def parse_read_notfound)
next
  case (Some v)
  then have "vv_ok v"
    by (auto simp: readLocal_def split: option.splits)
  from parse_read_val [OF this] Some show ?thesis
    unfolding split_read_msg [OF assms] by (simp add: handleReadReplica_def)
qed

end
