(* ===== verification/Cluster.thy ===== *)
theory Cluster
  imports Replica_Client
begin

text \<open>
  A cluster of replicas that the pooled client reaches over a lossy network: every node's
  store, and a script that decides the fate of each request.  A request can be lost, its
  reply can be lost after it took effect, and - through the retry of the pooled exchange -
  it can take effect twice.

  The locale \<open>replica_client\<close> is interpreted on the client over this cluster; through it the
  quorum theorems hold for the wire protocol and the stores, not for an abstract peer.
\<close>

datatype fate = Delivered | Retried | LostRequest | LostReply

record cluster =
  cl_stores :: "(string, mem_store) omap"
  cl_fates :: "fate list"

definition store_at :: "cluster \<Rightarrow> string \<Rightarrow> mem_store" where
  "store_at e i = (case map_of (cl_stores e) i of None \<Rightarrow> [] | Some st \<Rightarrow> st)"

definition set_store :: "cluster \<Rightarrow> string \<Rightarrow> mem_store \<Rightarrow> cluster" where
  "set_store e i st = e\<lparr>cl_stores := om_put i st (cl_stores e)\<rparr>"

section \<open>Requests\<close>

text \<open>The two verbs of the replica protocol, as \<open>Node::handleRequest\<close> dispatches them.\<close>

definition replica_answer :: "'s StorageEngine \<Rightarrow> 's \<Rightarrow> string \<Rightarrow> string \<times> 's" where
  "replica_answer E st payload =
     (let f = splitAll payload (CHR ''|'')
      in if field f 0 = ''REPLICATE'' then handleReplicate E st f
         else if field f 0 = ''READ'' then (handleReadReplica E st f, st)
         else (''RESPONSE|ERROR|unknown_command'', st))"

definition cluster_deliver :: "cluster \<Rightarrow> string \<Rightarrow> string \<Rightarrow> string \<times> cluster" where
  "cluster_deliver e i payload =
     (case replica_answer InMemoryStorageEngine (store_at e i) payload of
        (reply, st) \<Rightarrow> (reply, set_store e i st))"

definition cluster_xchg :: "cluster xchg" where
  "cluster_xchg e peer payload =
     (let fate = (case cl_fates e of [] \<Rightarrow> Delivered | f # _ \<Rightarrow> f);
          e = e\<lparr>cl_fates := tl (cl_fates e)\<rparr>; i = node_id peer
      in case fate of
           Delivered \<Rightarrow> cluster_deliver e i payload
         | Retried \<Rightarrow> cluster_deliver (snd (cluster_deliver e i payload)) i payload
         | LostRequest \<Rightarrow> ([], e)
         | LostReply \<Rightarrow> ([], snd (cluster_deliver e i payload)))"

definition cluster_client :: "string \<Rightarrow> cluster ReplicaClient" where
  "cluster_client origin = PooledReplicaClient cluster_xchg origin"

text \<open>A put or a get that is coordinated at a node of the cluster.\<close>

definition at_node :: "mem_store Coordinator \<Rightarrow> cluster \<Rightarrow> mem_store Coordinator" where
  "at_node c e = c\<lparr>c_storage := store_at e (node_id (c_self c))\<rparr>"

definition from_node :: "mem_store Coordinator \<Rightarrow> cluster \<Rightarrow> cluster" where
  "from_node c e = set_store e (node_id (c_self c)) (c_storage c)"

definition cluster_put ::
    "fanout \<Rightarrow> int \<Rightarrow> u64 \<Rightarrow> string \<Rightarrow> string \<Rightarrow> VectorClock \<Rightarrow> int \<Rightarrow> int
       \<Rightarrow> mem_store Coordinator \<Rightarrow> cluster \<Rightarrow> (PutResult \<times> cluster) option" where
  "cluster_put fo now now_ms key value context N W c e =
     (case Coordinator_coordinatePut (cluster_client (node_id (c_self c))) fo now now_ms key value context
         N W (at_node c e) e of
        None \<Rightarrow> None
      | Some (pr, c', e') \<Rightarrow> Some (pr, from_node c' e'))"

definition cluster_delete ::
    "fanout \<Rightarrow> int \<Rightarrow> u64 \<Rightarrow> string \<Rightarrow> VectorClock \<Rightarrow> int \<Rightarrow> int
       \<Rightarrow> mem_store Coordinator \<Rightarrow> cluster \<Rightarrow> (PutResult \<times> cluster) option" where
  "cluster_delete fo now now_ms key context N W c e =
     (case Coordinator_coordinateDelete (cluster_client (node_id (c_self c))) fo now now_ms key context
         N W (at_node c e) e of
        None \<Rightarrow> None
      | Some (pr, c', e') \<Rightarrow> Some (pr, from_node c' e'))"

definition cluster_get ::
    "fanout \<Rightarrow> string \<Rightarrow> int \<Rightarrow> int \<Rightarrow> mem_store Coordinator \<Rightarrow> cluster
       \<Rightarrow> (GetResult \<times> cluster) option" where
  "cluster_get fo key N R c e =
     (case Coordinator_coordinateGet (cluster_client (node_id (c_self c))) fo key N R (at_node c e) e of
        None \<Rightarrow> None
      | Some (gr, c', e') \<Rightarrow> Some (gr, from_node c' e'))"

section \<open>The stores\<close>

lemma store_at_set [simp]: "store_at (set_store e i st) = (store_at e)(i := st)"
  by (simp add: store_at_def set_store_def fun_eq_iff)

lemma store_at_fates [simp]: "store_at (e\<lparr>cl_fates := fs\<rparr>) = store_at e"
  by (simp add: store_at_def fun_eq_iff)


definition cluster_holds :: "cluster \<Rightarrow> string \<Rightarrow> string \<Rightarrow> VersionedValue option" where
  "cluster_holds e i key = readLocal InMemoryStorageEngine (store_at e i) key"

text \<open>No value reads as the literal \<open>NOTFOUND\<close> of the reply format.\<close>

definition store_ok :: "mem_store \<Rightarrow> bool" where
  "store_ok st \<longleftrightarrow> om_wf st \<and>
     (\<forall>e \<in> set st. encode (data (VersionedValue_deserialize (snd e))) \<noteq> ''NOTFOUND'')"

definition cluster_ok :: "cluster \<Rightarrow> bool" where
  "cluster_ok e \<longleftrightarrow> (\<forall>i. store_ok (store_at e i))"

lemma store_ok_read:
  "store_ok st \<Longrightarrow> readLocal InMemoryStorageEngine st key = Some v \<Longrightarrow> encode (data v) \<noteq> ''NOTFOUND''"
  by (fastforce simp: store_ok_def readLocal_def InMemoryStorageEngine_def InMemoryStorageEngine_get_def
      split: option.splits dest: map_of_SomeD)

lemma store_ok_put:
  assumes "store_ok st" "vv_ok v" "encode (data v) \<noteq> ''NOTFOUND''"
  shows "store_ok (se_put InMemoryStorageEngine st key (VersionedValue_serialize v))"
  using assms set_om_put [of key "VersionedValue_serialize v" st]
  by (auto simp: store_ok_def InMemoryStorageEngine_def InMemoryStorageEngine_put_def deserialize_serialize)

lemma store_ok_replicate:
  assumes "store_ok st" "vv_ok v" "encode (data v) \<noteq> ''NOTFOUND''"
  shows "store_ok (snd (applyReplicate InMemoryStorageEngine st key v))"
  using assms by (auto simp: applyReplicate_def Let_def store_ok_put split: option.split)

lemma store_ok_om: "store_ok st \<Longrightarrow> om_wf st"
  by (simp add: store_ok_def)

text \<open>The store keeps a descendant of the clock \<open>c\<close> under \<open>key\<close>.\<close>

definition covers :: "mem_store \<Rightarrow> string \<Rightarrow> VectorClock \<Rightarrow> bool" where
  "covers st key c \<longleftrightarrow>
     (case readLocal InMemoryStorageEngine st key of
        None \<Rightarrow> False
      | Some w \<Rightarrow> vc.descends (clock w) c)"

lemma covers_iff:
  "covers st key c \<longleftrightarrow> (\<exists>w. readLocal InMemoryStorageEngine st key = Some w \<and> vc.descends (clock w) c)"
  by (simp add: covers_def split: option.split)

lemma covers_replicate:
  "\<lbrakk> om_wf st; vv_ok v \<rbrakk> \<Longrightarrow> covers (snd (applyReplicate InMemoryStorageEngine st key v)) key (clock v)"
  unfolding covers_iff by (rule ims.applyReplicate_at_least)

lemma covers_put:
  "\<lbrakk> om_wf st; vv_ok v \<rbrakk>
     \<Longrightarrow> covers (se_put InMemoryStorageEngine st key (VersionedValue_serialize v)) key (clock v)"
  by (simp add: covers_def ims.readLocal_put)

section \<open>One exchange\<close>

text \<open>A write request takes effect some number of times; an acknowledgement means at least once.\<close>

lemma xchg_write:
  assumes "key_ok key" "key_ok origin" "vv_ok v"
    and "cluster_xchg e p (write_msg origin key v) = (reply, e')"
  shows "\<exists>n. store_at e' = (store_at e)(node_id p :=
        ((\<lambda>st. snd (applyReplicate InMemoryStorageEngine st key (v\<lparr>deleted := False\<rparr>))) ^^ n)
          (store_at e (node_id p))) \<and>
      (is_ok_reply reply \<longrightarrow> 0 < n)"
proof -
  let ?f = "\<lambda>st. snd (applyReplicate InMemoryStorageEngine st key (v\<lparr>deleted := False\<rparr>))"
  have "field (splitAll (write_msg origin key v) (CHR ''|'')) 0 = ''REPLICATE''"
    using split_write_msg [OF assms(1-3)] by simp
  then have ans: "replica_answer InMemoryStorageEngine st (write_msg origin key v) = (''RESPONSE|OK'', ?f st)" for st
    using handleReplicate_write [OF assms(1-3)] by (simp add: replica_answer_def)
  have del: "cluster_deliver x i (write_msg origin key v) =
      (''RESPONSE|OK'', set_store x i (?f (store_at x i)))" for x i
    by (simp add: cluster_deliver_def ans)
  let ?n = "case (case cl_fates e of [] \<Rightarrow> Delivered | f # _ \<Rightarrow> f) of
      Delivered \<Rightarrow> 1 | Retried \<Rightarrow> 2 | LostRequest \<Rightarrow> 0 | LostReply \<Rightarrow> (1::nat)"
  have "store_at e' = (store_at e)(node_id p := (?f ^^ ?n) (store_at e (node_id p))) \<and>
      (is_ok_reply reply \<longrightarrow> 0 < ?n)"
    using assms(4) by (auto simp: cluster_xchg_def del Let_def numeral_2_eq_2 split: fate.splits list.splits)
  then show ?thesis by blast
qed

lemma replicate_times:
  assumes "store_ok st" "vv_ok v" "encode (data v) \<noteq> ''NOTFOUND''"
  shows "store_ok (((\<lambda>st. snd (applyReplicate InMemoryStorageEngine st key v)) ^^ n) st) \<and>
    (0 < n \<longrightarrow> covers (((\<lambda>st. snd (applyReplicate InMemoryStorageEngine st key v)) ^^ n) st) key (clock v))"
proof (induction n)
  case (Suc n)
  then show ?case
    using store_ok_replicate [OF _ assms(2,3)] covers_replicate [OF _ assms(2)] by (simp add: store_ok_om)
qed (simp add: assms(1))

lemma xchg_read:
  assumes "key_ok key" "key_ok origin"
    and "cluster_xchg e p (read_msg origin key) = (reply, e')"
  shows "store_at e' = store_at e \<and>
    (reply = [] \<or> reply = handleReadReplica InMemoryStorageEngine (store_at e (node_id p))
        (splitAll (read_msg origin key) (CHR ''|'')))"
proof -
  have "field (splitAll (read_msg origin key) (CHR ''|'')) 0 = ''READ''"
    using split_read_msg [OF assms(1,2)] by simp
  then have del: "cluster_deliver x i (read_msg origin key) =
      (handleReadReplica InMemoryStorageEngine (store_at x i) (splitAll (read_msg origin key) (CHR ''|'')),
       set_store x i (store_at x i))" for x i
    by (simp add: cluster_deliver_def replica_answer_def)
  show ?thesis
    using assms(3) by (auto simp: cluster_xchg_def del Let_def split: fate.splits list.splits)
qed

section \<open>The client over the cluster keeps the contract\<close>

lemma cluster_write:
  assumes "cluster_ok e" "key_ok origin" "carries key v"
    and "rc_write (cluster_client origin) e p key v = (ok, e')"
  shows "cluster_ok e'" "ok \<Longrightarrow> covers (store_at e' (node_id p)) key (clock v)"
    "covers (store_at e i) key (clock v) \<Longrightarrow> covers (store_at e' i) key (clock v)"
proof -
  have v: "key_ok key" "vv_ok v" "encode (data v) \<noteq> ''NOTFOUND''"
    using assms(3) by (simp_all add: carries_def)
  let ?v = "v\<lparr>deleted := False\<rparr>"
  have v': "vv_ok ?v" "encode (data ?v) \<noteq> ''NOTFOUND''"
    using v by (simp_all add: vv_ok_def)
  obtain reply where x: "cluster_xchg e p (write_msg origin key v) = (reply, e')" "ok = is_ok_reply reply"
    using assms(4) by (auto simp: cluster_client_def PooledReplicaClient_def
        PooledReplicaClient_writeReplica_def split: prod.splits)
  obtain n where n: "store_at e' = (store_at e)(node_id p :=
        ((\<lambda>st. snd (applyReplicate InMemoryStorageEngine st key ?v)) ^^ n) (store_at e (node_id p)))"
      "is_ok_reply reply \<longrightarrow> 0 < n"
    using xchg_write [OF v(1) assms(2) v(2) x(1)] by blast
  have "store_ok (store_at e (node_id p))"
    using assms(1) by (simp add: cluster_ok_def)
  note t = replicate_times [OF this v', of n key]
  show "cluster_ok e'"
    using t assms(1) by (simp add: n(1) cluster_ok_def)
  show "covers (store_at e' (node_id p)) key (clock v)" if ok
    using t n x(2) that by simp
  show "covers (store_at e' i) key (clock v)" if "covers (store_at e i) key (clock v)"
    using t that by (cases "n = 0") (auto simp: n(1))
qed

lemma cluster_read:
  assumes "cluster_ok e" "key_ok origin" "key_ok key"
    and "rc_read (cluster_client origin) e p key = (r, e')"
  shows "store_at e' = store_at e" "rr_ok r \<Longrightarrow> (case cluster_holds e (node_id p) key of
            None \<Rightarrow> \<not> rr_found r
          | Some w \<Rightarrow> rr_found r \<and> rr_value r = w\<lparr>deleted := False\<rparr>)"
proof -
  obtain reply where x: "cluster_xchg e p (read_msg origin key) = (reply, e')" "r = parse_read_reply reply"
    using assms(4) by (auto simp: cluster_client_def PooledReplicaClient_def
        PooledReplicaClient_readReplica_def split: prod.splits)
  note y = xchg_read [OF assms(3,2) x(1)]
  then show "store_at e' = store_at e" by blast
  have ok: "store_ok (store_at e (node_id p))"
    using assms(1) by (simp add: cluster_ok_def)
  assume "rr_ok r"
  then have "reply \<noteq> []" using x(2) by (auto simp: no_response_def)
  then have "r = parse_read_reply (handleReadReplica InMemoryStorageEngine (store_at e (node_id p))
        (splitAll (read_msg origin key) (CHR ''|'')))"
    using x(2) y by simp
  then show "case cluster_holds e (node_id p) key of
            None \<Rightarrow> \<not> rr_found r
          | Some w \<Rightarrow> rr_found r \<and> rr_value r = w\<lparr>deleted := False\<rparr>"
    using store_ok_read [OF ok] unfolding read_exchange [OF assms(3,2)] cluster_holds_def
    by (auto split: option.split)
qed

interpretation cl: replica_client "cluster_client origin" cluster_holds cluster_ok
    "\<lambda>key. key_ok origin \<and> key_ok key" "\<lambda>key v. key_ok origin \<and> carries key v"
  for origin
proof unfold_locales
  fix e k v p ok e'
  assume "cluster_ok e" "key_ok origin \<and> carries k v" "rc_write (cluster_client origin) e p k v = (ok, e')"
  then show "cluster_ok e'" using cluster_write(1) by blast
next
  fix e k v p e'
  assume "cluster_ok e" "key_ok origin \<and> carries k v" "rc_write (cluster_client origin) e p k v = (True, e')"
  then show "\<exists>w. cluster_holds e' (node_id p) k = Some w \<and> vc.descends (clock w) (clock v)"
    using cluster_write(2) unfolding covers_iff cluster_holds_def by blast
next
  fix e k v p ok e' i w
  assume "cluster_ok e" "key_ok origin \<and> carries k v" "rc_write (cluster_client origin) e p k v = (ok, e')"
    "cluster_holds e i k = Some w" "vc.descends (clock w) (clock v)"
  then show "\<exists>w'. cluster_holds e' i k = Some w' \<and> vc.descends (clock w') (clock v)"
    using cluster_write(3) unfolding covers_iff cluster_holds_def by blast
next
  fix e k p r e'
  assume a: "cluster_ok e" "key_ok origin \<and> key_ok k" "rc_read (cluster_client origin) e p k = (r, e')"
  then have r: "store_at e' = store_at e" "rr_ok r \<Longrightarrow> (case cluster_holds e (node_id p) k of
            None \<Rightarrow> \<not> rr_found r | Some w \<Rightarrow> rr_found r \<and> rr_value r = w\<lparr>deleted := False\<rparr>)"
    using cluster_read by blast+
  have "cluster_ok e'" "cluster_holds e' = cluster_holds e"
    using a(1) r(1) by (simp_all add: cluster_ok_def cluster_holds_def fun_eq_iff)
  then show "cluster_ok e' \<and> cluster_holds e' = cluster_holds e \<and>
        (rr_ok r \<longrightarrow> (case cluster_holds e (node_id p) k of
            None \<Rightarrow> \<not> rr_found r | Some w \<Rightarrow> rr_found r \<and> clock (rr_value r) = clock w))"
    using r(2) by (auto split: option.splits)
next
  fix e i k w
  assume "cluster_ok e" "cluster_holds e i k = Some w"
  then show "vc_wf (clock w)" by (auto simp: cluster_holds_def intro: ims.readLocal_wf)
qed

section \<open>Quorum operations on the cluster\<close>

lemma at_node_simps [simp]:
  "c_self (at_node c e) = c_self c" "c_router (at_node c e) = c_router c"
  "c_engine (at_node c e) = c_engine c" "c_storage (at_node c e) = store_at e (node_id (c_self c))"
  "is_dead (at_node c e) = is_dead c"
  by (simp_all add: at_node_def is_dead_def fun_eq_iff)

lemma writeQuorum_local:
  assumes "Coordinator_writeQuorum rc fo now key vv N W op c e = Some (pr, c', e')"
  shows "c_self c' = c_self c" "\<exists>n. c_storage c' =
    ((\<lambda>st. se_put (c_engine c) st key (VersionedValue_serialize vv)) ^^ n) (c_storage c)"
proof -
  obtain owners where o: "Router_findOwners (c_router c) key N = Some owners"
    using assms by (auto simp: Coordinator_writeQuorum_def split: option.splits)
  obtain c1 n rs where plan: "write_plan now key vv owners c = (c1, n, rs)"
    by (rule prod_cases3)
  obtain oks e1 where sent: "send_writes rc key vv (fo_order fo rs) e = (oks, e1)"
    by fastforce
  have "c_self c' = c_self c \<and> c_storage c' = c_storage c \<or> same_setup c1 c' \<and> c_storage c' = c_storage c1"
  proof (cases "owners = []")
    case True
    then show ?thesis using assms o by (auto simp: Coordinator_writeQuorum_def)
  next
    case False
    then show ?thesis using writeQuorum_cases [OF assms o False plan sent] by blast
  qed
  moreover have "c_self c1 = c_self c"
    using write_plan_spec(1) [OF plan] by (simp add: same_setup_def)
  ultimately show "c_self c' = c_self c"
    by (auto simp: same_setup_def)
  show "\<exists>n. c_storage c' =
    ((\<lambda>st. se_put (c_engine c) st key (VersionedValue_serialize vv)) ^^ n) (c_storage c)"
    using \<open>_ \<or> _\<close> write_plan_spec(4) [OF plan] by (auto intro: exI [of _ 0])
qed

text \<open>A node of the cluster that coordinates: it stores in memory and its id can travel.\<close>

definition coord_ok :: "mem_store Coordinator \<Rightarrow> bool" where
  "coord_ok c \<longleftrightarrow> c_engine c = InMemoryStorageEngine \<and> isValidNodeId (node_id (c_self c)) \<and>
     ring_ok (c_router c)"

definition all_live :: "mem_store Coordinator \<Rightarrow> bool" where
  "all_live c \<longleftrightarrow> (\<forall>o1 \<in> set (Router_getAllPhysicalNodes (c_router c)).
     node_id o1 = node_id (c_self c) \<or> \<not> is_dead c (node_id o1))"

lemma valid_key_ok: "isValidNodeId i \<Longrightarrow> key_ok i"
  using isValidNodeId_clean(1) by (simp add: key_ok_def)

lemma write_covers:
  assumes "cluster_ok e" "fair fo" "coord_ok c" "all_live c" "carries key vv"
    and "Router_findOwners (c_router c) key N = Some owners"
    and "Coordinator_writeQuorum (cluster_client (node_id (c_self c))) fo now key vv N W op (at_node c e) e =
      Some (pr, c', e')" "pr_ok pr"
  shows "cluster_ok (from_node c' e') \<and> (\<exists>S \<subseteq> node_id ` set owners. W \<le> int (card S) \<and>
    (\<forall>i \<in> S. covers (store_at (from_node c' e') i) key (clock vv)))"
proof -
  let ?me = "node_id (c_self c)"
  have c: "c_engine c = InMemoryStorageEngine" "key_ok ?me" "ring_ok (c_router c)"
    using assms(3) valid_key_ok by (auto simp: coord_ok_def)
  have vv: "vv_ok vv" "key_ok ?me \<and> carries key vv" "encode (data vv) \<noteq> ''NOTFOUND''"
    using assms(5) c(2) by (auto simp: carries_def)
  note own = findOwners_facts [OF c(3) assms(6)]
  have live: "\<forall>o1 \<in> set owners. is_self (at_node c e) o1 \<or> \<not> is_dead (at_node c e) (node_id o1)"
    using assms(4) own(4) by (auto simp: all_live_def)
  have "Router_findOwners (c_router (at_node c e)) key N = Some owners"
    using assms(6) by simp
  from cl.write_quorum_holders [OF assms(1) vv(2) assms(2) this own(2) live assms(7,8)]
  obtain S where S: "S \<subseteq> node_id ` set owners" "W \<le> int (card S)" "cluster_ok e'"
    and remote: "\<And>i. \<lbrakk> i \<in> S; i \<noteq> ?me \<rbrakk> \<Longrightarrow> covers (store_at e' i) key (clock vv)"
    and loc: "?me \<in> S \<Longrightarrow>
      c_storage c' = se_put InMemoryStorageEngine (store_at e ?me) key (VersionedValue_serialize vv)"
    unfolding covers_iff cluster_holds_def [symmetric] by (auto simp: c(1))
  have me: "c_self c' = c_self c"
    using writeQuorum_local(1) [OF assms(7)] by simp
  have ok: "store_ok (store_at e ?me)"
    using assms(1) by (simp add: cluster_ok_def)
  have "store_ok (((\<lambda>st. se_put InMemoryStorageEngine st key (VersionedValue_serialize vv)) ^^ n) (store_at e ?me))" for n
    by (induction n) (simp_all add: ok store_ok_put [OF _ vv(1,3)])
  then have "store_ok (c_storage c')"
    using writeQuorum_local(2) [OF assms(7)] c(1) by auto
  then have "cluster_ok (from_node c' e')"
    using S(3) by (simp add: cluster_ok_def from_node_def)
  moreover have "covers (store_at (from_node c' e') i) key (clock vv)" if "i \<in> S" for i
    using remote [OF that] loc that covers_put [OF store_ok_om [OF ok] vv(1)] me
    by (cases "i = ?me") (auto simp: from_node_def)
  ultimately show ?thesis using S by blast
qed

lemma get_sees:
  assumes "cluster_ok e" "fair fo" "coord_ok d" "key_ok key"
    and "Router_findOwners (c_router d) key N = Some owners"
    and "cluster_get fo key N R d e = Some (gr, e')" "gr_status gr \<noteq> ERROR"
    and "S \<subseteq> node_id ` set owners" "int (length owners) < int (card S) + R"
    and "\<And>i. i \<in> S \<Longrightarrow> covers (store_at e i) key c0"
  shows "\<exists>m. vc.descends (clock m) c0 \<and>
    (m \<in> set (gr_values gr) \<or> gr_status gr = NOTFOUND \<and> deleted m)"
proof -
  let ?me = "node_id (c_self d)"
  have d: "c_engine d = InMemoryStorageEngine" "key_ok ?me" "ring_ok (c_router d)"
    using assms(3) valid_key_ok by (auto simp: coord_ok_def)
  obtain d' e1 where get: "Coordinator_coordinateGet (cluster_client ?me) fo key N R (at_node d e) e =
      Some (gr, d', e1)"
    using assms(6) by (auto simp: cluster_get_def split: option.splits prod.splits)
  have k: "key_ok ?me \<and> key_ok key" using d(2) assms(4) by simp
  have own: "Router_findOwners (c_router (at_node d e)) key N = Some owners" "distinct (map node_id owners)"
    using assms(5) findOwners_facts(2) [OF d(3) assms(5)] by simp_all
  have "\<exists>w. cl.stored_at (at_node d e) e key i = Some w \<and> vc.descends (clock w) c0" if "i \<in> S" for i
    using assms(10) [OF that] unfolding covers_iff cl.stored_at_def cluster_holds_def
    by (cases "i = ?me") (simp_all add: d(1))
  from cl.read_quorum_sees [OF assms(1,2) k own get assms(7-9) this] show ?thesis .
qed

lemma put_carries:
  assumes "coord_ok c" "key_ok key" "vc_wf context" "vc_clean context" "encode value \<noteq> ''NOTFOUND''"
  shows "carries key \<lparr>data = value, clock = Coordinator_bumpedClock now_ms (at_node c e) key context,
    deleted = del\<rparr>"
  using assms bumpedClock_wf [OF assms(3)] bumpedClock_clean [OF assms(4), of "at_node c e"]
  by (simp add: carries_def vv_ok_def coord_ok_def)

lemma put_covers:
  assumes "cluster_ok e" "fair fo" "coord_ok c" "all_live c"
    and "key_ok key" "vc_wf context" "vc_clean context" "encode value \<noteq> ''NOTFOUND''"
    and "Router_findOwners (c_router c) key N = Some owners"
    and "cluster_put fo now now_ms key value context N W c e = Some (pr, e')" "pr_ok pr"
  shows "cluster_ok e' \<and> (\<exists>S \<subseteq> node_id ` set owners. W \<le> int (card S) \<and>
    (\<forall>i \<in> S. covers (store_at e' i) key (pr_clock pr)))"
proof -
  let ?me = "node_id (c_self c)" and ?c = "at_node c e"
  let ?vv = "\<lparr>data = value, clock = Coordinator_bumpedClock now_ms ?c key context, deleted = False\<rparr>"
  obtain c' e1 where put: "Coordinator_writeQuorum (cluster_client ?me) fo now key ?vv N W Op.Put ?c e =
      Some (pr, c', e1)" "e' = from_node c' e1"
    using assms(10) by (auto simp: cluster_put_def Coordinator_coordinatePut_def split: option.splits)
  have car: "carries key ?vv" by (rule put_carries [OF assms(3,5-8)])
  have "pr_clock pr = clock ?vv"
    using put(1) assms(11) by (auto simp: Coordinator_writeQuorum_def Let_def
        split: option.splits if_splits prod.splits)
  then show ?thesis
    using write_covers [OF assms(1-4) car assms(9) put(1) assms(11)] put(2) by simp
qed

section \<open>A three-node cluster\<close>

text \<open>
  The first request to a replica is lost, the second is retried, the reply to the fourth is
  lost; replies arrive in the reverse of the sending order.
\<close>

declare owners_loop.simps [code]

definition ex_coord :: "string \<Rightarrow> mem_store Coordinator" where
  "ex_coord i =
     \<lparr>c_self = mkNodeInfo i ''h'' 1, c_router = ex_router3, c_engine = InMemoryStorageEngine, c_storage = [],
      c_metrics = InMemoryMetrics_new,
      c_defaults = \<lparr>qc_N = 3, qc_W = 2, qc_R = 2, max_clock_entries = 20\<rparr>,
      c_hint_store = None, c_is_alive = None\<rparr>"

definition ex_fan :: fanout where
  "ex_fan = \<lparr>fo_order = rev, fo_seen = [0, 1]\<rparr>"

definition ex_cluster :: cluster where
  "ex_cluster = \<lparr>cl_stores = [], cl_fates = [LostRequest, Retried, Delivered, LostReply]\<rparr>"

lemma ex_coord_ok:
  "coord_ok (ex_coord ''a'')" "coord_ok (ex_coord ''b'')" "all_live (ex_coord ''a'')"
  "c_router (ex_coord i) = ex_router3"
proof -
  have "isValidNodeId ''a''" "isValidNodeId ''b''" by code_simp+
  then show "coord_ok (ex_coord ''a'')" "coord_ok (ex_coord ''b'')"
    using ex_router3_ok(1) by (simp_all add: coord_ok_def ex_coord_def mkNodeInfo_def)
qed (simp_all add: all_live_def ex_coord_def is_dead_def)

lemma ex_fan_fair: "fair ex_fan"
  by (simp add: fair_def ex_fan_def)

lemma ex_cluster_ok: "cluster_ok ex_cluster"
  by (simp add: cluster_ok_def store_at_def store_ok_def ex_cluster_def)

end
