(* ===== verification/Fan_Out.thy ===== *)
theory Fan_Out
  imports Coordinator
begin

text \<open>
  coordinator.cpp, the threads behind a quorum operation: \<open>spawnBackground\<close> with its count of
  outstanding threads, the lambda that each thread runs, the shared accumulator (\<open>WriteQuorum\<close>,
  \<open>ReadQuorum\<close>), the timed wait of the coordinating thread and the destructor.

  A step lets the coordinating thread start the next worker, a worker perform its remote call,
  record the result under the lock, or finish, or the deadline pass, or the coordinating thread
  take its snapshot when its condition holds.  The call and the recording are separate steps, so
  results may be recorded in another order than the calls took effect.

  Shown: every interleaving of these steps is a fan-out of \<open>Coordinator_writeQuorum\<close> and
  \<open>Coordinator_coordinateGet\<close>, so what is proved of them holds for the threads; and the count of
  outstanding threads is exact, so the destructor waits for every thread that was started.
\<close>

section \<open>Threads\<close>

text \<open>What differs between writes and reads: the call, and the accumulator.\<close>

record ('e, 'r, 'a) fan =
  fan_call :: "'e \<Rightarrow> NodeInfo \<Rightarrow> 'r \<times> 'e"
  fan_record :: "'r \<Rightarrow> 'a \<Rightarrow> 'a"
  fan_enough :: "'a \<Rightarrow> bool"
  fan_remotes :: "NodeInfo list"

text \<open>\<open>Answered j r\<close> is a thread whose call was number \<open>j\<close> to take effect.\<close>

datatype 'r worker_state = Started | Answered nat 'r | Recorded | Finished

record ('e, 'r, 'a) fan_state =
  fs_workers :: "'r worker_state list"
  fs_env :: 'e
  fs_acc :: 'a
  fs_completed :: nat
  fs_deadline :: bool
  fs_snapshot :: "'a option"
  fs_outstanding :: int
  fs_called :: "nat list"
  fs_results :: "'r list"
  fs_recorded :: "nat list"

text \<open>The last three fields are the history of the run.\<close>

definition fan_init :: "'a \<Rightarrow> 'e \<Rightarrow> ('e, 'r, 'a) fan_state" where
  "fan_init acc e =
     \<lparr>fs_workers = [], fs_env = e, fs_acc = acc, fs_completed = 0, fs_deadline = False, fs_snapshot = None,
      fs_outstanding = 0, fs_called = [], fs_results = [], fs_recorded = []\<rparr>"

inductive fan_step :: "('e, 'r, 'a) fan \<Rightarrow> ('e, 'r, 'a) fan_state \<Rightarrow> ('e, 'r, 'a) fan_state \<Rightarrow> bool" for F where
  spawnBackground:
    "length (fs_workers s) < length (fan_remotes F) \<Longrightarrow>
     fan_step F s (s\<lparr>fs_workers := fs_workers s @ [Started], fs_outstanding := fs_outstanding s + 1\<rparr>)"
| remote_call:
    "\<lbrakk> i < length (fs_workers s); fs_workers s ! i = Started;
       fan_call F (fs_env s) (fan_remotes F ! i) = (r, e) \<rbrakk> \<Longrightarrow>
     fan_step F s (s\<lparr>fs_workers := (fs_workers s)[i := Answered (length (fs_results s)) r], fs_env := e,
       fs_called := fs_called s @ [i], fs_results := fs_results s @ [r]\<rparr>)"
| record_result:
    "\<lbrakk> i < length (fs_workers s); fs_workers s ! i = Answered j r \<rbrakk> \<Longrightarrow>
     fan_step F s (s\<lparr>fs_workers := (fs_workers s)[i := Recorded], fs_completed := Suc (fs_completed s),
       fs_acc := fan_record F r (fs_acc s), fs_recorded := fs_recorded s @ [j]\<rparr>)"
| finish:
    "\<lbrakk> i < length (fs_workers s); fs_workers s ! i = Recorded \<rbrakk> \<Longrightarrow>
     fan_step F s (s\<lparr>fs_workers := (fs_workers s)[i := Finished], fs_outstanding := fs_outstanding s - 1\<rparr>)"
| deadline: "fan_step F s (s\<lparr>fs_deadline := True\<rparr>)"
| wake:
    "\<lbrakk> length (fs_workers s) = length (fan_remotes F); fs_snapshot s = None;
       fan_enough F (fs_acc s) \<or> fs_completed s = length (fan_remotes F) \<or> fs_deadline s \<rbrakk> \<Longrightarrow>
     fan_step F s (s\<lparr>fs_snapshot := Some (fs_acc s)\<rparr>)"

inductive_cases fan_stepE: "fan_step F s s'"

text \<open>The wait of the destructor is over.\<close>

definition drained :: "('e, 'r, 'a) fan_state \<Rightarrow> bool" where
  "drained s \<longleftrightarrow> fs_outstanding s = 0"

text \<open>The fan-out of a write and of a read.\<close>

definition write_fan ::
    "'e ReplicaClient \<Rightarrow> string \<Rightarrow> VersionedValue \<Rightarrow> int \<Rightarrow> NodeInfo list \<Rightarrow> ('e, bool, int) fan" where
  "write_fan rc key vv W remotes =
     \<lparr>fan_call = (\<lambda>e p. rc_write rc e p key vv), fan_record = (\<lambda>ok acks. if ok then acks + 1 else acks),
      fan_enough = (\<lambda>acks. acks \<ge> W), fan_remotes = remotes\<rparr>"

definition read_resp :: "NodeInfo \<Rightarrow> ReplicaReadResult \<Rightarrow> Resp option" where
  "read_resp p rr =
     (if rr_ok rr then Some \<lparr>r_peer = p, r_found = rr_found rr, r_vv = rr_value rr\<rparr> else None)"

definition read_fan ::
    "'e ReplicaClient \<Rightarrow> string \<Rightarrow> int \<Rightarrow> NodeInfo list \<Rightarrow> ('e, Resp option, Resp list) fan" where
  "read_fan rc key R remotes =
     \<lparr>fan_call = (\<lambda>e p. case rc_read rc e p key of (rr, e) \<Rightarrow> (read_resp p rr, e)),
      fan_record = (\<lambda>r responses. case r of None \<Rightarrow> responses | Some r \<Rightarrow> responses @ [r]),
      fan_enough = (\<lambda>responses. int (length responses) \<ge> R), fan_remotes = remotes\<rparr>"

section \<open>Invariant\<close>

fun call_all :: "('e \<Rightarrow> NodeInfo \<Rightarrow> 'r \<times> 'e) \<Rightarrow> NodeInfo list \<Rightarrow> 'e \<Rightarrow> 'r list \<times> 'e" where
  "call_all f [] e = ([], e)"
| "call_all f (p # ps) e = (case f e p of (r, e) \<Rightarrow> case call_all f ps e of (rs, e) \<Rightarrow> (r # rs, e))"

lemma call_all_append:
  "call_all f (ps @ qs) e = (case call_all f ps e of (rs, e) \<Rightarrow> case call_all f qs e of (rs', e) \<Rightarrow> (rs @ rs', e))"
  by (induction ps arbitrary: e) (simp_all split: prod.splits)

text \<open>The results recorded at the positions \<open>js\<close>, folded into the accumulator.\<close>

definition recorded :: "('e, 'r, 'a) fan \<Rightarrow> 'r list \<Rightarrow> nat list \<Rightarrow> 'a \<Rightarrow> 'a" where
  "recorded F rs js acc = fold (fan_record F) (map ((!) rs) js) acc"

definition live_workers :: "'r worker_state list \<Rightarrow> nat" where
  "live_workers ws = length (filter (\<lambda>w. w \<noteq> Finished) ws)"

definition calls_inv :: "('e, 'r, 'a) fan \<Rightarrow> 'e \<Rightarrow> ('e, 'r, 'a) fan_state \<Rightarrow> bool" where
  "calls_inv F e s \<longleftrightarrow>
     call_all (fan_call F) (map ((!) (fan_remotes F)) (fs_called s)) e = (fs_results s, fs_env s) \<and>
     length (fs_workers s) \<le> length (fan_remotes F) \<and>
     distinct (fs_called s) \<and> length (fs_results s) = length (fs_called s) \<and>
     (\<forall>i. i \<in> set (fs_called s) \<longleftrightarrow> i < length (fs_workers s) \<and> fs_workers s ! i \<noteq> Started)"

definition records_inv :: "('e, 'r, 'a) fan \<Rightarrow> 'a \<Rightarrow> ('e, 'r, 'a) fan_state \<Rightarrow> bool" where
  "records_inv F acc s \<longleftrightarrow>
     distinct (fs_recorded s) \<and> set (fs_recorded s) \<subseteq> {..<length (fs_results s)} \<and>
     (\<forall>i j r. i < length (fs_workers s) \<and> fs_workers s ! i = Answered j r \<longrightarrow>
        j < length (fs_results s) \<and> fs_results s ! j = r \<and> fs_called s ! j = i \<and> j \<notin> set (fs_recorded s)) \<and>
     fs_acc s = recorded F (fs_results s) (fs_recorded s) acc"

definition snapshot_inv :: "('e, 'r, 'a) fan \<Rightarrow> 'a \<Rightarrow> ('e, 'r, 'a) fan_state \<Rightarrow> bool" where
  "snapshot_inv F acc s \<longleftrightarrow>
     (\<forall>a. fs_snapshot s = Some a \<longrightarrow>
        length (fs_workers s) = length (fan_remotes F) \<and>
        (\<exists>n \<le> length (fs_recorded s). a = recorded F (fs_results s) (take n (fs_recorded s)) acc))"

definition count_inv :: "('e, 'r, 'a) fan_state \<Rightarrow> bool" where
  "count_inv s \<longleftrightarrow> fs_outstanding s = int (live_workers (fs_workers s))"

lemma calls_inv_step:
  assumes "fan_step F s s'" "calls_inv F e s"
  shows "calls_inv F e s'"
  using assms(1)
proof cases
  case (remote_call i r e1)
  have "i \<notin> set (fs_called s)" using assms(2) remote_call(3) by (simp add: calls_inv_def)
  moreover have "j \<in> set (fs_called s) \<or> j = i \<longleftrightarrow>
      j < length (fs_workers s) \<and> (fs_workers s)[i := Answered (length (fs_results s)) r] ! j \<noteq> Started" for j
    using assms(2) remote_call(2,3) by (auto simp: calls_inv_def nth_list_update)
  ultimately show ?thesis
    using assms(2) remote_call by (auto simp: calls_inv_def call_all_append)
next
  case (record_result i j r)
  then show ?thesis using assms(2) by (auto simp: calls_inv_def nth_list_update)
next
  case (finish i)
  then show ?thesis using assms(2) by (auto simp: calls_inv_def nth_list_update)
qed (use assms(2) in \<open>auto simp: calls_inv_def nth_append less_Suc_eq\<close>)

lemma recorded_more: "set js \<subseteq> {..<length rs} \<Longrightarrow> recorded F (rs @ [r]) js acc = recorded F rs js acc"
proof -
  assume "set js \<subseteq> {..<length rs}"
  then have "map ((!) (rs @ [r])) js = map ((!) rs) js" by (auto simp: nth_append)
  then show ?thesis by (simp only: recorded_def)
qed

lemma records_inv_step:
  assumes "fan_step F s s'" "calls_inv F e s" "records_inv F acc s"
  shows "records_inv F acc s'"
  using assms(1)
proof cases
  case spawnBackground
  then show ?thesis using assms(3) by (auto simp: records_inv_def nth_append split: if_splits)
next
  case (remote_call i r e1)
  then show ?thesis using assms(2,3)
    by (auto simp: records_inv_def calls_inv_def recorded_more nth_append nth_list_update split: if_splits
        intro: less_SucI)
next
  case (record_result i j r)
  have old: "k < length (fs_workers s) \<and> fs_workers s ! k = Answered l q \<longrightarrow>
      l < length (fs_results s) \<and> fs_results s ! l = q \<and> fs_called s ! l = k \<and> l \<notin> set (fs_recorded s)" for k l q
    using assms(3) by (simp add: records_inv_def)
  have j: "j < length (fs_results s)" "fs_results s ! j = r" "fs_called s ! j = i" "j \<notin> set (fs_recorded s)"
    using old [of i j r] record_result(2,3) by simp_all
  have "l < length (fs_results s) \<and> fs_results s ! l = q \<and> fs_called s ! l = k \<and> l \<notin> set (fs_recorded s @ [j])"
    if "k < length (fs_workers s)" "(fs_workers s)[i := Recorded] ! k = Answered l q" for k l q
    using old [of k l q] that j(3) record_result(2) by (cases "k = i") auto
  then show ?thesis
    using assms(3) j record_result(1) by (simp add: records_inv_def recorded_def, blast)
next
  case (finish i)
  then show ?thesis using assms(3) by (auto simp: records_inv_def nth_list_update split: if_splits)
qed (use assms(3) in \<open>auto simp: records_inv_def\<close>)

lemma snapshot_inv_step:
  assumes step: "fan_step F s s'" and rec: "records_inv F acc s" and snap: "snapshot_inv F acc s"
  shows "snapshot_inv F acc s'"
  using step
proof cases
  case (remote_call i r e1)
  have "recorded F (fs_results s @ [r]) (take n (fs_recorded s)) acc = recorded F (fs_results s) (take n (fs_recorded s)) acc" for n
    using rec set_take_subset by (intro recorded_more) (fastforce simp: records_inv_def)
  then show ?thesis using snap remote_call(1) by (auto simp: snapshot_inv_def)
next
  case (record_result i j r)
  have "\<exists>m \<le> Suc (length (fs_recorded s)). recorded F rs (take n (fs_recorded s)) acc =
      recorded F rs (take m (fs_recorded s @ [j])) acc" if "n \<le> length (fs_recorded s)" for n rs
    using that by (intro exI [of _ n]) simp
  then show ?thesis using snap record_result(1) by (fastforce simp: snapshot_inv_def)
next
  case wake
  then show ?thesis using rec by (auto simp: snapshot_inv_def records_inv_def intro!: exI [of _ "length (fs_recorded s)"])
qed (use snap in \<open>auto simp: snapshot_inv_def\<close>)

lemma live_update:
  "i < length (ws :: 'a worker_state list) \<Longrightarrow> int (live_workers (ws[i := w])) =
     int (live_workers ws) - (if ws ! i = Finished then 0 else 1) + (if w = Finished then 0 else 1)"
proof -
  assume i: "i < length ws"
  have split: "live_workers (xs @ x # ys) = live_workers xs + (if x = Finished then 0 else 1) + live_workers ys"
    for xs ys :: "'a worker_state list" and x
    by (simp add: live_workers_def)
  have "live_workers ws = live_workers (take i ws @ ws ! i # drop (Suc i) ws)"
    using id_take_nth_drop [OF i] by simp
  then show ?thesis
    unfolding upd_conv_take_nth_drop [OF i] split by simp
qed

lemma count_inv_step: "fan_step F s s' \<Longrightarrow> count_inv s \<Longrightarrow> count_inv s'"
  by (induction rule: fan_step.induct) (auto simp: count_inv_def live_update, simp add: live_workers_def)

lemma fan_invs:
  assumes "(fan_step F)\<^sup>*\<^sup>* (fan_init acc e) s"
  shows "calls_inv F e s \<and> records_inv F acc s \<and> snapshot_inv F acc s \<and> count_inv s"
  using assms
proof (induction rule: rtranclp_induct)
  case base
  show ?case
    by (simp add: fan_init_def calls_inv_def records_inv_def snapshot_inv_def count_inv_def recorded_def live_workers_def)
next
  case (step s s')
  then show ?case
    using calls_inv_step records_inv_step snapshot_inv_step count_inv_step by metis
qed

section \<open>Every run is a fan-out of the model\<close>

lemma live_zero: "live_workers ws = 0 \<longleftrightarrow> (\<forall>w \<in> set ws. w = Finished)"
  by (simp add: live_workers_def filter_empty_conv)

definition run_order :: "('e, 'r, 'a) fan \<Rightarrow> ('e, 'r, 'a) fan_state \<Rightarrow> nat \<Rightarrow> fanout" where
  "run_order F s n =
     \<lparr>fo_order = (\<lambda>rs. if rs = fan_remotes F then map ((!) rs) (fs_called s) else rs),
      fo_seen = take n (fs_recorded s)\<rparr>"

lemma mset_nths: "\<lbrakk> distinct is; set is = {..<length xs} \<rbrakk> \<Longrightarrow> mset (map ((!) xs) is) = mset xs"
proof -
  assume "distinct is" "set is = {..<length xs}"
  then have "mset is = mset [0..<length xs]"
    by (metis distinct_upt lessThan_atLeast0 set_eq_iff_mset_eq_distinct set_upt)
  then have "mset (map ((!) xs) is) = mset (map ((!) xs) [0..<length xs])" by (metis mset_map)
  then show ?thesis by (simp add: map_nth)
qed

lemma fan_outcome:
  assumes run: "(fan_step F)\<^sup>*\<^sup>* (fan_init acc e) s" and snap: "fs_snapshot s = Some a" and "drained s"
  shows "\<exists>fo. fair fo \<and> call_all (fan_call F) (fo_order fo (fan_remotes F)) e = (fs_results s, fs_env s) \<and>
    a = fold (fan_record F) (snapshot fo (fs_results s)) acc"
proof -
  have inv: "calls_inv F e s" "records_inv F acc s" "snapshot_inv F acc s" "count_inv s"
    using fan_invs [OF run] by simp_all
  obtain n where len: "length (fs_workers s) = length (fan_remotes F)"
    and n: "a = recorded F (fs_results s) (take n (fs_recorded s)) acc"
    using inv(3) snap by (auto simp: snapshot_inv_def)
  have "i < length (fs_workers s) \<Longrightarrow> fs_workers s ! i = Finished" for i
    using inv(4) assms(3) by (simp add: count_inv_def drained_def live_zero)
  then have called: "distinct (fs_called s)" "set (fs_called s) = {..<length (fan_remotes F)}"
    using inv(1) len by (auto simp: calls_inv_def)
  let ?fo = "run_order F s n"
  have "fair ?fo" using mset_nths [OF called] by (simp add: fair_def run_order_def)
  moreover have "call_all (fan_call F) (fo_order ?fo (fan_remotes F)) e = (fs_results s, fs_env s)"
    using inv(1) by (simp add: calls_inv_def run_order_def)
  moreover have js: "distinct (take n (fs_recorded s))" "set (take n (fs_recorded s)) \<subseteq> {..<length (fs_results s)}"
    using inv(2) set_take_subset [of n "fs_recorded s"] by (auto simp: records_inv_def)
  then have "filter (\<lambda>j. j < length (fs_results s)) (remdups (take n (fs_recorded s))) = take n (fs_recorded s)"
    unfolding distinct_remdups_id [OF js(1)] by (intro filter_True) auto
  then have "a = fold (fan_record F) (snapshot ?fo (fs_results s)) acc"
    using n unfolding recorded_def snapshot_def run_order_def by simp
  ultimately show ?thesis by blast
qed

lemma call_all_writes: "call_all (fan_call (write_fan rc key vv W rs)) ps e = send_writes rc key vv ps e"
  by (induction ps arbitrary: e) (simp_all add: write_fan_def)

lemma fold_acks: "fold (fan_record (write_fan rc key vv W rs)) oks n = n + int (length (filter id oks))"
  by (induction oks arbitrary: n) (simp_all add: write_fan_def)

lemma call_all_reads: "call_all (fan_call (read_fan rc key R rs)) ps e = send_reads rc key ps e"
  by (induction ps arbitrary: e) (simp_all add: read_fan_def read_resp_def split: prod.split)

lemma fold_responses: "fold (fan_record (read_fan rc key R rs)) xs acc = acc @ List.map_filter id xs"
  by (induction xs arbitrary: acc) (auto simp: read_fan_def List.map_filter_def split: option.split)

lemma fan_remotes_simps [simp]:
  "fan_remotes (write_fan rc key vv W rs) = rs" "fan_remotes (read_fan rc key R rs) = rs"
  by (simp_all add: write_fan_def read_fan_def)

section \<open>Progress\<close>

text \<open>How many steps a worker still has to take.\<close>

fun worker_steps :: "'r worker_state \<Rightarrow> nat" where
  "worker_steps Started = 3"
| "worker_steps (Answered j r) = 2"
| "worker_steps Recorded = 1"
| "worker_steps Finished = 0"

definition work_left :: "('e, 'r, 'a) fan_state \<Rightarrow> nat" where
  "work_left s = sum_list (map worker_steps (fs_workers s))"

lemma work_update:
  assumes "i < length ws"
  shows "sum_list (map worker_steps (ws[i := w])) + worker_steps (ws ! i) = sum_list (map worker_steps ws) + worker_steps w"
proof -
  have "ws = take i ws @ ws ! i # drop (Suc i) ws" using id_take_nth_drop [OF assms] .
  then have "sum_list (map worker_steps ws) = sum_list (map worker_steps (take i ws @ ws ! i # drop (Suc i) ws))" by simp
  then show ?thesis unfolding upd_conv_take_nth_drop [OF assms] by simp
qed

lemma worker_progress:
  assumes "i < length (fs_workers s)" "fs_workers s ! i \<noteq> Finished"
  shows "\<exists>s'. fan_step F s s' \<and> work_left s' < work_left s"
proof (cases "fs_workers s ! i")
  case Started
  obtain r e where "fan_call F (fs_env s) (fan_remotes F ! i) = (r, e)" by fastforce
  from fan_step.remote_call [OF assms(1) Started this]
  show ?thesis using work_update [OF assms(1), of "Answered (length (fs_results s)) r"] Started
    by (force simp: work_left_def)
next
  case (Answered j r)
  from fan_step.record_result [OF assms(1) Answered, of F]
  show ?thesis using work_update [OF assms(1), of Recorded] Answered by (force simp: work_left_def)
next
  case Recorded
  from fan_step.finish [OF assms(1) Recorded, of F]
  show ?thesis using work_update [OF assms(1), of Finished] Recorded by (force simp: work_left_def)
qed (use assms(2) in simp)

definition todo :: "('e, 'r, 'a) fan \<Rightarrow> ('e, 'r, 'a) fan_state \<Rightarrow> nat" where
  "todo F s = 4 * (length (fan_remotes F) - length (fs_workers s)) + work_left s"

lemma fan_step_workers: "fan_step F s s' \<Longrightarrow> length (fs_workers s) \<le> length (fs_workers s')"
  by (induction rule: fan_step.induct) simp_all

lemma fan_progress:
  fixes s :: "('a, 'b, 'c) fan_state"
  assumes "todo F s > 0"
  shows "\<exists>s'. fan_step F s s' \<and> todo F s' < todo F s"
proof (cases "length (fs_workers s) < length (fan_remotes F)")
  case True
  then have "todo F (s\<lparr>fs_workers := fs_workers s @ [Started], fs_outstanding := fs_outstanding s + 1\<rparr>) < todo F s"
    by (simp add: todo_def work_left_def)
  with fan_step.spawnBackground [OF True] show ?thesis by blast
next
  case False
  then have "work_left s > 0" using assms by (simp add: todo_def)
  moreover have "\<forall>w \<in> set ws. w = Finished \<Longrightarrow> sum_list (map worker_steps ws) = 0" for ws :: "'b worker_state list"
    by (induction ws) auto
  ultimately have "\<not> (\<forall>w \<in> set (fs_workers s). w = Finished)"
    unfolding work_left_def by (metis less_not_refl)
  then obtain i where "i < length (fs_workers s)" "fs_workers s ! i \<noteq> Finished"
    by (metis in_set_conv_nth)
  from worker_progress [OF this] obtain s' where "fan_step F s s'" "work_left s' < work_left s" by blast
  with False fan_step_workers show ?thesis by (fastforce simp: todo_def)
qed

lemma fan_finishes: "\<exists>s'. (fan_step F)\<^sup>*\<^sup>* s s' \<and> todo F s' = 0"
proof (induction "todo F s" arbitrary: s rule: less_induct)
  case less
  show ?case
  proof (cases "todo F s = 0")
    case False
    then obtain s1 where s1: "fan_step F s s1" "todo F s1 < todo F s" using fan_progress by blast
    from less [OF s1(2)] obtain s' where "(fan_step F)\<^sup>*\<^sup>* s1 s'" "todo F s' = 0" by blast
    with s1(1) show ?thesis by (meson converse_rtranclp_into_rtranclp)
  qed blast
qed

lemma todo_zero:
  assumes "todo F s = 0" "length (fs_workers s) \<le> length (fan_remotes F)"
  shows "length (fs_workers s) = length (fan_remotes F) \<and> (\<forall>w \<in> set (fs_workers s). w = Finished)"
proof -
  have "w = Finished" if "worker_steps w = 0" for w :: "'x worker_state" using that by (cases w) simp_all
  then show ?thesis using assms by (auto simp: todo_def work_left_def)
qed

lemma drained_exact:
  assumes "(fan_step F)\<^sup>*\<^sup>* (fan_init acc e) s"
  shows "drained s \<longleftrightarrow> (\<forall>w \<in> set (fs_workers s). w = Finished)" "length (fs_workers s) \<le> length (fan_remotes F)"
  using fan_invs [OF assms] by (simp_all add: drained_def count_inv_def live_zero calls_inv_def)

lemma fan_completes:
  assumes "(fan_step F)\<^sup>*\<^sup>* (fan_init acc e) s"
  shows "\<exists>s'. (fan_step F)\<^sup>*\<^sup>* s s' \<and> drained s' \<and> fs_snapshot s' \<noteq> None \<and>
    length (fs_workers s') = length (fan_remotes F)"
proof -
  obtain t where t: "(fan_step F)\<^sup>*\<^sup>* s t" "todo F t = 0" using fan_finishes by blast
  have "(fan_step F)\<^sup>*\<^sup>* (fan_init acc e) t" using assms t(1) by simp
  note exact = drained_exact [OF this]
  have fin: "length (fs_workers t) = length (fan_remotes F)" "drained t"
    using todo_zero [OF t(2) exact(2)] exact(1) by auto
  have "\<exists>s'. (fan_step F)\<^sup>*\<^sup>* t s' \<and> drained s' \<and> fs_snapshot s' \<noteq> None \<and> length (fs_workers s') = length (fan_remotes F)"
  proof (cases "fs_snapshot t")
    case None
    let ?d = "t\<lparr>fs_deadline := True\<rparr>"
    have "fan_step F t ?d" by (rule fan_step.deadline)
    moreover have "fan_step F ?d (?d\<lparr>fs_snapshot := Some (fs_acc ?d)\<rparr>)"
      using fin(1) None by (intro fan_step.wake) simp_all
    ultimately have "(fan_step F)\<^sup>*\<^sup>* t (?d\<lparr>fs_snapshot := Some (fs_acc ?d)\<rparr>)"
      by (rule converse_rtranclp_into_rtranclp [OF _ r_into_rtranclp])
    moreover have "drained (?d\<lparr>fs_snapshot := Some (fs_acc ?d)\<rparr>)" using fin(2) by (simp add: drained_def)
    ultimately show ?thesis
      using fin(1) by (intro exI [of _ "?d\<lparr>fs_snapshot := Some (fs_acc ?d)\<rparr>"]) simp
  qed (use fin in blast)
  then show ?thesis using t(1) by (meson rtranclp_trans)
qed

lemma complete_run:
  obtains s a where "(fan_step F)\<^sup>*\<^sup>* (fan_init acc e) s" "fs_snapshot s = Some a" "drained s"
proof -
  from fan_completes [OF rtranclp.rtrancl_refl, of F acc e] obtain s where
    "(fan_step F)\<^sup>*\<^sup>* (fan_init acc e) s \<and> drained s \<and> fs_snapshot s \<noteq> None \<and>
     length (fs_workers s) = length (fan_remotes F)" ..
  then show thesis using that [of s] by (cases "fs_snapshot s") simp_all
qed

section \<open>Properties\<close>

lemma ex_owners: "\<exists>owners. Router_findOwners ex_router3 ''k'' 3 = Some owners \<and> owners \<noteq> []"
proof -
  obtain owners where o: "Router_findOwners ex_router3 ''k'' 3 = Some owners"
    using findOwners_pref [OF ex_router3_ok(1)] by blast
  have "length (pref_list ex_router3 ''k'') = 3"
    using length_pref_list [OF ex_router3_ok(1)] by (simp add: ex_router3_def)
  then have "map node_id owners = pref_list ex_router3 ''k''"
    using findOwners_facts(1) [OF ex_router3_ok(1) o] by simp
  then have "length owners = 3" using \<open>length (pref_list ex_router3 ''k'') = 3\<close> by (metis length_map)
  with o show ?thesis by auto
qed

text \<open>C11: the threads of a quorum write implement the quorum write of the model.  However the
  coordinating thread, the workers and the deadline interleave, once the workers are done the
  outcome is the one of \<open>Coordinator_writeQuorum\<close> for some order of the calls and some set of
  recorded results: the same effects on the replicas, and success exactly if the snapshot had
  \<open>W\<close> acknowledgements.\<close>

theorem write_threads_refine:
  assumes "Router_findOwners (c_router c) key N = Some owners" "owners \<noteq> []"
    and "write_plan now key vv owners c = (c1, localAcks, remotes)"
    and "(fan_step (write_fan rc key vv W remotes))\<^sup>*\<^sup>* (fan_init localAcks e) s"
    and "fs_snapshot s = Some finalAcks" "drained s"
  shows "\<exists>fo pr c'. fair fo \<and> Coordinator_writeQuorum rc fo now key vv N W op c e = Some (pr, c', fs_env s) \<and>
    (pr_ok pr \<longleftrightarrow> finalAcks \<ge> W)"
proof -
  obtain fo where fo: "fair fo" "send_writes rc key vv (fo_order fo remotes) e = (fs_results s, fs_env s)"
    "finalAcks = localAcks + int (length (filter id (snapshot fo (fs_results s))))"
    using fan_outcome [OF assms(4-6)] by (auto simp: call_all_writes fold_acks)
  obtain pr c' e' where w: "Coordinator_writeQuorum rc fo now key vv N W op c e = Some (pr, c', e')"
    using writeQuorum_returns [OF assms(1)] by (metis not_Some_eq prod_cases3)
  note res = writeQuorum_cases [OF w assms(1-3) fo(2)]
  have "e' = fs_env s" "pr_ok pr \<longleftrightarrow> finalAcks \<ge> W" using res fo(3) by simp_all
  with w fo(1) show ?thesis by (intro exI conjI) simp_all
qed

theorem write_threads_refine_witness:
  "\<exists>owners c1 n rs s fo pr c'. Router_findOwners ex_router3 ''k'' 3 = Some owners \<and>
    write_plan 5 ''k'' ex_new owners (ex_writer None) = (c1, n, rs) \<and>
    (fan_step (write_fan (ex_client True) ''k'' ex_new 2 rs))\<^sup>*\<^sup>* (fan_init n ()) s \<and> fair fo \<and>
    Coordinator_writeQuorum (ex_client True) fo 5 ''k'' ex_new 3 2 Op.Put (ex_writer None) () = Some (pr, c', fs_env s)"
proof -
  have r: "c_router (ex_writer None) = ex_router3" by (simp add: ex_writer_def)
  obtain owners where o: "Router_findOwners (c_router (ex_writer None)) ''k'' 3 = Some owners" "owners \<noteq> []"
    using ex_owners unfolding r by blast
  obtain c1 n rs where plan: "write_plan 5 ''k'' ex_new owners (ex_writer None) = (c1, n, rs)" by (rule prod_cases3)
  obtain s a where s: "(fan_step (write_fan (ex_client True) ''k'' ex_new 2 rs))\<^sup>*\<^sup>* (fan_init n ()) s"
    "fs_snapshot s = Some a" "drained s"
    by (rule complete_run)
  from write_threads_refine [OF o plan s, of Op.Put] obtain fo pr c' where q: "fair fo"
    "Coordinator_writeQuorum (ex_client True) fo 5 ''k'' ex_new 3 2 Op.Put (ex_writer None) () = Some (pr, c', fs_env s)"
    by iprover
  have "Router_findOwners ex_router3 ''k'' 3 = Some owners" using o(1) unfolding r .
  with plan s(1) q show ?thesis by iprover
qed

text \<open>C12: the threads of a quorum read implement the quorum read of the model in the same sense: the
  read fails exactly if the snapshot had fewer than \<open>R\<close> responses, and otherwise answers from the
  maximal versions of the responses in the snapshot.\<close>

theorem read_threads_refine:
  assumes "Router_findOwners (c_router c) key N = Some owners" "owners \<noteq> []"
    and "read_plan c key owners = (localResps, remotes)"
    and "(fan_step (read_fan rc key R remotes))\<^sup>*\<^sup>* (fan_init localResps e) s"
    and "fs_snapshot s = Some responses" "drained s"
  shows "\<exists>fo gr c' e'. fair fo \<and> Coordinator_coordinateGet rc fo key N R c e = Some (gr, c', e') \<and>
    (gr_status gr = ERROR \<longleftrightarrow> int (length responses) < R) \<and>
    (gr_status gr = SIBLINGS \<or> gr_status gr = OK \<longrightarrow> gr_values gr = maximalVersions responses)"
proof -
  obtain fo where fo: "fair fo" "send_reads rc key (fo_order fo remotes) e = (fs_results s, fs_env s)"
    "responses = localResps @ List.map_filter id (snapshot fo (fs_results s))"
    using fan_outcome [OF assms(4-6)] by (auto simp: call_all_reads fold_responses)
  have single: "[hd xs] = xs" if "xs \<noteq> []" "\<not> length xs > 1" for xs :: "VersionedValue list"
    using that by (cases xs) auto
  show ?thesis
    using assms(1-3) fo single
    by (intro exI [of _ fo])
      (auto simp: Coordinator_coordinateGet_def Let_def split: prod.splits)
qed

theorem read_threads_refine_witness:
  "\<exists>owners ls rs s fo gr c' e'. Router_findOwners ex_router3 ''k'' 3 = Some owners \<and>
    read_plan (ex_writer None) ''k'' owners = (ls, rs) \<and>
    (fan_step (read_fan (ex_client True) ''k'' 2 rs))\<^sup>*\<^sup>* (fan_init ls ()) s \<and> fair fo \<and>
    Coordinator_coordinateGet (ex_client True) fo ''k'' 3 2 (ex_writer None) () = Some (gr, c', e')"
proof -
  have r: "c_router (ex_writer None) = ex_router3" by (simp add: ex_writer_def)
  obtain owners where o: "Router_findOwners (c_router (ex_writer None)) ''k'' 3 = Some owners" "owners \<noteq> []"
    using ex_owners unfolding r by blast
  obtain ls rs where plan: "read_plan (ex_writer None) ''k'' owners = (ls, rs)" by fastforce
  obtain s a where s: "(fan_step (read_fan (ex_client True) ''k'' 2 rs))\<^sup>*\<^sup>* (fan_init ls ()) s"
    "fs_snapshot s = Some a" "drained s"
    by (rule complete_run)
  from read_threads_refine [OF o plan s] obtain fo gr c' e' where q: "fair fo"
    "Coordinator_coordinateGet (ex_client True) fo ''k'' 3 2 (ex_writer None) () = Some (gr, c', e')"
    by iprover
  have "Router_findOwners ex_router3 ''k'' 3 = Some owners" using o(1) unfolding r .
  with plan s(1) q show ?thesis by iprover
qed

text \<open>C13: a fan-out always completes and the destructor of the coordinator waits for exactly the
  threads that were started.  From every reachable state there is a continuation in which every
  worker is started and finished and the coordinating thread has its snapshot; and the count of
  outstanding threads is zero exactly when all started workers are finished.\<close>

theorem fan_out_completes:
  assumes "(fan_step F)\<^sup>*\<^sup>* (fan_init acc e) s"
  shows "(drained s \<longleftrightarrow> (\<forall>w \<in> set (fs_workers s). w = Finished)) \<and>
    (\<exists>s'. (fan_step F)\<^sup>*\<^sup>* s s' \<and> drained s' \<and> fs_snapshot s' \<noteq> None \<and>
       length (fs_workers s') = length (fan_remotes F))"
  using drained_exact [OF assms] fan_completes [OF assms] by blast

theorem fan_out_completes_witness:
  "\<exists>s'. (fan_step (write_fan (ex_client True) ''k'' ex_new 2 [ex_n3]))\<^sup>*\<^sup>* (fan_init 1 ()) s' \<and> drained s' \<and>
    length (fs_workers s') = 1"
  using fan_out_completes [OF rtranclp.rtrancl_refl, where F = "write_fan (ex_client True) ''k'' ex_new 2 [ex_n3]"
      and acc = 1 and e = "()"] by auto

end
