(* ===== verification/Member_Event.thy ===== *)
theory Member_Event
  imports Util
begin

text \<open>
  gossip/member_event.h and member_event.cpp: membership events and their text form
  \<open>TYPE:node_id:host:port:incarnation\<close>, joined with \<open>;\<close>.  A type byte outside the five of
  the enum is kept (\<open>static_cast<EventType>\<close> accepts any \<open>char\<close>) and matches no handler.
\<close>

datatype EventType = Join | Suspect | Dead | Leave | Alive | Other char

fun type_char :: "EventType \<Rightarrow> char" where
  "type_char EventType.Join = CHR ''J''"
| "type_char EventType.Suspect = CHR ''S''"
| "type_char EventType.Dead = CHR ''D''"
| "type_char EventType.Leave = CHR ''L''"
| "type_char EventType.Alive = CHR ''A''"
| "type_char (EventType.Other c) = c"

definition type_of_char :: "char \<Rightarrow> EventType" where
  "type_of_char c =
     (if c = CHR ''J'' then EventType.Join
      else if c = CHR ''S'' then EventType.Suspect
      else if c = CHR ''D'' then EventType.Dead
      else if c = CHR ''L'' then EventType.Leave
      else if c = CHR ''A'' then EventType.Alive
      else EventType.Other c)"

record MemberEvent =
  ev_type :: EventType
  ev_node_id :: string
  ev_host :: string
  ev_port :: u16
  ev_incarnation :: u64

definition MemberEvent_default :: MemberEvent where
  "MemberEvent_default =
     \<lparr>ev_type = EventType.Alive, ev_node_id = [], ev_host = [], ev_port = 0, ev_incarnation = 0\<rparr>"

definition MemberEvent_serialize :: "MemberEvent \<Rightarrow> string" where
  "MemberEvent_serialize e =
     [type_char (ev_type e)] @ '':'' @ ev_node_id e @ '':'' @ ev_host e @ '':'' @
     dec_word (ev_port e) @ '':'' @ dec_word (ev_incarnation e)"

definition MemberEvent_deserialize :: "string \<Rightarrow> MemberEvent" where
  "MemberEvent_deserialize s =
     (if length s < 3 \<or> s ! 1 \<noteq> CHR '':'' then MemberEvent_default
      else
        let e = MemberEvent_default\<lparr>ev_type := type_of_char (s ! 0)\<rparr>; r = drop 2 s
        in case str_find (CHR '':'') r of
             None \<Rightarrow> e
           | Some p \<Rightarrow>
               let e = e\<lparr>ev_node_id := take p r\<rparr>; r = drop (Suc p) r
               in case str_find (CHR '':'') r of
                    None \<Rightarrow> e
                  | Some p \<Rightarrow>
                      let e = e\<lparr>ev_host := take p r\<rparr>; r = drop (Suc p) r
                      in case str_find (CHR '':'') r of
                           None \<Rightarrow> e
                         | Some p \<Rightarrow>
                             e\<lparr>ev_port := (case stoi (take p r) of None \<Rightarrow> 0 | Some i \<Rightarrow> u16_of_int i),
                               ev_incarnation :=
                                 (case stoull (drop (Suc p) r) of None \<Rightarrow> 0 | Some i \<Rightarrow> i)\<rparr>)"

definition serializeEvents :: "MemberEvent list \<Rightarrow> string" where
  "serializeEvents events = join (CHR '';'') (map MemberEvent_serialize events)"

definition deserializeEvents :: "string \<Rightarrow> MemberEvent list" where
  "deserializeEvents s =
     (if s = [] then []
      else map MemberEvent_deserialize (filter (\<lambda>t. t \<noteq> []) (splitAll s (CHR '';''))))"

text \<open>The events that the text form carries faithfully.\<close>

definition ev_ok :: "MemberEvent \<Rightarrow> bool" where
  "ev_ok e \<longleftrightarrow> type_of_char (type_char (ev_type e)) = ev_type e \<and> type_char (ev_type e) \<noteq> CHR '';'' \<and>
     CHR '':'' \<notin> set (ev_node_id e) \<and> CHR '';'' \<notin> set (ev_node_id e) \<and>
     CHR '':'' \<notin> set (ev_host e) \<and> CHR '';'' \<notin> set (ev_host e)"

section \<open>Round trip\<close>

lemma event_roundtrip [codec_simps]:
  assumes "ev_ok e"
  shows "MemberEvent_deserialize (MemberEvent_serialize e) = e"
proof -
  have id: "CHR '':'' \<notin> set (ev_node_id e)" "CHR '':'' \<notin> set (ev_host e)"
    and ty: "type_of_char (type_char (ev_type e)) = ev_type e"
    using assms by (auto simp: ev_ok_def)
  have s: "MemberEvent_serialize e = type_char (ev_type e) # CHR '':'' #
      (ev_node_id e @ CHR '':'' # ev_host e @ CHR '':'' # dec_word (ev_port e) @ CHR '':'' #
       dec_word (ev_incarnation e))"
    by (simp add: MemberEvent_serialize_def)
  show ?thesis
    using id ty unfolding MemberEvent_deserialize_def s
    by (simp add: Let_def MemberEvent_default_def)
qed

lemma event_token: "ev_ok e \<Longrightarrow> MemberEvent_serialize e \<noteq> [] \<and> CHR '';'' \<notin> set (MemberEvent_serialize e)"
  by (auto simp: MemberEvent_serialize_def ev_ok_def)

lemma events_roundtrip [codec_simps]:
  assumes "\<forall>e \<in> set es. ev_ok e"
  shows "deserializeEvents (serializeEvents es) = es"
proof (cases "es = []")
  case True
  then show ?thesis by (simp add: serializeEvents_def deserializeEvents_def)
next
  case False
  let ?ts = "map MemberEvent_serialize es"
  have ts: "\<forall>t \<in> set ?ts. t \<noteq> [] \<and> CHR '';'' \<notin> set t"
    using assms event_token by auto
  have "join (CHR '';'') ?ts \<noteq> []"
    using False ts by (cases es) (auto simp: join_Nil_iff)
  moreover have "splitAll (join (CHR '';'') ?ts) (CHR '';'') = ?ts"
    using False ts by (intro splitAll_join) auto
  moreover have "filter (\<lambda>t. t \<noteq> []) ?ts = ?ts"
    using ts by (simp add: filter_id_conv)
  moreover have "map MemberEvent_deserialize ?ts = es"
    using assms by (simp add: event_roundtrip map_idI)
  ultimately show ?thesis
    by (simp only: serializeEvents_def deserializeEvents_def if_False)
qed

lemma events_bar_free:
  "\<forall>e \<in> set es. CHR ''|'' \<notin> set (ev_node_id e) \<and> CHR ''|'' \<notin> set (ev_host e) \<and>
      type_char (ev_type e) \<noteq> CHR ''|''
   \<Longrightarrow> CHR ''|'' \<notin> set (serializeEvents es)"
  unfolding serializeEvents_def
  by (rule join_clean) (auto simp: MemberEvent_serialize_def)

section \<open>Properties\<close>

text \<open>The gossip text form carries events whose ids pass the allow-list.  For every list of
  events of the protocol's types with valid node ids and hosts free of the delimiters, parsing
  the serialized list gives the same list in order.\<close>

theorem event_stream_roundtrip:
  assumes "\<forall>e \<in> set es. isValidNodeId (ev_node_id e) \<and>
      ev_type e \<in> {EventType.Join, EventType.Suspect, EventType.Dead, EventType.Leave, EventType.Alive} \<and>
      CHR '':'' \<notin> set (ev_host e) \<and> CHR '';'' \<notin> set (ev_host e)"
  shows "deserializeEvents (serializeEvents es) = es"
proof (rule events_roundtrip, rule ballI)
  fix e assume "e \<in> set es"
  with assms have e: "isValidNodeId (ev_node_id e)"
    "ev_type e \<in> {EventType.Join, EventType.Suspect, EventType.Dead, EventType.Leave, EventType.Alive}"
    "CHR '':'' \<notin> set (ev_host e)" "CHR '';'' \<notin> set (ev_host e)"
    by auto
  from isValidNodeId_clean [OF e(1)] e(2-4) show "ev_ok e"
    by (auto simp: ev_ok_def type_of_char_def)
qed

theorem event_stream_roundtrip_witness:
  "deserializeEvents (serializeEvents
     [\<lparr>ev_type = EventType.Alive, ev_node_id = ''n1'', ev_host = ''h'', ev_port = 80, ev_incarnation = 3\<rparr>]) =
     [\<lparr>ev_type = EventType.Alive, ev_node_id = ''n1'', ev_host = ''h'', ev_port = 80, ev_incarnation = 3\<rparr>]"
proof -
  have "isValidNodeId ''n1''" by code_simp
  then show ?thesis by (intro event_stream_roundtrip) simp
qed

text \<open>A host with a colon - an IPv6 literal - is not preserved: host and port read as empty.\<close>

lemma event_host_colon:
  "MemberEvent_deserialize (MemberEvent_serialize
     \<lparr>ev_type = EventType.Alive, ev_node_id = ''n1'', ev_host = ''::1'', ev_port = 80, ev_incarnation = 3\<rparr>) =
   \<lparr>ev_type = EventType.Alive, ev_node_id = ''n1'', ev_host = [], ev_port = 0, ev_incarnation = 1\<rparr>"
  by code_simp

end
