(* ===== verification/Swim.thy ===== *)
theory Swim
  imports Member_Event Complex_Main
begin

text \<open>
  gossip/swim.h and swim.cpp: the SWIM membership state machine of one node.  Each public
  method holds the mutex for its whole body, so it is one atomic operation on the state; the
  callbacks that it fires are returned in order.  The steady clock is an argument \<open>now\<close> in
  nanoseconds, and the shuffle of \<open>randomPeers\<close> is an argument.

  Shown below: the well-formedness invariant of the state, that \<open>Left\<close> is terminal and
  incarnations never fall, that relayed gossip cannot revive a node at an old incarnation,
  that a refutation beats what it refutes, and that the digest depends only on the view.
\<close>

unbundle bit_operations_syntax

datatype MemberState = Alive | Suspect | Dead | Left

record MemberEntry =
  info :: NodeInfo
  state :: MemberState
  incarnation :: u64
  suspect_since :: int

record PendingEvent =
  pe_event :: MemberEvent
  pe_remaining :: int

record Swim =
  self :: NodeInfo
  own_incarnation :: u64
  self_left :: bool
  suspicion_mult :: int
  members :: "(string, MemberEntry) omap"
  pending_events :: "PendingEvent list"

type_synonym callbacks = "(NodeInfo \<times> MemberState) list"

section \<open>Construction and dissemination\<close>

definition Swim_new :: "NodeInfo \<Rightarrow> int \<Rightarrow> Swim" where
  "Swim_new me m =
     \<lparr>self = me, own_incarnation = 0, self_left = False, suspicion_mult = m,
      members = [], pending_events = []\<rparr>"

text \<open>\<open>ceil (log2 k)\<close> for a positive integer.\<close>

fun ceil_log2 :: "nat \<Rightarrow> nat" where
  "ceil_log2 k = (if k \<le> 1 then 0 else Suc (ceil_log2 ((k + 1) div 2)))"

declare ceil_log2.simps [simp del]

definition Swim_disseminationLimit :: "Swim \<Rightarrow> int" where
  "Swim_disseminationLimit s =
     (let n = length (members s) + 1 in max 3 (3 * int (ceil_log2 (n + 1))))"

definition Swim_enqueueEvent :: "Swim \<Rightarrow> MemberEvent \<Rightarrow> Swim" where
  "Swim_enqueueEvent s ev =
     s\<lparr>pending_events :=
         pending_events s @ [\<lparr>pe_event = ev, pe_remaining = Swim_disseminationLimit s\<rparr>]\<rparr>"

definition Swim_getEventsToSend :: "Swim \<Rightarrow> MemberEvent list \<times> Swim" where
  "Swim_getEventsToSend s =
     (map pe_event (pending_events s),
      s\<lparr>pending_events :=
          filter (\<lambda>p. \<not> pe_remaining p \<le> 0)
            (map (\<lambda>p. p\<lparr>pe_remaining := pe_remaining p - 1\<rparr>) (pending_events s))\<rparr>)"

text \<open>The Alive event that a node broadcasts about itself.\<close>

definition self_alive :: "Swim \<Rightarrow> MemberEvent" where
  "self_alive s =
     \<lparr>ev_type = EventType.Alive, ev_node_id = node_id (self s), ev_host = host (self s),
      ev_port = port (self s), ev_incarnation = own_incarnation s\<rparr>"

text \<open>A Suspect, Dead or Leave event: host and port stay empty.\<close>

definition bare_event :: "EventType \<Rightarrow> string \<Rightarrow> u64 \<Rightarrow> MemberEvent" where
  "bare_event t i inc =
     \<lparr>ev_type = t, ev_node_id = i, ev_host = [], ev_port = 0, ev_incarnation = inc\<rparr>"

definition event_entry :: "MemberEvent \<Rightarrow> MemberState \<Rightarrow> MemberEntry" where
  "event_entry ev st =
     \<lparr>info = mkNodeInfo (ev_node_id ev) (ev_host ev) (ev_port ev), state = st,
      incarnation = ev_incarnation ev, suspect_since = 0\<rparr>"

definition put_member :: "Swim \<Rightarrow> string \<Rightarrow> MemberEntry \<Rightarrow> Swim" where
  "put_member s i e = s\<lparr>members := om_put i e (members s)\<rparr>"

definition refresh_address :: "MemberEvent \<Rightarrow> NodeInfo \<Rightarrow> NodeInfo" where
  "refresh_address ev n =
     (if ev_host ev \<noteq> [] then n\<lparr>host := ev_host ev, port := ev_port ev\<rparr> else n)"

section \<open>Applying events\<close>

definition apply_self :: "Swim \<Rightarrow> MemberEvent \<Rightarrow> bool \<times> callbacks \<times> Swim" where
  "apply_self s ev =
     (if ev_type ev = EventType.Leave then
        (if self_left s then (False, [], s)
         else (True, [(self s, MemberState.Left)], s\<lparr>self_left := True\<rparr>))
      else if ev_type ev = EventType.Suspect \<or> ev_type ev = EventType.Dead then
        (if ev_incarnation ev < own_incarnation s then (False, [], s)
         else let s = s\<lparr>own_incarnation := ev_incarnation ev + 1\<rparr>
              in (True, [], Swim_enqueueEvent s (self_alive s)))
      else (False, [], s))"

definition apply_alive :: "Swim \<Rightarrow> MemberEvent \<Rightarrow> bool \<times> callbacks \<times> Swim" where
  "apply_alive s ev =
     (case map_of (members s) (ev_node_id ev) of
        None \<Rightarrow>
          (let e = event_entry ev MemberState.Alive
           in (True, [(info e, MemberState.Alive)], put_member s (ev_node_id ev) e))
      | Some e \<Rightarrow>
          if state e = MemberState.Left then (False, [], s)
          else if ev_incarnation ev \<le> incarnation e then (False, [], s)
          else let e = e\<lparr>state := MemberState.Alive, incarnation := ev_incarnation ev,
                         info := refresh_address ev (info e)\<rparr>
               in (True, [(info e, MemberState.Alive)], put_member s (ev_node_id ev) e))"

definition apply_suspect :: "int \<Rightarrow> Swim \<Rightarrow> MemberEvent \<Rightarrow> bool \<times> callbacks \<times> Swim" where
  "apply_suspect now s ev =
     (case map_of (members s) (ev_node_id ev) of
        None \<Rightarrow> (False, [], s)
      | Some e \<Rightarrow>
          if ev_incarnation ev < incarnation e then (False, [], s)
          else if state e = MemberState.Dead then (False, [], s)
          else if state e = MemberState.Left then (False, [], s)
          else if state e = MemberState.Suspect \<and> ev_incarnation ev \<le> incarnation e
               then (False, [], s)
          else (True, [], put_member s (ev_node_id ev)
                  (e\<lparr>state := MemberState.Suspect, incarnation := ev_incarnation ev,
                     suspect_since := now\<rparr>)))"

definition apply_dead :: "Swim \<Rightarrow> MemberEvent \<Rightarrow> bool \<times> callbacks \<times> Swim" where
  "apply_dead s ev =
     (case map_of (members s) (ev_node_id ev) of
        None \<Rightarrow> (True, [], put_member s (ev_node_id ev) (event_entry ev MemberState.Dead))
      | Some e \<Rightarrow>
          if state e = MemberState.Dead then (False, [], s)
          else if state e = MemberState.Left then (False, [], s)
          else if ev_incarnation ev < incarnation e then (False, [], s)
          else (True, [(info e, MemberState.Dead)], put_member s (ev_node_id ev)
                  (e\<lparr>state := MemberState.Dead, incarnation := ev_incarnation ev\<rparr>)))"

definition apply_leave :: "Swim \<Rightarrow> MemberEvent \<Rightarrow> bool \<times> callbacks \<times> Swim" where
  "apply_leave s ev =
     (case map_of (members s) (ev_node_id ev) of
        None \<Rightarrow> (True, [], put_member s (ev_node_id ev) (event_entry ev MemberState.Left))
      | Some e \<Rightarrow>
          if state e = MemberState.Left then (False, [], s)
          else (True, [(info e, MemberState.Left)], put_member s (ev_node_id ev)
                  (e\<lparr>state := MemberState.Left\<rparr>)))"

definition Swim_applyEvent :: "int \<Rightarrow> Swim \<Rightarrow> MemberEvent \<Rightarrow> bool \<times> callbacks \<times> Swim" where
  "Swim_applyEvent now s ev =
     (if ev_node_id ev = node_id (self s) then apply_self s ev
      else case ev_type ev of
             EventType.Join \<Rightarrow> apply_alive s ev
           | EventType.Alive \<Rightarrow> apply_alive s ev
           | EventType.Suspect \<Rightarrow> apply_suspect now s ev
           | EventType.Dead \<Rightarrow> apply_dead s ev
           | EventType.Leave \<Rightarrow> apply_leave s ev
           | EventType.Other _ \<Rightarrow> (False, [], s))"

text \<open>\<open>applyDirectJoin\<close>: \<^const>\<open>None\<close> is the refusal of a departed node.\<close>

definition Swim_applyDirectJoin :: "Swim \<Rightarrow> MemberEvent \<Rightarrow> u64 option \<times> callbacks \<times> Swim" where
  "Swim_applyDirectJoin s ev =
     (if ev_node_id ev = node_id (self s) then (Some (own_incarnation s), [], s)
      else case map_of (members s) (ev_node_id ev) of
        None \<Rightarrow>
          (let e = event_entry ev MemberState.Alive
           in (Some (ev_incarnation ev), [(info e, MemberState.Alive)],
               put_member s (ev_node_id ev) e))
      | Some e \<Rightarrow>
          if state e = MemberState.Left then (None, [], s)
          else let eff = max (ev_incarnation ev) (incarnation e + 1);
                   changed = (state e \<noteq> MemberState.Alive);
                   e' = e\<lparr>state := MemberState.Alive, incarnation := eff,
                          info := refresh_address ev (info e)\<rparr>
               in (Some eff, if changed then [(info e', MemberState.Alive)] else [],
                   put_member s (ev_node_id ev) e'))"

section \<open>Local transitions\<close>

definition Swim_leave :: "Swim \<Rightarrow> string \<Rightarrow> callbacks \<times> Swim" where
  "Swim_leave s i =
     (if i = node_id (self s) then
        (if self_left s then ([], s)
         else ([(self s, MemberState.Left)],
               Swim_enqueueEvent (s\<lparr>self_left := True\<rparr>)
                 (bare_event EventType.Leave i (own_incarnation s))))
      else case map_of (members s) i of
        None \<Rightarrow> ([], s)
      | Some e \<Rightarrow>
          if state e = MemberState.Left then ([], s)
          else ([(info e, MemberState.Left)],
                Swim_enqueueEvent (put_member s i (e\<lparr>state := MemberState.Left\<rparr>))
                  (bare_event EventType.Leave i (incarnation e))))"

definition Swim_suspect :: "int \<Rightarrow> Swim \<Rightarrow> string \<Rightarrow> Swim" where
  "Swim_suspect now s i =
     (case map_of (members s) i of
        None \<Rightarrow> s
      | Some e \<Rightarrow>
          if state e \<noteq> MemberState.Alive then s
          else Swim_enqueueEvent
                 (put_member s i (e\<lparr>state := MemberState.Suspect, suspect_since := now\<rparr>))
                 (bare_event EventType.Suspect i (incarnation e)))"

definition Swim_confirmDead :: "Swim \<Rightarrow> string \<Rightarrow> callbacks \<times> Swim" where
  "Swim_confirmDead s i =
     (case map_of (members s) i of
        None \<Rightarrow> ([], s)
      | Some e \<Rightarrow>
          if state e = MemberState.Dead then ([], s)
          else if state e = MemberState.Left then ([], s)
          else ([(info e, MemberState.Dead)],
                Swim_enqueueEvent (put_member s i (e\<lparr>state := MemberState.Dead\<rparr>))
                  (bare_event EventType.Dead i (incarnation e))))"

definition Swim_refute :: "Swim \<Rightarrow> u64 \<times> Swim" where
  "Swim_refute s =
     (let s = s\<lparr>own_incarnation := own_incarnation s + 1\<rparr>
      in (own_incarnation s, Swim_enqueueEvent s (self_alive s)))"

text \<open>\<open>duration_cast<milliseconds>\<close> truncates towards zero.\<close>

definition to_ms :: "int \<Rightarrow> int" where
  "to_ms d = (if d < 0 then - (- d div 1000000) else d div 1000000)"

text \<open>A suspect whose suspicion is at least \<open>suspicion_timeout\<close> milliseconds old.\<close>

definition suspicion_expired :: "int \<Rightarrow> int \<Rightarrow> MemberEntry \<Rightarrow> bool" where
  "suspicion_expired now suspicion_timeout e \<longleftrightarrow>
     state e = MemberState.Suspect \<and>
     to_ms (now - suspect_since e) \<ge> suspicion_timeout"

definition expire_one ::
    "int \<Rightarrow> int \<Rightarrow> string \<times> MemberEntry \<Rightarrow> string list \<times> callbacks \<times> Swim
       \<Rightarrow> string list \<times> callbacks \<times> Swim" where
  "expire_one now suspicion_timeout m acc =
     (case acc of (expired, cbs, s) \<Rightarrow>
        if suspicion_expired now suspicion_timeout (snd m) then
          (expired @ [fst m], cbs @ [(info (snd m), MemberState.Dead)],
           Swim_enqueueEvent (put_member s (fst m) ((snd m)\<lparr>state := MemberState.Dead\<rparr>))
             (bare_event EventType.Dead (fst m) (incarnation (snd m))))
        else acc)"

definition Swim_expireSuspects :: "int \<Rightarrow> Swim \<Rightarrow> int \<Rightarrow> string list \<times> callbacks \<times> Swim" where
  "Swim_expireSuspects now s suspicion_timeout =
     fold (expire_one now suspicion_timeout) (members s) ([], [], s)"

section \<open>Queries\<close>

definition live :: "MemberEntry \<Rightarrow> bool" where
  "live e \<longleftrightarrow> state e = MemberState.Alive \<or> state e = MemberState.Suspect"

definition Swim_hasLeft :: "Swim \<Rightarrow> bool" where
  "Swim_hasLeft s = self_left s"

definition Swim_alivePeers :: "Swim \<Rightarrow> NodeInfo list" where
  "Swim_alivePeers s = map (info \<circ> snd) (filter (\<lambda>m. live (snd m)) (members s))"

definition Swim_deadPeers :: "Swim \<Rightarrow> NodeInfo list" where
  "Swim_deadPeers s =
     map (info \<circ> snd) (filter (\<lambda>m. state (snd m) = MemberState.Dead) (members s))"

definition Swim_allMembers :: "Swim \<Rightarrow> MemberEntry list" where
  "Swim_allMembers s =
     map snd (filter (\<lambda>m. state (snd m) \<noteq> MemberState.Dead \<and> state (snd m) \<noteq> MemberState.Left)
       (members s))"

text \<open>\<open>shuf\<close> is the shuffle; the configuration keeps \<open>k\<close> non-negative.\<close>

definition Swim_randomPeers ::
    "(NodeInfo list \<Rightarrow> NodeInfo list) \<Rightarrow> Swim \<Rightarrow> int \<Rightarrow> string list \<Rightarrow> NodeInfo list" where
  "Swim_randomPeers shuf s k exclude =
     (let candidates = map (info \<circ> snd) (filter (\<lambda>m.
            \<not> (state (snd m) = MemberState.Dead \<or> state (snd m) = MemberState.Left) \<and>
            fst m \<notin> set exclude) (members s));
          candidates = shuf candidates
      in if int (length candidates) > k then take (nat k) candidates else candidates)"

definition Swim_isAlive :: "Swim \<Rightarrow> string \<Rightarrow> bool" where
  "Swim_isAlive s i = (case map_of (members s) i of None \<Rightarrow> False | Some e \<Rightarrow> live e)"

definition Swim_stateOf :: "Swim \<Rightarrow> string \<Rightarrow> MemberState option" where
  "Swim_stateOf s i =
     (if i = node_id (self s) then Some (if self_left s then MemberState.Left else MemberState.Alive)
      else map_option state (map_of (members s) i))"

definition Swim_memberCount :: "Swim \<Rightarrow> nat" where
  "Swim_memberCount s =
     length (filter (\<lambda>m. state (snd m) \<noteq> MemberState.Dead \<and> state (snd m) \<noteq> MemberState.Left)
       (members s))"

section \<open>Digest and full state\<close>

definition inc_bytes :: "u64 \<Rightarrow> string" where
  "inc_bytes w = map (\<lambda>i. char_of (unat (drop_bit (8 * i) w AND 0xff))) [0..<8]"

definition entryDigest :: "string \<Rightarrow> char \<Rightarrow> u64 \<Rightarrow> u64" where
  "entryDigest i state_class inc =
     hash64 (i @ [CHR 0x01] @ [state_class] @ [CHR 0x01] @ inc_bytes inc)"

fun stateClass :: "MemberState \<Rightarrow> char" where
  "stateClass MemberState.Dead = CHR ''D''"
| "stateClass MemberState.Left = CHR ''L''"
| "stateClass _ = CHR ''A''"

definition Swim_digest :: "Swim \<Rightarrow> u64" where
  "Swim_digest s =
     fold (\<lambda>m h.
         let cls = stateClass (state (snd m))
         in h XOR entryDigest (fst m) cls (if cls = CHR ''A'' then incarnation (snd m) else 0))
       (members s)
       (entryDigest (node_id (self s)) (if self_left s then CHR ''L'' else CHR ''A'')
         (if self_left s then 0 else own_incarnation s))"

fun sync_type :: "MemberState \<Rightarrow> EventType" where
  "sync_type MemberState.Dead = EventType.Dead"
| "sync_type MemberState.Left = EventType.Leave"
| "sync_type _ = EventType.Alive"

definition member_event :: "string \<times> MemberEntry \<Rightarrow> MemberEvent" where
  "member_event m =
     \<lparr>ev_type = sync_type (state (snd m)), ev_node_id = fst m, ev_host = host (info (snd m)),
      ev_port = port (info (snd m)), ev_incarnation = incarnation (snd m)\<rparr>"

definition Swim_fullState :: "Swim \<Rightarrow> MemberEvent list" where
  "Swim_fullState s =
     (self_alive s)\<lparr>ev_type := (if self_left s then EventType.Leave else EventType.Alive)\<rparr>
       # map member_event (members s)"


section \<open>Reference view\<close>

text \<open>
  What one relayed event does to the entry of the member it names.  The state machine above
  applies it through lookups and updates of the member map.
\<close>

fun entry_apply :: "int \<Rightarrow> MemberEvent \<Rightarrow> MemberEntry option \<Rightarrow> MemberEntry option" where
  "entry_apply now ev None =
     (case ev_type ev of
        EventType.Join \<Rightarrow> Some (event_entry ev MemberState.Alive)
      | EventType.Alive \<Rightarrow> Some (event_entry ev MemberState.Alive)
      | EventType.Dead \<Rightarrow> Some (event_entry ev MemberState.Dead)
      | EventType.Leave \<Rightarrow> Some (event_entry ev MemberState.Left)
      | _ \<Rightarrow> None)"
| "entry_apply now ev (Some e) = Some (
     if state e = MemberState.Left then e
     else case ev_type ev of
        EventType.Leave \<Rightarrow> e\<lparr>state := MemberState.Left\<rparr>
      | EventType.Dead \<Rightarrow>
          if state e = MemberState.Dead \<or> ev_incarnation ev < incarnation e then e
          else e\<lparr>state := MemberState.Dead, incarnation := ev_incarnation ev\<rparr>
      | EventType.Suspect \<Rightarrow>
          if ev_incarnation ev < incarnation e \<or> state e = MemberState.Dead \<or>
             state e = MemberState.Suspect \<and> ev_incarnation ev = incarnation e then e
          else e\<lparr>state := MemberState.Suspect, incarnation := ev_incarnation ev,
                 suspect_since := now\<rparr>
      | EventType.Other _ \<Rightarrow> e
      | _ \<Rightarrow>
          if ev_incarnation ev \<le> incarnation e then e
          else e\<lparr>state := MemberState.Alive, incarnation := ev_incarnation ev,
                 info := refresh_address ev (info e)\<rparr>)"

text \<open>What the digest sees of one member, and of the whole view (self included).\<close>

definition entry_view :: "MemberEntry \<Rightarrow> char \<times> u64" where
  "entry_view e =
     (let cls = stateClass (state e) in (cls, if cls = CHR ''A'' then incarnation e else 0))"

definition self_view :: "Swim \<Rightarrow> char \<times> u64" where
  "self_view s =
     (if self_left s then CHR ''L'' else CHR ''A'', if self_left s then 0 else own_incarnation s)"

definition swim_view :: "Swim \<Rightarrow> string \<Rightarrow> (char \<times> u64) option" where
  "swim_view s i =
     (if i = node_id (self s) then Some (self_view s)
      else map_option entry_view (map_of (members s) i))"

definition view_digest :: "string \<times> char \<times> u64 \<Rightarrow> u64" where
  "view_digest v = entryDigest (fst v) (fst (snd v)) (snd (snd v))"

definition view_list :: "Swim \<Rightarrow> (string \<times> char \<times> u64) list" where
  "view_list s =
     (node_id (self s), self_view s) # map (\<lambda>m. (fst m, entry_view (snd m))) (members s)"

definition swim_wf :: "Swim \<Rightarrow> bool" where
  "swim_wf s \<longleftrightarrow>
     om_wf (members s) \<and> map_of (members s) (node_id (self s)) = None \<and>
     (\<forall>m \<in> set (members s). node_id (info (snd m)) = fst m) \<and>
     (\<forall>p \<in> set (pending_events s). 1 \<le> pe_remaining p)"

text \<open>Any operation that changes the state of a node's membership.\<close>

inductive swim_step :: "Swim \<Rightarrow> callbacks \<Rightarrow> Swim \<Rightarrow> bool" where
  applyEvent: "Swim_applyEvent now s ev = (b, cbs, s') \<Longrightarrow> swim_step s cbs s'"
| applyDirectJoin: "Swim_applyDirectJoin s ev = (r, cbs, s') \<Longrightarrow> swim_step s cbs s'"
| leave: "Swim_leave s i = (cbs, s') \<Longrightarrow> swim_step s cbs s'"
| suspect: "Swim_suspect now s i = s' \<Longrightarrow> swim_step s [] s'"
| confirmDead: "Swim_confirmDead s i = (cbs, s') \<Longrightarrow> swim_step s cbs s'"
| refute: "Swim_refute s = (inc, s') \<Longrightarrow> swim_step s [] s'"
| getEventsToSend: "Swim_getEventsToSend s = (evs, s') \<Longrightarrow> swim_step s [] s'"
| enqueueEvent: "Swim_enqueueEvent s ev = s' \<Longrightarrow> swim_step s [] s'"
| expireSuspects: "Swim_expireSuspects now s t = (ids, cbs, s') \<Longrightarrow> swim_step s cbs s'"

inductive swim_steps :: "Swim \<Rightarrow> callbacks \<Rightarrow> Swim \<Rightarrow> bool" where
  stop: "swim_steps s [] s"
| step: "\<lbrakk> swim_step s cbs t; swim_steps t cbs' u \<rbrakk> \<Longrightarrow> swim_steps s (cbs @ cbs') u"

text \<open>
  The precedence of a record: newer incarnations win, at one incarnation the worse state wins,
  and a tombstone wins over everything.
\<close>

fun badness :: "MemberState \<Rightarrow> nat" where
  "badness MemberState.Alive = 0"
| "badness MemberState.Suspect = 1"
| "badness MemberState.Dead = 2"
| "badness MemberState.Left = 3"

definition precedence :: "MemberEntry \<Rightarrow> nat" where
  "precedence e =
     (if state e = MemberState.Left then 4 * 2 ^ 64 else 4 * unat (incarnation e) + badness (state e))"

text \<open>How an entry may change: it keeps its identity, and a tombstone never changes.\<close>

definition entry_le :: "MemberEntry \<Rightarrow> MemberEntry \<Rightarrow> bool" where
  "entry_le e e' \<longleftrightarrow>
     node_id (info e') = node_id (info e) \<and> (state e = MemberState.Left \<longrightarrow> e' = e)"

definition swim_le :: "Swim \<Rightarrow> Swim \<Rightarrow> bool" where
  "swim_le s s' \<longleftrightarrow>
     self s' = self s \<and> (self_left s \<longrightarrow> self_left s') \<and>
     (\<forall>i e. map_of (members s) i = Some e \<longrightarrow>
        (\<exists>e'. map_of (members s') i = Some e' \<and> entry_le e e'))"


section \<open>Basic facts\<close>

lemmas applyEvent_defs =
  Swim_applyEvent_def apply_self_def apply_alive_def apply_suspect_def apply_dead_def apply_leave_def

lemma put_member_simps [simp]:
  "self (put_member s i e) = self s" "own_incarnation (put_member s i e) = own_incarnation s"
  "self_left (put_member s i e) = self_left s"
  "members (put_member s i e) = om_put i e (members s)"
  "pending_events (put_member s i e) = pending_events s"
  by (simp_all add: put_member_def)

lemma enqueueEvent_simps [simp]:
  "self (Swim_enqueueEvent s ev) = self s"
  "own_incarnation (Swim_enqueueEvent s ev) = own_incarnation s"
  "self_left (Swim_enqueueEvent s ev) = self_left s"
  "members (Swim_enqueueEvent s ev) = members s"
  by (simp_all add: Swim_enqueueEvent_def)

lemma event_entry_simps [simp]:
  "node_id (info (event_entry ev st)) = ev_node_id ev" "state (event_entry ev st) = st"
  "incarnation (event_entry ev st) = ev_incarnation ev"
  by (simp_all add: event_entry_def mkNodeInfo_def)

lemma refresh_address_id [simp]: "node_id (refresh_address ev n) = node_id n"
  by (simp add: refresh_address_def)

lemma dissemination_limit_ge: "3 \<le> Swim_disseminationLimit s"
  by (simp add: Swim_disseminationLimit_def Let_def)

lemma ceil_log2_log: "1 \<le> k \<Longrightarrow> int (ceil_log2 k) = \<lceil>log 2 (real k)\<rceil>"
proof (induction k rule: ceil_log2.induct)
  case (1 k)
  show ?case
  proof (cases "k = 1")
    case True
    then show ?thesis by (simp add: ceil_log2.simps)
  next
    case False
    with "1.prems" have k: "2 \<le> k" by simp
    then have half: "(k + 1) div 2 = (k - 1) div 2 + 1" by linarith
    then have "int (ceil_log2 ((k + 1) div 2)) = \<lceil>log 2 (real ((k + 1) div 2))\<rceil>"
      using "1.IH" k by simp
    then show ?thesis
      using k half ceiling_log2_div2 [of k] by (simp add: ceil_log2.simps [of k])
  qed
qed

lemma swim_wf_new [simp]: "swim_wf (Swim_new me m)"
  by (simp add: swim_wf_def Swim_new_def)

lemma swim_wf_om: "swim_wf s \<Longrightarrow> om_wf (members s)"
  by (simp add: swim_wf_def)

lemma swim_wf_iff:
  "swim_wf s \<longleftrightarrow>
     om_wf (members s) \<and> map_of (members s) (node_id (self s)) = None \<and>
     (\<forall>i e. map_of (members s) i = Some e \<longrightarrow> node_id (info e) = i) \<and>
     (\<forall>p \<in> set (pending_events s). 1 \<le> pe_remaining p)"
  unfolding swim_wf_def by (auto simp: om_in_set_iff) (metis fst_conv map_of_SomeD snd_conv)

lemma swim_wf_id: "\<lbrakk> swim_wf s; map_of (members s) i = Some e \<rbrakk> \<Longrightarrow> node_id (info e) = i"
  by (simp add: swim_wf_iff)

lemma swim_wf_put:
  assumes "swim_wf s" "node_id (info e) = i" "i \<noteq> node_id (self s)"
  shows "swim_wf (put_member s i e)"
  using assms by (simp add: swim_wf_iff)

lemma swim_wf_enqueue: "swim_wf s \<Longrightarrow> swim_wf (Swim_enqueueEvent s ev)"
  using dissemination_limit_ge [of s] by (simp add: swim_wf_iff Swim_enqueueEvent_def)

lemma swim_wf_self [simp]:
  "swim_wf (s\<lparr>own_incarnation := n\<rparr>) = swim_wf s" "swim_wf (s\<lparr>self_left := b\<rparr>) = swim_wf s"
  by (simp_all add: swim_wf_def)

lemma entry_le_refl [simp]: "entry_le e e"
  by (simp add: entry_le_def)

lemma swim_le_refl [simp]: "swim_le s s"
  by (simp add: swim_le_def)

lemma swim_le_trans: "\<lbrakk> swim_le s t; swim_le t u \<rbrakk> \<Longrightarrow> swim_le s u"
  unfolding swim_le_def entry_le_def by metis

lemma swim_le_put:
  assumes "swim_wf s" "\<And>e. map_of (members s) i = Some e \<Longrightarrow> entry_le e e'"
  shows "swim_le s (put_member s i e')"
  using assms by (simp add: swim_le_def)

lemma swim_le_enqueue [simp]: "swim_le s (Swim_enqueueEvent t ev) = swim_le s t"
  by (simp add: swim_le_def)

lemma swim_le_self [simp]:
  "swim_le s (t\<lparr>own_incarnation := n\<rparr>) = swim_le s t" "swim_le s t \<Longrightarrow> swim_le s (t\<lparr>self_left := True\<rparr>)"
  by (simp_all add: swim_le_def)


section \<open>Every operation keeps the invariant and the tombstones\<close>

lemma applyEvent_wf:
  assumes "swim_wf s" "Swim_applyEvent now s ev = (b, cbs, s')"
  shows "swim_wf s' \<and> swim_le s s'"
proof (cases "ev_node_id ev = node_id (self s)")
  case True
  then show ?thesis
    using assms
    by (auto simp: Swim_applyEvent_def apply_self_def Let_def swim_wf_enqueue split: if_splits)
next
  case False
  show ?thesis
  proof (cases "map_of (members s) (ev_node_id ev)")
    case None
    then show ?thesis
      using assms False
      by (auto simp: applyEvent_defs Let_def split: EventType.splits intro!: swim_wf_put swim_le_put)
  next
    case (Some e)
    then show ?thesis
      using assms False swim_wf_id [OF assms(1) Some]
      by (auto simp: applyEvent_defs Let_def entry_le_def split: EventType.splits if_splits
          intro!: swim_wf_put swim_le_put)
  qed
qed

lemma applyDirectJoin_wf:
  assumes "swim_wf s" "Swim_applyDirectJoin s ev = (r, cbs, s')"
  shows "swim_wf s' \<and> swim_le s s'"
  using assms swim_wf_id [OF assms(1), of "ev_node_id ev"]
  by (auto simp: Swim_applyDirectJoin_def Let_def entry_le_def split: option.splits if_splits
      intro!: swim_wf_put swim_le_put)

lemma wf_not_self: "\<lbrakk> swim_wf s; map_of (members s) i = Some e \<rbrakk> \<Longrightarrow> i \<noteq> node_id (self s)"
  by (auto simp: swim_wf_def)

lemma swim_set_state:
  assumes "swim_wf s" "map_of (members s) i = Some e" "state e \<noteq> MemberState.Left"
    and "node_id (info e') = node_id (info e)"
  shows "swim_wf (put_member s i e') \<and> swim_le s (put_member s i e')"
  using assms swim_wf_id [OF assms(1,2)] wf_not_self [OF assms(1,2)]
  by (auto simp: entry_le_def intro!: swim_wf_put swim_le_put)

lemma leave_wf:
  assumes "swim_wf s" "Swim_leave s i = (cbs, s')"
  shows "swim_wf s' \<and> swim_le s s'"
  using assms
  by (auto simp: Swim_leave_def swim_wf_enqueue swim_set_state split: option.splits if_splits)

lemma suspect_wf: "swim_wf s \<Longrightarrow> swim_wf (Swim_suspect now s i) \<and> swim_le s (Swim_suspect now s i)"
  by (auto simp: Swim_suspect_def swim_wf_enqueue swim_set_state split: option.splits)

lemma confirmDead_wf:
  assumes "swim_wf s" "Swim_confirmDead s i = (cbs, s')"
  shows "swim_wf s' \<and> swim_le s s'"
  using assms
  by (auto simp: Swim_confirmDead_def swim_wf_enqueue swim_set_state split: option.splits if_splits)

lemma refute_wf: "swim_wf s \<Longrightarrow> swim_wf (snd (Swim_refute s)) \<and> swim_le s (snd (Swim_refute s))"
  by (simp add: Swim_refute_def Let_def swim_wf_enqueue)

lemma getEventsToSend_wf:
  "swim_wf s \<Longrightarrow> swim_wf (snd (Swim_getEventsToSend s)) \<and> swim_le s (snd (Swim_getEventsToSend s))"
  by (auto simp: Swim_getEventsToSend_def swim_wf_def swim_le_def)


lemma expire_fold:
  assumes "swim_wf s" "distinct (map fst ms)" "\<And>m. m \<in> set ms \<Longrightarrow> map_of (members s) (fst m) = Some (snd m)"
    and "fold (expire_one now t) ms (ids, cbs, s) = (ids', cbs', s')"
  shows "swim_wf s' \<and> swim_le s s' \<and>
    ids' = ids @ map fst (filter (\<lambda>m. suspicion_expired now t (snd m)) ms) \<and>
    cbs' = cbs @ map (\<lambda>m. (info (snd m), MemberState.Dead))
             (filter (\<lambda>m. suspicion_expired now t (snd m)) ms) \<and>
    (\<forall>i. map_of (members s') i =
       (case map_of ms i of
          Some e \<Rightarrow> Some (if suspicion_expired now t e then e\<lparr>state := MemberState.Dead\<rparr> else e)
        | None \<Rightarrow> map_of (members s) i))"
  using assms
proof (induction ms arbitrary: ids cbs s)
  case (Cons m ms)
  let ?e = "(snd m)\<lparr>state := MemberState.Dead\<rparr>"
  let ?x = "suspicion_expired now t (snd m)"
  let ?s = "if ?x then Swim_enqueueEvent (put_member s (fst m) ?e)
      (bare_event EventType.Dead (fst m) (incarnation (snd m))) else s"
  have m: "map_of (members s) (fst m) = Some (snd m)"
    using Cons.prems(3) by simp
  have s: "swim_wf ?s \<and> swim_le s ?s"
    using Cons.prems(1) swim_set_state [OF Cons.prems(1) m, of ?e]
    by (auto simp: suspicion_expired_def swim_wf_enqueue)
  have fresh: "fst m \<notin> fst ` set ms"
    using Cons.prems(2) by simp
  then have none: "map_of ms (fst m) = None"
    by (simp add: map_of_eq_None_iff)
  have rest: "map_of (members ?s) (fst k) = Some (snd k)" if "k \<in> set ms" for k
  proof -
    have "fst k \<noteq> fst m"
      using that fresh by (metis imageI)
    then show ?thesis
      using Cons.prems(3) [of k] that by simp
  qed
  have one: "expire_one now t m (ids, cbs, s) =
      (if ?x then ids @ [fst m] else ids,
       if ?x then cbs @ [(info (snd m), MemberState.Dead)] else cbs, ?s)"
    by (simp add: expire_one_def)
  have "fold (expire_one now t) ms
      (if ?x then ids @ [fst m] else ids,
       if ?x then cbs @ [(info (snd m), MemberState.Dead)] else cbs, ?s) = (ids', cbs', s')"
    using Cons.prems(4) by (simp only: fold.simps one comp_apply)
  from Cons.IH [OF _ _ rest this] s Cons.prems(2)
  have IH: "swim_wf s' \<and> swim_le ?s s' \<and>
    ids' = (if ?x then ids @ [fst m] else ids) @ map fst (filter (\<lambda>m. suspicion_expired now t (snd m)) ms) \<and>
    cbs' = (if ?x then cbs @ [(info (snd m), MemberState.Dead)] else cbs) @
      map (\<lambda>m. (info (snd m), MemberState.Dead)) (filter (\<lambda>m. suspicion_expired now t (snd m)) ms) \<and>
    (\<forall>i. map_of (members s') i =
       (case map_of ms i of
          Some e \<Rightarrow> Some (if suspicion_expired now t e then e\<lparr>state := MemberState.Dead\<rparr> else e)
        | None \<Rightarrow> map_of (members ?s) i))"
    by simp
  then have "swim_le s s'"
    using s swim_le_trans by blast
  then show ?case
    using IH none m by (cases m) (auto split: option.splits)
qed simp

lemma expireSuspects_spec:
  assumes "swim_wf s" "Swim_expireSuspects now s t = (ids, cbs, s')"
  shows "swim_wf s' \<and> swim_le s s' \<and>
    ids = map fst (filter (\<lambda>m. suspicion_expired now t (snd m)) (members s)) \<and>
    cbs = map (\<lambda>m. (info (snd m), MemberState.Dead))
            (filter (\<lambda>m. suspicion_expired now t (snd m)) (members s)) \<and>
    (\<forall>i. map_of (members s') i =
       map_option (\<lambda>e. if suspicion_expired now t e then e\<lparr>state := MemberState.Dead\<rparr> else e)
         (map_of (members s) i))"
proof -
  have m: "map_of (members s) (fst m) = Some (snd m)" if "m \<in> set (members s)" for m
    using that om_in_set_iff [OF swim_wf_om [OF assms(1)], of "fst m" "snd m"] by simp
  from expire_fold [OF assms(1) om_wf_distinct [OF swim_wf_om [OF assms(1)]] m
      assms(2) [unfolded Swim_expireSuspects_def]]
  show ?thesis
    by (auto split: option.splits)
qed

lemma swim_step_wf: "\<lbrakk> swim_step s cbs s'; swim_wf s \<rbrakk> \<Longrightarrow> swim_wf s' \<and> swim_le s s'"
proof (induction rule: swim_step.induct)
  case applyEvent
  then show ?case by (rule applyEvent_wf [rotated])
next
  case applyDirectJoin
  then show ?case by (rule applyDirectJoin_wf [rotated])
next
  case leave
  then show ?case by (rule leave_wf [rotated])
next
  case (suspect now s i s')
  then show ?case using suspect_wf [of s now i] by simp
next
  case confirmDead
  then show ?case by (rule confirmDead_wf [rotated])
next
  case (refute s inc s')
  then show ?case using refute_wf [of s] by simp
next
  case (getEventsToSend s evs s')
  then show ?case using getEventsToSend_wf [of s] by simp
next
  case (enqueueEvent s ev s')
  then show ?case using swim_wf_enqueue [of s ev] by auto
next
  case (expireSuspects now s t ids cbs s')
  then show ?case using expireSuspects_spec [of s now t] by simp
qed


section \<open>Refinement to the reference view\<close>

lemma applyEvent_members:
  assumes "ev_node_id ev \<noteq> node_id (self s)" "Swim_applyEvent now s ev = (b, cbs, s')"
  shows "map_of (members s') =
    (map_of (members s))(ev_node_id ev := entry_apply now ev (map_of (members s) (ev_node_id ev)))"
proof (cases "map_of (members s) (ev_node_id ev)")
  case None
  then show ?thesis
    using assms
    by (cases "ev_type ev") (auto simp: applyEvent_defs Let_def om_simps)
next
  case (Some e)
  then show ?thesis
    using assms
    by (cases "ev_type ev")
      (auto simp: applyEvent_defs Let_def om_simps fun_upd_idem split: if_splits)
qed

lemma applyEvent_members_self:
  assumes "ev_node_id ev = node_id (self s)" "Swim_applyEvent now s ev = (b, cbs, s')"
  shows "members s' = members s"
  using assms by (auto simp: applyEvent_defs Let_def split: if_splits)

lemma applyEvent_other_self:
  assumes "ev_node_id ev \<noteq> node_id (self s)" "Swim_applyEvent now s ev = (b, cbs, s')"
  shows "self s' = self s \<and> own_incarnation s' = own_incarnation s \<and> self_left s' = self_left s \<and>
    pending_events s' = pending_events s"
  using assms
  by (cases "ev_type ev")
    (auto simp: applyEvent_defs Let_def split: if_splits option.splits)

lemma applyEvent_self [simp]: "self (snd (snd (Swim_applyEvent now s ev))) = self s"
  by (cases "ev_type ev") (auto simp: applyEvent_defs Let_def split: option.splits)

lemma entry_apply_mono:
  "entry_apply now ev (Some e) = Some e' \<Longrightarrow> incarnation e \<le> incarnation e'"
  by (cases "ev_type ev") (auto split: if_splits)

lemma entry_apply_idem: "entry_apply later ev (entry_apply now ev x) = entry_apply now ev x"
  by (cases x; cases "ev_type ev") auto

section \<open>The digest\<close>

lemma digest_view_list: "Swim_digest s = fold (\<lambda>v h. h XOR view_digest v) (view_list s) 0"
  by (simp add: Swim_digest_def view_list_def view_digest_def self_view_def entry_view_def
      fold_map comp_def Let_def)

lemma fold_xor_set:
  assumes "distinct xs" "distinct ys" "set xs = set ys"
  shows "fold (\<lambda>v h. h XOR f v) xs (a :: u64) = fold (\<lambda>v h. h XOR f v) ys a"
proof -
  have "mset xs = mset ys"
    using assms set_eq_iff_mset_eq_distinct by blast
  moreover have "(\<lambda>h. h XOR f x) \<circ> (\<lambda>h. h XOR f y) = (\<lambda>h. h XOR f y) \<circ> (\<lambda>h. h XOR f x)" for x y
    by (auto simp: xor.commute xor.left_commute)
  ultimately show ?thesis
    using fold_multiset_equiv [of xs "\<lambda>v h. h XOR f v" ys] by simp
qed

lemma keys_view_list: "swim_wf s \<Longrightarrow> distinct (map fst (view_list s))"
  by (auto simp: view_list_def swim_wf_def comp_def map_of_eq_None_iff dest: om_wf_distinct)

lemma distinct_view_list: "swim_wf s \<Longrightarrow> distinct (view_list s)"
  using keys_view_list distinct_map by blast

lemma map_of_view_list: "map_of (view_list s) = swim_view s"
proof
  fix i :: string
  have "map_of (map (\<lambda>m. (fst m, entry_view (snd m))) ms) i = map_option entry_view (map_of ms i)" for ms
    by (induction ms) auto
  then show "map_of (view_list s) i = swim_view s i"
    by (simp add: view_list_def swim_view_def)
qed

lemma set_view_list: "swim_wf s \<Longrightarrow> (i, v) \<in> set (view_list s) \<longleftrightarrow> swim_view s i = Some v"
  by (simp add: map_of_eq_Some_iff [OF keys_view_list, symmetric] map_of_view_list)

lemma digest_view:
  assumes "swim_wf s" "swim_wf t" "swim_view s = swim_view t"
  shows "Swim_digest s = Swim_digest t"
  unfolding digest_view_list
  using assms set_view_list [of s] set_view_list [of t]
  by (intro fold_xor_set distinct_view_list) auto


section \<open>Dissemination\<close>

lemma rounds_pending:
  assumes "\<And>p. p \<in> set (pending_events s) \<Longrightarrow> 1 \<le> pe_remaining p"
  shows "pending_events (((snd \<circ> Swim_getEventsToSend) ^^ k) s) =
    map (\<lambda>p. p\<lparr>pe_remaining := pe_remaining p - int k\<rparr>)
      (filter (\<lambda>p. int k < pe_remaining p) (pending_events s))"
proof (induction k)
  case 0
  have "filter (\<lambda>p. 0 < pe_remaining p) (pending_events s) = pending_events s"
    using assms by (intro filter_True) fastforce
  then show ?case by simp
next
  case (Suc k)
  then show ?case
    by (auto simp: Swim_getEventsToSend_def filter_map comp_def algebra_simps intro!: filter_cong map_cong)
qed

lemma rounds_sent:
  assumes "\<And>p. p \<in> set (pending_events s) \<Longrightarrow> 1 \<le> pe_remaining p"
  shows "fst (Swim_getEventsToSend (((snd \<circ> Swim_getEventsToSend) ^^ k) s)) =
    map pe_event (filter (\<lambda>p. int k < pe_remaining p) (pending_events s))"
  using rounds_pending [OF assms, where k = k] by (simp add: Swim_getEventsToSend_def comp_def)

section \<open>Event handling\<close>

lemma applyEvent_changed:
  assumes "Swim_applyEvent now s ev = (b, cbs, s')"
  shows "b \<longleftrightarrow> s' \<noteq> s" "\<not> b \<Longrightarrow> cbs = []"
proof -
  have eq: "map_of (members s) (ev_node_id ev) = Some x" if "put_member s (ev_node_id ev) x = s" for x
    using arg_cong [OF that, of "\<lambda>s. map_of (members s) (ev_node_id ev)"] by simp
  show "b \<longleftrightarrow> s' \<noteq> s"
  proof (cases "ev_node_id ev = node_id (self s)")
    case True
    have "Swim_enqueueEvent t e \<noteq> s" if "pending_events t = pending_events s" for t e
    proof
      assume "Swim_enqueueEvent t e = s"
      then have "length (pending_events (Swim_enqueueEvent t e)) = length (pending_events s)"
        by simp
      with that show False by (simp add: Swim_enqueueEvent_def)
    qed
    moreover have "s\<lparr>self_left := True\<rparr> \<noteq> s" if "\<not> self_left s"
      using that by (metis Swim.select_convs(3) Swim.surjective Swim.update_convs(3))
    ultimately show ?thesis
      using assms True by (auto simp: applyEvent_defs Let_def split: if_splits)
  next
    case False
    then show ?thesis
    proof (cases "map_of (members s) (ev_node_id ev)")
      case None
      then show ?thesis
        using assms False by (cases "ev_type ev") (auto simp: applyEvent_defs Let_def dest: eq)
    next
      case (Some e)
      show ?thesis
        using assms False Some
        by (cases "ev_type ev"; cases e)
          (auto simp: applyEvent_defs Let_def split: if_splits dest: eq)
    qed
  qed
  show "\<not> b \<Longrightarrow> cbs = []"
    using assms
    by (cases "ev_type ev") (auto simp: applyEvent_defs Let_def split: if_splits option.splits)
qed


lemma precedence_top: "precedence e \<le> 4 * 2 ^ 64"
  using unat_lt_2p64 [of "incarnation e"] by (cases "state e") (simp_all add: precedence_def)

lemma precedence_left [simp]: "state e' = MemberState.Left \<Longrightarrow> precedence e \<le> precedence e'"
  using precedence_top by (simp add: precedence_def)

lemma badness_less [simp]: "badness st < 4"
  by (cases st) simp_all

lemma precedence_newer:
  "incarnation e < incarnation e' \<Longrightarrow> state e \<noteq> MemberState.Left \<Longrightarrow> precedence e \<le> precedence e'"
  using badness_less [of "state e"] precedence_left [of e' e]
  by (cases "state e' = MemberState.Left") (simp_all add: precedence_def word_less_nat_alt del: badness_less)

lemma precedence_worse:
  "\<lbrakk> incarnation e \<le> incarnation e'; badness (state e) \<le> badness (state e'); state e \<noteq> MemberState.Left \<rbrakk>
    \<Longrightarrow> precedence e \<le> precedence e'"
  using precedence_left [of e' e]
  by (cases "state e' = MemberState.Left") (simp_all add: precedence_def word_le_nat_alt)

lemma precedence_cong: "\<lbrakk> incarnation e = incarnation e'; state e = state e' \<rbrakk> \<Longrightarrow> precedence e = precedence e'"
  by (simp add: precedence_def)

lemma entry_apply_precedence:
  "entry_apply now ev (Some e) = Some e' \<Longrightarrow> precedence e \<le> precedence e'"
  by (cases "ev_type ev"; cases "state e")
    (auto split: if_splits intro: precedence_newer precedence_worse)

lemma applyEvent_precedence:
  assumes "swim_wf s" "Swim_applyEvent now s ev = (b, cbs, s')" "map_of (members s) i = Some e"
  shows "\<exists>e'. map_of (members s') i = Some e' \<and> precedence e \<le> precedence e'"
proof (cases "ev_node_id ev = node_id (self s)")
  case True
  then show ?thesis using assms applyEvent_members_self by fastforce
next
  case False
  note m = applyEvent_members [OF False assms(2)]
  show ?thesis
  proof (cases "i = ev_node_id ev")
    case True
    then obtain e' where "entry_apply now ev (Some e) = Some e'" by simp
    then show ?thesis using entry_apply_precedence m True assms(3) by auto
  next
    case False
    then show ?thesis using m assms(3) by auto
  qed
qed

lemma applyDirectJoin_precedence:
  assumes "Swim_applyDirectJoin s ev = (r, cbs, s')" "map_of (members s) i = Some e"
    and "incarnation e \<noteq> - 1"
  shows "\<exists>e'. map_of (members s') i = Some e' \<and> precedence e \<le> precedence e'"
proof -
  have "incarnation e < max x (incarnation e + 1)" for x
    using assms(3) word_less_succ [of "incarnation e"] by (simp add: less_max_iff_disj)
  then show ?thesis
    using assms
    by (auto simp: Swim_applyDirectJoin_def Let_def split: option.splits if_splits
        intro!: precedence_newer)
qed

lemma badness_dead: "\<lbrakk> st \<noteq> MemberState.Dead; st \<noteq> MemberState.Left \<rbrakk> \<Longrightarrow> badness st \<le> 2"
  by (cases st) simp_all

lemma swim_step_precedence:
  assumes "swim_step s cbs s'" "swim_wf s" "map_of (members s) i = Some e" "incarnation e \<noteq> - 1"
  shows "\<exists>e'. map_of (members s') i = Some e' \<and> precedence e \<le> precedence e'"
  using assms
proof (induction rule: swim_step.induct)
  case applyEvent
  then show ?case using applyEvent_precedence by blast
next
  case applyDirectJoin
  then show ?case using applyDirectJoin_precedence by blast
next
  case (expireSuspects now s t ids cbs s')
  then show ?case
    using expireSuspects_spec [of s now t]
    by (auto simp: suspicion_expired_def intro!: precedence_worse)
qed (auto simp: Swim_leave_def Swim_suspect_def Swim_confirmDead_def Swim_refute_def
    Swim_getEventsToSend_def Let_def split: option.splits if_splits MemberState.splits
    intro!: precedence_worse badness_dead)

lemma applyEvent_noop:
  assumes "ev_node_id ev \<noteq> node_id (self s)"
    and "entry_apply now ev (map_of (members s) (ev_node_id ev)) = map_of (members s) (ev_node_id ev)"
  shows "Swim_applyEvent now s ev = (False, [], s)"
proof (cases "map_of (members s) (ev_node_id ev)")
  case None
  then show ?thesis
    using assms by (cases "ev_type ev") (simp_all add: applyEvent_defs)
next
  case (Some e)
  then show ?thesis
    using assms
    by (cases "ev_type ev"; cases e) (simp_all add: applyEvent_defs split: if_splits, blast+)
qed

section \<open>Properties\<close>

text \<open>A node \<open>n1\<close> that holds \<open>n2\<close> suspected and \<open>n3\<close> retired, and the node \<open>n2\<close> itself.\<close>

definition ex_n1 :: NodeInfo where
  "ex_n1 = mkNodeInfo ''n1'' ''h1'' 1"

definition ex_n2 :: NodeInfo where
  "ex_n2 = mkNodeInfo ''n2'' ''h2'' 2"

definition ex_entry :: "string \<Rightarrow> string \<Rightarrow> u16 \<Rightarrow> MemberState \<Rightarrow> u64 \<Rightarrow> MemberEntry" where
  "ex_entry i h p st n = \<lparr>info = mkNodeInfo i h p, state = st, incarnation = n, suspect_since = 0\<rparr>"

definition ex_swim1 :: Swim where
  "ex_swim1 = (Swim_new ex_n1 5)\<lparr>members :=
     [(''n2'', ex_entry ''n2'' ''h2'' 2 MemberState.Suspect 4),
      (''n3'', ex_entry ''n3'' ''h3'' 3 MemberState.Left 9)]\<rparr>"

definition ex_swim2 :: Swim where
  "ex_swim2 = (Swim_new ex_n2 5)\<lparr>own_incarnation := 4, members :=
     [(''n1'', ex_entry ''n1'' ''h1'' 1 MemberState.Alive 0),
      (''n3'', ex_entry ''n3'' [] 0 MemberState.Left 7)]\<rparr>"

lemmas ex_swim_defs =
  ex_swim1_def ex_swim2_def ex_n1_def ex_n2_def ex_entry_def Swim_new_def mkNodeInfo_def

lemma ex_swim_wf: "swim_wf ex_swim1" "swim_wf ex_swim2"
  by (simp_all add: ex_swim_defs swim_wf_def om_wf_def)

text \<open>C10: no operation of the membership state machine - relayed events, direct joins, local
  suspicion, expiry, removal - ever moves a member's record down in precedence.  So relayed
  gossip at an incarnation that is not newer never revives a suspected or dead node, and
  nothing outranks a tombstone.\<close>

theorem precedence_never_falls:
  assumes "swim_step s cbs s'" "swim_wf s"
    and "map_of (members s) i = Some e" "incarnation e \<noteq> - 1"
  shows "\<exists>e'. map_of (members s') i = Some e' \<and> precedence e \<le> precedence e'"
  using assms by (rule swim_step_precedence)

theorem precedence_never_falls_witness:
  "\<exists>e'. map_of (members (snd (Swim_leave ex_swim1 ''n2''))) ''n2'' = Some e' \<and>
     precedence (ex_entry ''n2'' ''h2'' 2 MemberState.Suspect 4) \<le> precedence e'"
proof -
  have "swim_step ex_swim1 (fst (Swim_leave ex_swim1 ''n2'')) (snd (Swim_leave ex_swim1 ''n2''))"
    by (rule swim_step.leave [of _ "''n2''"]) simp
  from precedence_never_falls [OF this ex_swim_wf(1)] show ?thesis
    by (simp add: ex_swim1_def ex_entry_def)
qed

text \<open>The flag that \<open>applyEvent\<close> returns says exactly whether the state changed, and an
  event applied a second time changes nothing, fires nothing and is not passed on.  This is
  why a re-disseminated event dies out.\<close>

theorem applyEvent_idempotent:
  assumes "Swim_applyEvent now s ev = (b, cbs, s')" "ev_incarnation ev \<noteq> - 1"
  shows "(b \<longleftrightarrow> s' \<noteq> s) \<and> Swim_applyEvent later s' ev = (False, [], s')"
proof -
  have "Swim_applyEvent later s' ev = (False, [], s')"
  proof (cases "ev_node_id ev = node_id (self s)")
    case True
    have "s' = s \<and> \<not> b \<or> ev_type ev = EventType.Leave \<and> s' = s\<lparr>self_left := True\<rparr> \<or>
        self s' = self s \<and> own_incarnation s' = ev_incarnation ev + 1 \<and> ev_type ev \<noteq> EventType.Leave"
      using True assms(1)
      by (auto simp: Swim_applyEvent_def apply_self_def Let_def split: if_splits)
    moreover have "ev_incarnation ev < ev_incarnation ev + 1"
      using assms(2) by (rule word_less_succ)
    ultimately show ?thesis
      using True assms(1)
      by (elim disjE) (simp_all add: Swim_applyEvent_def apply_self_def Let_def split: if_splits)
  next
    case False
    then show ?thesis
      using applyEvent_members [OF False assms(1)] applyEvent_other_self [OF False assms(1)]
      by (intro applyEvent_noop) (simp_all add: entry_apply_idem)
  qed
  then show ?thesis
    using applyEvent_changed(1) [OF assms(1)] by blast
qed

definition ex_suspect_n2 :: MemberEvent where
  "ex_suspect_n2 = bare_event EventType.Suspect ''n2'' 4"

theorem applyEvent_idempotent_witness:
  "fst (Swim_applyEvent 0 ex_swim2 ex_suspect_n2) \<and>
   Swim_applyEvent 7 (snd (snd (Swim_applyEvent 0 ex_swim2 ex_suspect_n2))) ex_suspect_n2 =
     (False, [], snd (snd (Swim_applyEvent 0 ex_swim2 ex_suspect_n2)))"
proof -
  obtain b cbs s' where eq: "Swim_applyEvent 0 ex_swim2 ex_suspect_n2 = (b, cbs, s')"
    by (metis prod_cases3)
  have "fst (Swim_applyEvent 0 ex_swim2 ex_suspect_n2)"
    by (simp add: ex_swim_defs ex_suspect_n2_def bare_event_def applyEvent_defs Let_def)
  then show ?thesis
    using applyEvent_idempotent [OF eq, of 7] unfolding eq
    by (simp add: ex_suspect_n2_def bare_event_def)
qed

text \<open>C32: a node that hears itself called suspect or dead at its current or a later incarnation
  broadcasts an Alive that every peer holding the stale record accepts: at that peer the node
  is live again.\<close>

theorem refutation_wins:
  assumes "Swim_applyEvent now s ev = (b, cbs, s')" "ev_node_id ev = node_id (self s)"
    and "ev_type ev = EventType.Suspect \<or> ev_type ev = EventType.Dead"
    and "own_incarnation s \<le> ev_incarnation ev" "ev_incarnation ev \<noteq> - 1"
    and "node_id (self p) \<noteq> node_id (self s)" "map_of (members p) (node_id (self s)) = Some e"
    and "state e \<noteq> MemberState.Left" "incarnation e \<le> ev_incarnation ev"
  shows "b \<and> self_alive s' \<in> pe_event ` set (pending_events s') \<and>
    Swim_isAlive (snd (snd (Swim_applyEvent t p (self_alive s')))) (node_id (self s))"
proof -
  have "ev_type ev \<noteq> EventType.Leave"
    using assms(3) by auto
  then have s': "b \<and> s' = Swim_enqueueEvent (s\<lparr>own_incarnation := ev_incarnation ev + 1\<rparr>)
      (self_alive (s\<lparr>own_incarnation := ev_incarnation ev + 1\<rparr>))"
    using assms(1-4) by (simp add: Swim_applyEvent_def apply_self_def Let_def leD)
  have "incarnation e < ev_incarnation ev + 1"
    using assms(9) word_less_succ [OF assms(5)] by (rule le_less_trans)
  moreover have "self_alive s' = self_alive (s\<lparr>own_incarnation := ev_incarnation ev + 1\<rparr>)"
    using s' by (simp add: self_alive_def)
  ultimately show ?thesis
    using s' assms(6-8)
    by (auto simp: self_alive_def applyEvent_defs Swim_isAlive_def live_def Let_def
        Swim_enqueueEvent_def not_le)
qed

theorem refutation_wins_witness:
  "Swim_isAlive (snd (snd (Swim_applyEvent 1 ex_swim1
     (self_alive (snd (snd (Swim_applyEvent 0 ex_swim2 ex_suspect_n2))))))) ''n2''"
proof -
  obtain b cbs s' where eq: "Swim_applyEvent 0 ex_swim2 ex_suspect_n2 = (b, cbs, s')"
    by (metis prod_cases3)
  show ?thesis
    using refutation_wins [OF eq, of ex_swim1 "ex_entry ''n2'' ''h2'' 2 MemberState.Suspect 4" 1]
    unfolding eq by (simp add: ex_swim_defs ex_suspect_n2_def bare_event_def)
qed

text \<open>A node that rejoins through the handshake is live at the node that answers, and the
  Alive event at the returned incarnation revives it at every other peer whose record is not
  newer and not a tombstone.\<close>

theorem direct_join_propagates:
  assumes "Swim_applyDirectJoin s ev = (Some eff, cbs, s')"
    and "ev_node_id ev \<noteq> node_id (self s)" "ev_node_id ev \<noteq> node_id (self p)"
    and "map_of (members s) (ev_node_id ev) = Some e" "incarnation e \<noteq> - 1"
    and "map_of (members p) (ev_node_id ev) = Some e'" "state e' \<noteq> MemberState.Left"
    and "incarnation e' \<le> incarnation e"
  shows "Swim_isAlive s' (ev_node_id ev) \<and>
    Swim_isAlive (snd (snd (Swim_applyEvent t p (ev\<lparr>ev_type := EventType.Alive, ev_incarnation := eff\<rparr>))))
      (ev_node_id ev)"
proof -
  have eff: "eff = max (ev_incarnation ev) (incarnation e + 1)" and alive: "Swim_isAlive s' (ev_node_id ev)"
    using assms(1,2,4)
    by (auto simp: Swim_applyDirectJoin_def Swim_isAlive_def live_def Let_def split: if_splits)
  have "incarnation e' < incarnation e + 1"
    using assms(8) word_less_succ [OF assms(5)] by (rule le_less_trans)
  then have "incarnation e' < eff"
    unfolding eff by (simp add: less_max_iff_disj)
  with alive show ?thesis
    using assms(3,6,7) by (auto simp: applyEvent_defs Swim_isAlive_def live_def Let_def)
qed

definition ex_join_n2 :: MemberEvent where
  "ex_join_n2 =
     \<lparr>ev_type = EventType.Join, ev_node_id = ''n2'', ev_host = ''h9'', ev_port = 9, ev_incarnation = 0\<rparr>"

definition ex_swim3 :: Swim where
  "ex_swim3 = (Swim_new (mkNodeInfo ''n4'' ''h4'' 4) 5)\<lparr>members :=
     [(''n2'', ex_entry ''n2'' ''h2'' 2 MemberState.Dead 4)]\<rparr>"

theorem direct_join_propagates_witness:
  "Swim_isAlive (snd (snd (Swim_applyEvent 0 ex_swim3
     (ex_join_n2\<lparr>ev_type := EventType.Alive,
       ev_incarnation := the (fst (Swim_applyDirectJoin ex_swim1 ex_join_n2))\<rparr>)))) ''n2''"
proof -
  obtain cbs s' where eq: "Swim_applyDirectJoin ex_swim1 ex_join_n2 = (Some 5, cbs, s')"
    by (simp add: Swim_applyDirectJoin_def ex_swim_defs ex_join_n2_def Let_def max_def)
  show ?thesis
    using direct_join_propagates [OF eq, of ex_swim3 "ex_entry ''n2'' ''h2'' 2 MemberState.Suspect 4"
        "ex_entry ''n2'' ''h2'' 2 MemberState.Dead 4" 0]
    by (simp add: eq, simp add: ex_swim_defs ex_swim3_def ex_join_n2_def)
qed

text \<open>The digest is a function of the view alone - the member ids with their class and, for
  live members, incarnation.  Two nodes with the same view compute the same digest although
  each keeps itself outside its member map, and suspicion does not show.\<close>

theorem digest_of_view:
  assumes "swim_wf s" "swim_wf t" "swim_view s = swim_view t"
  shows "Swim_digest s = Swim_digest t"
  using assms by (rule digest_view)

theorem digest_of_view_witness:
  "self ex_swim1 \<noteq> self ex_swim2 \<and> Swim_digest ex_swim1 = Swim_digest ex_swim2"
proof -
  have "swim_view ex_swim1 = swim_view ex_swim2"
    by (rule ext) (simp add: swim_view_def ex_swim_defs self_view_def entry_view_def)
  with digest_of_view [OF ex_swim_wf this] show ?thesis
    by (simp add: ex_swim_defs)
qed

text \<open>An event that is enqueued rides on exactly the next \<open>disseminationLimit\<close> messages
  (three times the rounded-up binary logarithm of the cluster size plus one, at least three),
  without disturbing the other pending events.\<close>

theorem dissemination_budget:
  assumes "swim_wf s"
  shows "fst (Swim_getEventsToSend (((snd \<circ> Swim_getEventsToSend) ^^ k) (Swim_enqueueEvent s ev))) =
      fst (Swim_getEventsToSend (((snd \<circ> Swim_getEventsToSend) ^^ k) s)) @
      (if int k < max 3 (3 * \<lceil>log 2 (real (length (members s) + 2))\<rceil>) then [ev] else [])"
proof -
  have "Swim_disseminationLimit s = max 3 (3 * \<lceil>log 2 (real (length (members s) + 2))\<rceil>)"
    using ceil_log2_log [of "length (members s) + 2"] by (simp add: Swim_disseminationLimit_def)
  moreover have "\<And>p. p \<in> set (pending_events s) \<Longrightarrow> 1 \<le> pe_remaining p"
      "\<And>p. p \<in> set (pending_events (Swim_enqueueEvent s ev)) \<Longrightarrow> 1 \<le> pe_remaining p"
    using assms swim_wf_enqueue [OF assms, of ev] by (auto simp: swim_wf_def)
  ultimately show ?thesis
    by (simp add: rounds_sent del: funpow.simps) (simp add: Swim_enqueueEvent_def)
qed

theorem dissemination_budget_witness:
  "fst (Swim_getEventsToSend (((snd \<circ> Swim_getEventsToSend) ^^ 2) (Swim_enqueueEvent ex_swim1 ex_join_n2))) =
      fst (Swim_getEventsToSend (((snd \<circ> Swim_getEventsToSend) ^^ 2) ex_swim1)) @ [ex_join_n2]"
proof -
  have "int 2 < max 3 x" for x
    by (simp add: less_max_iff_disj)
  with dissemination_budget [OF ex_swim_wf(1), of 2 ex_join_n2] show ?thesis
    by (simp only: if_True)
qed

text \<open>\<open>expireSuspects\<close> turns exactly the suspects whose suspicion is old enough into dead
  members at their held incarnation, reports and calls back for each of them once in id
  order, and leaves every other entry alone.\<close>

theorem expireSuspects_exact:
  assumes "swim_wf s" "Swim_expireSuspects now s t = (ids, cbs, s')"
  shows "ids = map fst (filter (\<lambda>m. suspicion_expired now t (snd m)) (members s)) \<and>
    cbs = map (\<lambda>m. (info (snd m), MemberState.Dead))
            (filter (\<lambda>m. suspicion_expired now t (snd m)) (members s)) \<and>
    (\<forall>i. map_of (members s') i =
       map_option (\<lambda>e. if suspicion_expired now t e then e\<lparr>state := MemberState.Dead\<rparr> else e)
         (map_of (members s) i))"
  using expireSuspects_spec [OF assms] by blast

theorem expireSuspects_exact_witness:
  "fst (Swim_expireSuspects 9000000 ex_swim1 5) = [''n2'']"
proof -
  obtain ids cbs s' where eq: "Swim_expireSuspects 9000000 ex_swim1 5 = (ids, cbs, s')"
    by (metis prod_cases3)
  show ?thesis
    using expireSuspects_exact [OF ex_swim_wf(1) eq] unfolding eq
    by (simp add: ex_swim_defs suspicion_expired_def to_ms_def)
qed

end
