(* ===== verification/Gossip.thy ===== *)
theory Gossip
  imports Swim Router
begin

text \<open>
  gossip/gossip_thread.h and gossip_thread.cpp: the protocol driver that owns a \<open>Swim\<close> state
  and keeps the router's ring in step with it through the member-change callback.  The network
  (\<open>send_fn\<close>), the steady clock and the shuffle are a record \<open>'e net\<close> over an environment
  state \<open>'e\<close>: a send may change the environment, and the next one sees the change.  Log lines
  are not modelled; \<open>on_membership_sync_\<close> counts in \<open>g_syncs\<close>, and \<open>g_fired\<close> lists the
  member changes reported so far, for the callbacks that main.cpp registers after the ring's.

  Every operation is shown to be a sequence of \<open>Swim\<close> operations whose callbacks reach the
  router in order (\<open>gsteps\<close>).  The ring invariant and the permanence of a removal are proved for
  single steps, so they hold for every interleaving of ticks and incoming messages.
\<close>

record 'e net =
  net_send :: "'e \<Rightarrow> string \<Rightarrow> u16 \<Rightarrow> string \<Rightarrow> string \<times> 'e"
  net_now :: "'e \<Rightarrow> int"
  net_shuffle :: "'e \<Rightarrow> NodeInfo list \<Rightarrow> NodeInfo list"

record GossipConfig =
  protocol_period :: int
  indirect_probe_count :: int
  cfg_suspicion_mult :: int

record MismatchState =
  consecutive :: int
  last_sync_tick :: u64

record GossipThread =
  g_self :: NodeInfo
  g_router :: Router
  g_config :: GossipConfig
  g_swim :: Swim
  g_mismatch :: "(string, MismatchState) omap"
  g_tick_count :: u64
  g_idx :: u64
  g_syncs :: nat
  g_fired :: callbacks

definition kSyncMismatchThreshold :: int where
  "kSyncMismatchThreshold = 2"

definition kSyncCooldownTicks :: u64 where
  "kSyncCooldownTicks = 10"

definition kDeadProbeEveryTicks :: u64 where
  "kDeadProbeEveryTicks = 5"

section \<open>Construction and callbacks\<close>

definition GossipThread_new :: "NodeInfo \<Rightarrow> Router \<Rightarrow> GossipConfig \<Rightarrow> GossipThread" where
  "GossipThread_new me r cfg =
     \<lparr>g_self = me, g_router = r, g_config = cfg, g_swim = Swim_new me (cfg_suspicion_mult cfg),
      g_mismatch = [], g_tick_count = 0, g_idx = 0, g_syncs = 0, g_fired = []\<rparr>"

text \<open>The callback that the constructor registers.\<close>

fun on_member_change :: "NodeInfo \<times> MemberState \<Rightarrow> Router \<Rightarrow> Router" where
  "on_member_change (n, MemberState.Alive) r = Router_addPhysicalNode r n"
| "on_member_change (n, MemberState.Left) r = Router_removePhysicalNode r (node_id n)"
| "on_member_change (n, _) r = r"

definition commit :: "GossipThread \<Rightarrow> callbacks \<Rightarrow> Swim \<Rightarrow> GossipThread" where
  "commit g cbs s = g\<lparr>g_swim := s, g_router := fold on_member_change cbs (g_router g),
     g_fired := g_fired g @ cbs\<rparr>"

section \<open>Incoming events and outgoing messages\<close>

definition apply_incoming :: "int \<Rightarrow> MemberEvent \<Rightarrow> GossipThread \<Rightarrow> GossipThread" where
  "apply_incoming now ev g =
     (if \<not> isValidNodeId (ev_node_id ev) then g
      else case Swim_applyEvent now (g_swim g) ev of (changed, cbs, s) \<Rightarrow>
        let g = commit g cbs s
        in if changed then commit g [] (Swim_enqueueEvent (g_swim g) ev) else g)"

definition GossipThread_applyIncomingEvents :: "int \<Rightarrow> string \<Rightarrow> GossipThread \<Rightarrow> GossipThread" where
  "GossipThread_applyIncomingEvents now events_field g =
     (if events_field = [] then g
      else fold (apply_incoming now) (deserializeEvents events_field) g)"

definition GossipThread_buildPing :: "GossipThread \<Rightarrow> string \<Rightarrow> string \<times> GossipThread" where
  "GossipThread_buildPing g target_id =
     (case Swim_getEventsToSend (g_swim g) of (events, s) \<Rightarrow>
        (''SWIM_PING|'' @ node_id (g_self g) @ ''|'' @ target_id @ ''|'' @ serializeEvents events,
         commit g [] s))"

definition GossipThread_buildPingReq :: "GossipThread \<Rightarrow> string \<Rightarrow> string \<times> GossipThread" where
  "GossipThread_buildPingReq g target_id =
     (case Swim_getEventsToSend (g_swim g) of (events, s) \<Rightarrow>
        (''SWIM_PING_REQ|'' @ node_id (g_self g) @ ''|'' @ target_id @ ''|'' @ node_id (g_self g) @
           ''|'' @ serializeEvents events,
         commit g [] s))"

definition GossipThread_buildAck :: "GossipThread \<Rightarrow> string \<Rightarrow> string \<times> GossipThread" where
  "GossipThread_buildAck g target_id =
     (case Swim_getEventsToSend (g_swim g) of (events, s) \<Rightarrow>
        (''SWIM_ACK|'' @ node_id (g_self g) @ ''|'' @ target_id @ ''|'' @ serializeEvents events @
           ''|'' @ dec_word (Swim_digest s),
         commit g [] s))"

section \<open>Full-state sync\<close>

definition GossipThread_performSync ::
    "'e net \<Rightarrow> NodeInfo \<Rightarrow> GossipThread \<Rightarrow> 'e \<Rightarrow> GossipThread \<times> 'e" where
  "GossipThread_performSync net peer g e =
     (let payload = ''SWIM_SYNC|'' @ node_id (g_self g) @ ''|'' @
            serializeEvents (Swim_fullState (g_swim g))
      in case net_send net e (host peer) (port peer) payload of (resp, e) \<Rightarrow>
        if resp = [] then (g, e)
        else let f = splitAll resp (CHR ''|'')
             in if field f 0 \<noteq> ''SWIM_SYNC_ACK'' then (g, e)
                else let g = GossipThread_applyIncomingEvents (net_now net e) (field f 2) g
                     in (g\<lparr>g_syncs := g_syncs g + 1\<rparr>, e))"

definition GossipThread_maybeSync ::
    "'e net \<Rightarrow> NodeInfo \<Rightarrow> string \<Rightarrow> GossipThread \<Rightarrow> 'e \<Rightarrow> GossipThread \<times> 'e" where
  "GossipThread_maybeSync net peer digest_field g e =
     (if digest_field = [] then (g, e)
      else case stoull digest_field of
        None \<Rightarrow> (g, e)
      | Some theirs \<Rightarrow>
          if theirs = Swim_digest (g_swim g)
          then (g\<lparr>g_mismatch := om_del (node_id peer) (g_mismatch g)\<rparr>, e)
          else
            let m = (case map_of (g_mismatch g) (node_id peer) of
                       None \<Rightarrow> \<lparr>consecutive = 0, last_sync_tick = 0\<rparr> | Some m \<Rightarrow> m);
                m = m\<lparr>consecutive := consecutive m + 1\<rparr>;
                g = g\<lparr>g_mismatch := om_put (node_id peer) m (g_mismatch g)\<rparr>
            in if consecutive m < kSyncMismatchThreshold then (g, e)
               else if last_sync_tick m \<noteq> 0 \<and>
                       g_tick_count g - last_sync_tick m < kSyncCooldownTicks then (g, e)
               else
                 let m = m\<lparr>consecutive := 0, last_sync_tick := g_tick_count g\<rparr>
                 in GossipThread_performSync net peer
                      (g\<lparr>g_mismatch := om_put (node_id peer) m (g_mismatch g)\<rparr>) e)"

definition GossipThread_handleAck ::
    "'e net \<Rightarrow> NodeInfo \<Rightarrow> string \<Rightarrow> GossipThread \<Rightarrow> 'e \<Rightarrow> bool \<times> GossipThread \<times> 'e" where
  "GossipThread_handleAck net peer resp g e =
     (if resp = [] then (False, g, e)
      else let f = splitAll resp (CHR ''|'')
           in if field f 0 \<noteq> ''SWIM_ACK'' then (False, g, e)
              else let g = GossipThread_applyIncomingEvents (net_now net e) (field f 3) g
                   in (True, GossipThread_maybeSync net peer (field f 4) g e))"

section \<open>Probing\<close>

definition GossipThread_probeDead ::
    "'e net \<Rightarrow> NodeInfo \<Rightarrow> GossipThread \<Rightarrow> 'e \<Rightarrow> GossipThread \<times> 'e" where
  "GossipThread_probeDead net target g e =
     (case GossipThread_buildPing g (node_id target) of (ping, g) \<Rightarrow>
      case net_send net e (host target) (port target) ping of (resp, e) \<Rightarrow>
        snd (GossipThread_handleAck net target resp g e))"

fun probe_proxies ::
    "'e net \<Rightarrow> string \<Rightarrow> NodeInfo list \<Rightarrow> GossipThread \<Rightarrow> 'e \<Rightarrow> bool \<times> GossipThread \<times> 'e" where
  "probe_proxies net target_id [] g e = (False, g, e)"
| "probe_proxies net target_id (proxy # ps) g e =
     (case GossipThread_buildPingReq g target_id of (preq, g) \<Rightarrow>
      case net_send net e (host proxy) (port proxy) preq of (presp, e) \<Rightarrow>
      case GossipThread_handleAck net proxy presp g e of (ok, g, e) \<Rightarrow>
        if ok then (True, g, e) else probe_proxies net target_id ps g e)"

definition GossipThread_pingTarget ::
    "'e net \<Rightarrow> NodeInfo \<Rightarrow> GossipThread \<Rightarrow> 'e \<Rightarrow> GossipThread \<times> 'e" where
  "GossipThread_pingTarget net target g e =
     (case GossipThread_buildPing g (node_id target) of (ping, g) \<Rightarrow>
      case net_send net e (host target) (port target) ping of (resp, e) \<Rightarrow>
        if resp \<noteq> [] then snd (GossipThread_handleAck net target resp g e)
        else
          let proxies = Swim_randomPeers (net_shuffle net e) (g_swim g)
                (indirect_probe_count (g_config g)) [node_id target]
          in case probe_proxies net (node_id target) proxies g e of (got_ack, g, e) \<Rightarrow>
               if got_ack then (g, e)
               else (commit g [] (Swim_suspect (net_now net e) (g_swim g) (node_id target)), e))"

definition tick_probe_dead :: "'e net \<Rightarrow> GossipThread \<Rightarrow> 'e \<Rightarrow> GossipThread \<times> 'e" where
  "tick_probe_dead net g e =
     (if g_tick_count g mod kDeadProbeEveryTicks = 0 then
        let dead = Swim_deadPeers (g_swim g)
        in if dead \<noteq> [] then
             GossipThread_probeDead net
               (dead ! (unat (g_tick_count g div kDeadProbeEveryTicks) mod length dead)) g e
           else (g, e)
      else (g, e))"

definition GossipThread_tick :: "'e net \<Rightarrow> GossipThread \<Rightarrow> 'e \<Rightarrow> GossipThread \<times> 'e" where
  "GossipThread_tick net g e =
     (let g = g\<lparr>g_tick_count := g_tick_count g + 1\<rparr>
      in if Swim_hasLeft (g_swim g) then (g, e)
         else case Swim_expireSuspects (net_now net e) (g_swim g)
                     (protocol_period (g_config g) * cfg_suspicion_mult (g_config g)) of
           (_, cbs, s) \<Rightarrow>
             case tick_probe_dead net (commit g cbs s) e of (g, e) \<Rightarrow>
               let peers = Swim_alivePeers (g_swim g)
               in if peers = [] then (g, e)
                  else GossipThread_pingTarget net (peers ! (unat (g_idx g) mod length peers))
                         (g\<lparr>g_idx := g_idx g + 1\<rparr>) e)"

section \<open>Joining, leaving, incoming messages\<close>

fun GossipThread_joinViaSeeds ::
    "'e net \<Rightarrow> string list \<Rightarrow> GossipThread \<Rightarrow> 'e \<Rightarrow> GossipThread \<times> 'e" where
  "GossipThread_joinViaSeeds net [] g e = (g, e)"
| "GossipThread_joinViaSeeds net (seed # seeds) g e =
     (let msg = ''SWIM_JOIN|'' @ node_id (g_self g) @ ''|'' @ host (g_self g) @ ''|'' @
            dec_word (port (g_self g)) @ ''|'' @ dec_word (own_incarnation (g_swim g)) @ ''|'';
          parts = splitAll seed (CHR '':'')
      in if length parts < 2 then GossipThread_joinViaSeeds net seeds g e
         else case stoi (parts ! 1) of
           None \<Rightarrow> GossipThread_joinViaSeeds net seeds g e
         | Some p \<Rightarrow>
             case net_send net e (parts ! 0) (u16_of_int p) msg of (resp, e) \<Rightarrow>
               let f = splitAll resp (CHR ''|'')
               in if resp \<noteq> [] \<and> field f 0 = ''SWIM_ACK''
                  then (GossipThread_applyIncomingEvents (net_now net e) (field f 3) g, e)
                  else GossipThread_joinViaSeeds net seeds g e)"

definition GossipThread_requestLeave :: "GossipThread \<Rightarrow> string \<Rightarrow> bool \<times> GossipThread" where
  "GossipThread_requestLeave g i =
     (if Swim_stateOf (g_swim g) i = None then (False, g)
      else case Swim_leave (g_swim g) i of (cbs, s) \<Rightarrow> (True, commit g cbs s))"

text \<open>The reply to a join that was accepted: the responder and every member it holds live.\<close>

definition join_members :: "GossipThread \<Rightarrow> MemberEvent list" where
  "join_members g =
     (self_alive (g_swim g))\<lparr>ev_node_id := node_id (g_self g), ev_host := host (g_self g),
         ev_port := port (g_self g)\<rparr>
       # map (\<lambda>m. \<lparr>ev_type = EventType.Alive, ev_node_id = node_id (info m),
                   ev_host = host (info m), ev_port = port (info m),
                   ev_incarnation = incarnation m\<rparr>) (Swim_allMembers (g_swim g))"

definition handle_join :: "int \<Rightarrow> string list \<Rightarrow> GossipThread \<Rightarrow> string \<times> GossipThread" where
  "handle_join now f g =
     (let sender_id = field f 1
      in if \<not> isValidNodeId sender_id then ([], g)
         else
           let port = (case stoi (field f 3) of None \<Rightarrow> 0 | Some p \<Rightarrow> u16_of_int p);
               inc = (case stoull (field f 4) of None \<Rightarrow> 0 | Some n \<Rightarrow> n);
               g = GossipThread_applyIncomingEvents now (field f 5) g;
               join_ev = \<lparr>ev_type = EventType.Join, ev_node_id = sender_id, ev_host = field f 2,
                          ev_port = port, ev_incarnation = inc\<rparr>
           in case Swim_applyDirectJoin (g_swim g) join_ev of (eff, cbs, s) \<Rightarrow>
                let g = commit g cbs s
                in case eff of
                     None \<Rightarrow>
                       (''SWIM_ACK|'' @ node_id (g_self g) @ ''|'' @ sender_id @ ''|'' @
                          serializeEvents [bare_event EventType.Leave sender_id 0], g)
                   | Some n \<Rightarrow>
                       let g = commit g [] (Swim_enqueueEvent (g_swim g)
                             (join_ev\<lparr>ev_type := EventType.Alive, ev_incarnation := n\<rparr>))
                       in (''SWIM_ACK|'' @ node_id (g_self g) @ ''|'' @ sender_id @ ''|'' @
                             serializeEvents (join_members g), g))"

definition handle_ping_req ::
    "'e net \<Rightarrow> string list \<Rightarrow> GossipThread \<Rightarrow> 'e \<Rightarrow> string \<times> GossipThread \<times> 'e" where
  "handle_ping_req net f g e =
     (let g = GossipThread_applyIncomingEvents (net_now net e) (field f 4) g
      in case find (\<lambda>m. node_id (info m) = field f 2) (Swim_allMembers (g_swim g)) of
           None \<Rightarrow> ([], g, e)
         | Some m \<Rightarrow>
             case GossipThread_buildPing g (field f 2) of (ping, g) \<Rightarrow>
             case net_send net e (host (info m)) (port (info m)) ping of (resp, e) \<Rightarrow>
               if resp \<noteq> [] then
                 case GossipThread_buildAck g (field f 1) of (ack, g) \<Rightarrow> (ack, g, e)
               else ([], g, e))"

definition handle_sync :: "int \<Rightarrow> string list \<Rightarrow> GossipThread \<Rightarrow> string \<times> GossipThread" where
  "handle_sync now f g =
     (let g = GossipThread_applyIncomingEvents now (field f 2) g;
          g = g\<lparr>g_syncs := g_syncs g + 1\<rparr>
      in (''SWIM_SYNC_ACK|'' @ node_id (g_self g) @ ''|'' @ serializeEvents (Swim_fullState (g_swim g)), g))"

definition GossipThread_handleMessage ::
    "'e net \<Rightarrow> string \<Rightarrow> GossipThread \<Rightarrow> 'e \<Rightarrow> string \<times> GossipThread \<times> 'e" where
  "GossipThread_handleMessage net payload g e =
     (let f = splitAll payload (CHR ''|''); type = field f 0; now = net_now net e
      in if type = ''SWIM_PING'' then
           case GossipThread_buildAck (GossipThread_applyIncomingEvents now (field f 3) g) (field f 1) of
             (ack, g) \<Rightarrow> (ack, g, e)
         else if type = ''SWIM_PING_REQ'' then handle_ping_req net f g e
         else if type = ''SWIM_ACK'' then
           ([], GossipThread_applyIncomingEvents now (field f 3) g, e)
         else if type = ''SWIM_SYNC'' then
           case handle_sync now f g of (resp, g) \<Rightarrow> (resp, g, e)
         else if type = ''SWIM_SYNC_ACK'' then
           ([], GossipThread_applyIncomingEvents now (field f 2) g, e)
         else if type = ''SWIM_JOIN'' then
           case handle_join now f g of (resp, g) \<Rightarrow> (resp, g, e)
         else ([], g, e))"

section \<open>Operations as sequences of membership steps\<close>

inductive gstep :: "GossipThread \<Rightarrow> GossipThread \<Rightarrow> bool" where
  swim: "swim_step (g_swim g) cbs s \<Longrightarrow> gstep g (commit g cbs s)"
| local: "\<lbrakk> g_swim g' = g_swim g; g_router g' = g_router g; g_fired g' = g_fired g \<rbrakk> \<Longrightarrow> gstep g g'"

abbreviation gsteps :: "GossipThread \<Rightarrow> GossipThread \<Rightarrow> bool" where
  "gsteps \<equiv> gstep\<^sup>*\<^sup>*"

text \<open>The entry points that run on the gossip thread, on connection threads and at start-up.\<close>

inductive gossip_op :: "'e net \<Rightarrow> GossipThread \<Rightarrow> GossipThread \<Rightarrow> bool" for net where
  tick: "GossipThread_tick net g e = (g', e') \<Longrightarrow> gossip_op net g g'"
| message: "GossipThread_handleMessage net payload g e = (resp, g', e') \<Longrightarrow> gossip_op net g g'"
| join: "GossipThread_joinViaSeeds net seeds g e = (g', e') \<Longrightarrow> gossip_op net g g'"
| leave: "GossipThread_requestLeave g i = (b, g') \<Longrightarrow> gossip_op net g g'"

text \<open>
  The ring against the membership view: it holds this node unless retired, every live member,
  no tombstoned member and nobody unknown.
\<close>

definition ring_sync :: "Swim \<Rightarrow> Router \<Rightarrow> bool" where
  "ring_sync s r \<longleftrightarrow>
     (\<forall>i \<in> om_keys (nodes r). Swim_stateOf s i \<noteq> None \<and> Swim_stateOf s i \<noteq> Some MemberState.Left) \<and>
     (\<forall>m \<in> set (members s). live (snd m) \<longrightarrow> fst m \<in> om_keys (nodes r)) \<and>
     (\<not> self_left s \<longrightarrow> node_id (self s) \<in> om_keys (nodes r))"

definition gossip_wf :: "GossipThread \<Rightarrow> bool" where
  "gossip_wf g \<longleftrightarrow> swim_wf (g_swim g) \<and> ring_sync (g_swim g) (g_router g)"

text \<open>
  A network that hands every message to one peer, whose state is the environment; the peer
  itself sends nothing while it answers.
\<close>

definition silent_net :: "unit net" where
  "silent_net = \<lparr>net_send = \<lambda>_ _ _ _. ([], ()), net_now = \<lambda>_. 0, net_shuffle = \<lambda>_ xs. xs\<rparr>"

definition peer_net :: "int \<Rightarrow> GossipThread net" where
  "peer_net now =
     \<lparr>net_send = \<lambda>b _ _ msg.
        (case GossipThread_handleMessage (silent_net\<lparr>net_now := \<lambda>_. now\<rparr>) msg b () of
           (resp, b', _) \<Rightarrow> (resp, b')),
      net_now = \<lambda>_. now, net_shuffle = \<lambda>_ xs. xs\<rparr>"

text \<open>Ids and host names that the event text carries.\<close>

definition host_ok :: "string \<Rightarrow> bool" where
  "host_ok h \<longleftrightarrow> CHR '':'' \<notin> set h \<and> CHR '';'' \<notin> set h \<and> CHR ''|'' \<notin> set h"

definition view_clean :: "Swim \<Rightarrow> bool" where
  "view_clean s \<longleftrightarrow>
     isValidNodeId (node_id (self s)) \<and> host_ok (host (self s)) \<and>
     (\<forall>m \<in> set (members s). isValidNodeId (fst m) \<and> host_ok (host (info (snd m))))"

definition event_clean :: "MemberEvent \<Rightarrow> bool" where
  "event_clean ev \<longleftrightarrow>
     isValidNodeId (ev_node_id ev) \<and> host_ok (ev_host ev) \<and>
     type_of_char (type_char (ev_type ev)) = ev_type ev \<and>
     type_char (ev_type ev) \<noteq> CHR '';'' \<and> type_char (ev_type ev) \<noteq> CHR ''|''"

lemma commit_simps [simp]:
  "g_self (commit g cbs s) = g_self g" "g_swim (commit g cbs s) = s"
  "g_router (commit g cbs s) = fold on_member_change cbs (g_router g)"
  "g_config (commit g cbs s) = g_config g" "g_fired (commit g cbs s) = g_fired g @ cbs"
  by (simp_all add: commit_def)

lemma gsteps_swim: "swim_step (g_swim g) cbs s \<Longrightarrow> gsteps g (commit g cbs s)"
  by (simp add: gstep.swim r_into_rtranclp)

lemma gsteps_local:
  "\<lbrakk> g_swim g' = g_swim g; g_router g' = g_router g; g_fired g' = g_fired g \<rbrakk> \<Longrightarrow> gsteps g g'"
  by (simp add: gstep.local r_into_rtranclp)

lemma gsteps_local_trans:
  "\<lbrakk> gsteps (g\<lparr>g_mismatch := m\<rparr>) g' \<rbrakk> \<Longrightarrow> gsteps g g'"
  "\<lbrakk> gsteps (g\<lparr>g_tick_count := t\<rparr>) g' \<rbrakk> \<Longrightarrow> gsteps g g'"
  "\<lbrakk> gsteps (g\<lparr>g_idx := i\<rparr>) g' \<rbrakk> \<Longrightarrow> gsteps g g'"
  by (rule rtranclp_trans [OF gsteps_local], simp_all)+

lemma gsteps_syncs: "gsteps g g' \<Longrightarrow> gsteps g (g'\<lparr>g_syncs := n\<rparr>)"
  by (rule rtranclp_trans [OF _ gsteps_local]) simp_all

lemma apply_incoming_steps: "gsteps g (apply_incoming now ev g)"
proof -
  obtain b cbs s where eq: "Swim_applyEvent now (g_swim g) ev = (b, cbs, s)"
    by (metis prod_cases3)
  have 1: "gsteps g (commit g cbs s)"
    by (rule gsteps_swim, rule swim_step.applyEvent [OF eq])
  have "gsteps (commit g cbs s) (commit (commit g cbs s) [] (Swim_enqueueEvent s ev))"
    by (rule gsteps_swim, rule swim_step.enqueueEvent) simp
  with 1 have "gsteps g (commit (commit g cbs s) [] (Swim_enqueueEvent s ev))"
    by (rule rtranclp_trans)
  with 1 show ?thesis
    by (simp add: apply_incoming_def eq Let_def)
qed

lemma fold_incoming_steps: "gsteps g (fold (apply_incoming now) evs g)"
proof (induction evs arbitrary: g)
  case (Cons ev evs)
  show ?case
    using rtranclp_trans [OF apply_incoming_steps Cons.IH] by simp
qed simp

lemma applyIncomingEvents_steps: "gsteps g (GossipThread_applyIncomingEvents now txt g)"
  by (simp add: GossipThread_applyIncomingEvents_def fold_incoming_steps)

lemmas incoming_trans = rtranclp_trans [OF applyIncomingEvents_steps]

lemma sent_steps: "gsteps g (commit g [] (snd (Swim_getEventsToSend (g_swim g))))"
  by (rule gsteps_swim, rule swim_step.getEventsToSend) (rule surjective_pairing)

lemma build_steps:
  "GossipThread_buildPing g i = (m, g') \<Longrightarrow> gsteps g g'"
  "GossipThread_buildPingReq g i = (m, g') \<Longrightarrow> gsteps g g'"
  "GossipThread_buildAck g i = (m, g') \<Longrightarrow> gsteps g g'"
  using sent_steps [of g]
  by (auto simp: GossipThread_buildPing_def GossipThread_buildPingReq_def GossipThread_buildAck_def
      split: prod.splits)

lemma performSync_steps: "GossipThread_performSync net peer g e = (g', e') \<Longrightarrow> gsteps g g'"
  by (auto simp: GossipThread_performSync_def Let_def split: prod.splits if_splits
      intro: gsteps_syncs applyIncomingEvents_steps)

lemma maybeSync_steps: "GossipThread_maybeSync net peer d g e = (g', e') \<Longrightarrow> gsteps g g'"
  by (auto simp: GossipThread_maybeSync_def Let_def split: option.splits if_splits
      intro: gsteps_local gsteps_local_trans dest!: performSync_steps)

lemma handleAck_steps: "GossipThread_handleAck net peer resp g e = (b, g', e') \<Longrightarrow> gsteps g g'"
  by (auto simp: GossipThread_handleAck_def Let_def split: if_splits
      intro: incoming_trans dest!: maybeSync_steps)

lemma handleAck_snd_steps: "snd (GossipThread_handleAck net peer resp g e) = (g', e') \<Longrightarrow> gsteps g g'"
  by (metis handleAck_steps prod.collapse)

lemma probeDead_steps: "GossipThread_probeDead net target g e = (g', e') \<Longrightarrow> gsteps g g'"
  by (auto simp: GossipThread_probeDead_def split: prod.splits
      dest!: build_steps handleAck_snd_steps intro: rtranclp_trans)

lemma probe_proxies_steps: "probe_proxies net i ps g e = (b, g', e') \<Longrightarrow> gsteps g g'"
proof (induction ps arbitrary: g e)
  case (Cons p ps)
  then show ?case
    by (auto split: prod.splits if_splits dest!: build_steps handleAck_steps intro: rtranclp_trans)
qed simp

lemma pingTarget_steps:
  assumes "GossipThread_pingTarget net target g e = (g', e')"
  shows "gsteps g g'"
proof -
  have suspect: "gsteps g (commit g [] (Swim_suspect now (g_swim g) i))" for g now i
    by (rule gsteps_swim, rule swim_step.suspect) simp
  obtain ping g1 where ping: "GossipThread_buildPing g (node_id target) = (ping, g1)"
    by fastforce
  obtain resp e1 where send: "net_send net e (host target) (port target) ping = (resp, e1)"
    by fastforce
  obtain b g2 e2 where probe: "probe_proxies net (node_id target)
      (Swim_randomPeers (net_shuffle net e1) (g_swim g1) (indirect_probe_count (g_config g1))
        [node_id target]) g1 e1 = (b, g2, e2)"
    by (metis prod_cases3)
  have "gsteps g1 g'"
    using assms probe_proxies_steps [OF probe] rtranclp_trans [OF probe_proxies_steps [OF probe] suspect]
    by (auto simp: GossipThread_pingTarget_def Let_def ping send probe split: if_splits
        dest!: handleAck_snd_steps)
  then show ?thesis
    by (rule rtranclp_trans [OF build_steps(1) [OF ping]])
qed

lemma tick_steps:
  assumes "GossipThread_tick net g e = (g', e')"
  shows "gsteps g g'"
proof -
  let ?g = "g\<lparr>g_tick_count := g_tick_count g + 1\<rparr>"
  have 0: "gsteps g ?g"
    by (rule gsteps_local) simp_all
  obtain ids cbs s where eq: "Swim_expireSuspects (net_now net e) (g_swim ?g)
      (protocol_period (g_config ?g) * cfg_suspicion_mult (g_config ?g)) = (ids, cbs, s)"
    by (metis prod_cases3)
  have 1: "gsteps g (commit ?g cbs s)"
    by (rule rtranclp_trans [OF 0 gsteps_swim], rule swim_step.expireSuspects [OF eq])
  obtain g2 e2 where eq2: "tick_probe_dead net (commit ?g cbs s) e = (g2, e2)"
    by fastforce
  then have "gsteps (commit ?g cbs s) g2"
    by (auto simp: tick_probe_dead_def Let_def split: if_splits dest!: probeDead_steps)
  with 1 have 2: "gsteps g g2"
    by (rule rtranclp_trans)
  show ?thesis
    using assms 0 2 eq eq2
    by (auto simp: GossipThread_tick_def Let_def split: if_splits
        dest!: pingTarget_steps gsteps_local_trans(3) intro: rtranclp_trans)
qed

lemma joinViaSeeds_steps: "GossipThread_joinViaSeeds net seeds g e = (g', e') \<Longrightarrow> gsteps g g'"
proof (induction seeds arbitrary: e)
  case (Cons seed seeds)
  then show ?case
    by (auto simp: Let_def applyIncomingEvents_steps split: if_splits option.splits prod.splits)
qed simp

lemma requestLeave_steps: "GossipThread_requestLeave g i = (b, g') \<Longrightarrow> gsteps g g'"
  by (auto simp: GossipThread_requestLeave_def split: if_splits prod.splits
      intro: gsteps_swim swim_step.leave)

lemma handle_join_steps:
  assumes "handle_join now f g = (resp, g')"
  shows "gsteps g g'"
proof (cases "isValidNodeId (field f 1)")
  case True
  define ev where "ev = \<lparr>ev_type = EventType.Join, ev_node_id = field f 1, ev_host = field f 2,
      ev_port = (case stoi (field f 3) of None \<Rightarrow> 0 | Some p \<Rightarrow> u16_of_int p),
      ev_incarnation = (case stoull (field f 4) of None \<Rightarrow> 0 | Some n \<Rightarrow> n)\<rparr>"
  define h where "h = GossipThread_applyIncomingEvents now (field f 5) g"
  obtain eff cbs s where eq: "Swim_applyDirectJoin (g_swim h) ev = (eff, cbs, s)"
    by (metis prod_cases3)
  have "gsteps h (commit h cbs s)"
    by (rule gsteps_swim, rule swim_step.applyDirectJoin [OF eq])
  moreover have "gsteps (commit h cbs s) (commit (commit h cbs s) [] (Swim_enqueueEvent s x))" for x
    by (rule gsteps_swim, rule swim_step.enqueueEvent) simp
  moreover have "g' = commit h cbs s \<or> (\<exists>x. g' = commit (commit h cbs s) [] (Swim_enqueueEvent s x))"
    using assms True eq by (auto simp: handle_join_def Let_def h_def ev_def split: option.splits)
  ultimately show ?thesis
    using applyIncomingEvents_steps [of g now "field f 5"] rtranclp_trans unfolding h_def by metis
qed (use assms in \<open>simp add: handle_join_def\<close>)

lemma handle_ping_req_steps:
  assumes "handle_ping_req net f g e = (resp, g', e')"
  shows "gsteps g g'"
proof -
  have "gsteps (GossipThread_applyIncomingEvents (net_now net e) (field f 4) g) g'"
    using assms
    by (auto simp: handle_ping_req_def Let_def split: option.splits prod.splits if_splits
        dest!: build_steps intro: rtranclp_trans)
  then show ?thesis by (rule incoming_trans)
qed

lemma handleMessage_steps:
  assumes "GossipThread_handleMessage net payload g e = (resp, g', e')"
  shows "gsteps g g'"
proof -
  have sync: "handle_sync now f g = (resp, h) \<Longrightarrow> gsteps g h" for now f h
    by (auto simp: handle_sync_def Let_def intro: gsteps_syncs applyIncomingEvents_steps)
  show ?thesis
    using assms
    by (auto simp: GossipThread_handleMessage_def Let_def split: if_splits prod.splits
        dest!: build_steps handle_join_steps handle_ping_req_steps sync
        intro: incoming_trans applyIncomingEvents_steps)
qed

lemma gossip_op_steps: "gossip_op net g g' \<Longrightarrow> gsteps g g'"
  by (induction rule: gossip_op.induct)
    (blast intro: tick_steps handleMessage_steps joinViaSeeds_steps requestLeave_steps)+

text \<open>The router has seen exactly the member changes that were reported.\<close>

lemma gsteps_fired:
  "gsteps g g' \<Longrightarrow>
     \<exists>cbs. g_fired g' = g_fired g @ cbs \<and> g_router g' = fold on_member_change cbs (g_router g)"
proof (induction rule: rtranclp_induct)
  case (step h h')
  then obtain cbs where cbs: "g_fired h = g_fired g @ cbs" "g_router h = fold on_member_change cbs (g_router g)"
    by blast
  from step.hyps(2) show ?case
  proof cases
    case (swim cbs' s)
    then show ?thesis using cbs by (intro exI [of _ "cbs @ cbs'"]) simp
  next
    case local
    then show ?thesis using cbs by simp
  qed
qed simp

lemma gossip_ops_steps: "(gossip_op net)\<^sup>*\<^sup>* g g' \<Longrightarrow> gsteps g g'"
  by (induction rule: rtranclp_induct) (auto dest!: gossip_op_steps)

section \<open>The ring follows the membership view\<close>

lemma nodes_add [simp]:
  "om_keys (nodes (Router_addPhysicalNode r n)) = insert (node_id n) (om_keys (nodes r))"
  "om_keys (nodes (Router_removePhysicalNode r i)) = om_keys (nodes r) - {i}"
proof -
  have "nodes (fold (Router_insertVNode n) ks r) = nodes r" for ks r
    by (induction ks arbitrary: r) (simp_all add: Router_insertVNode_def)
  then show "om_keys (nodes (Router_addPhysicalNode r n)) = insert (node_id n) (om_keys (nodes r))"
    by (auto simp: Router_addPhysicalNode_def om_keys_iff)
  show "om_keys (nodes (Router_removePhysicalNode r i)) = om_keys (nodes r) - {i}"
    by (auto simp: Router_removePhysicalNode_def om_keys_iff)
qed

lemma ring_sync_iff:
  assumes "swim_wf s"
  shows "ring_sync s r \<longleftrightarrow>
     (\<forall>i \<in> om_keys (nodes r). i \<noteq> node_id (self s) \<longrightarrow>
        (\<exists>e. map_of (members s) i = Some e \<and> state e \<noteq> MemberState.Left)) \<and>
     (\<forall>i e. map_of (members s) i = Some e \<longrightarrow> live e \<longrightarrow> i \<in> om_keys (nodes r)) \<and>
     (self_left s \<longleftrightarrow> node_id (self s) \<notin> om_keys (nodes r))"
proof -
  have "(\<forall>m \<in> set (members s). live (snd m) \<longrightarrow> fst m \<in> om_keys (nodes r)) \<longleftrightarrow>
      (\<forall>i e. map_of (members s) i = Some e \<longrightarrow> live e \<longrightarrow> i \<in> om_keys (nodes r))"
    using om_in_set_iff [OF swim_wf_om [OF assms]] by fastforce
  moreover have "(\<forall>i \<in> om_keys (nodes r). Swim_stateOf s i \<noteq> None \<and> Swim_stateOf s i \<noteq> Some MemberState.Left) \<longleftrightarrow>
      (\<forall>i \<in> om_keys (nodes r). i \<noteq> node_id (self s) \<longrightarrow>
        (\<exists>e. map_of (members s) i = Some e \<and> state e \<noteq> MemberState.Left)) \<and>
      (node_id (self s) \<in> om_keys (nodes r) \<longrightarrow> \<not> self_left s)"
    by (auto simp: Swim_stateOf_def)
  ultimately show ?thesis
    unfolding ring_sync_def by blast
qed

lemma ring_sync_live:
  "\<lbrakk> swim_wf s; ring_sync s r; map_of (members s) i = Some e; live e \<rbrakk> \<Longrightarrow> i \<in> om_keys (nodes r)"
  by (simp add: ring_sync_iff)

lemma ring_sync_known:
  "\<lbrakk> swim_wf s; ring_sync s r; i \<in> om_keys (nodes r); i \<noteq> node_id (self s) \<rbrakk>
   \<Longrightarrow> \<exists>e. map_of (members s) i = Some e \<and> state e \<noteq> MemberState.Left"
  by (simp add: ring_sync_iff)

lemma ring_sync_self:
  "\<lbrakk> swim_wf s; ring_sync s r \<rbrakk> \<Longrightarrow> self_left s \<longleftrightarrow> node_id (self s) \<notin> om_keys (nodes r)"
  by (simp add: ring_sync_iff)

text \<open>How one step changes the ids in the ring, given what it changes in the view.\<close>

lemma ring_sync_same:
  assumes "swim_wf s" "swim_wf s'" "ring_sync s r" "self s' = self s" "self_left s' = self_left s"
    and "\<And>i. map_option (\<lambda>e. (live e, state e = MemberState.Left)) (map_of (members s') i) =
      map_option (\<lambda>e. (live e, state e = MemberState.Left)) (map_of (members s) i)"
  shows "ring_sync s' r"
proof -
  have 1: "\<exists>e'. map_of (members s) i = Some e' \<and> live e' = live e \<and>
      (state e' = MemberState.Left) = (state e = MemberState.Left)"
    if "map_of (members s') i = Some e" for i e
    using assms(6) [of i] that by (cases "map_of (members s) i") auto
  have 2: "\<exists>e'. map_of (members s') i = Some e' \<and> live e' = live e \<and>
      (state e' = MemberState.Left) = (state e = MemberState.Left)"
    if "map_of (members s) i = Some e" for i e
    using assms(6) [of i] that by (cases "map_of (members s') i") auto
  show ?thesis
    using assms(1-5) unfolding ring_sync_iff [OF assms(1)] ring_sync_iff [OF assms(2)]
    by (simp, meson 1 2)
qed

lemma ring_sync_simps [simp]:
  "ring_sync (Swim_enqueueEvent s ev) r = ring_sync s r"
  "ring_sync (s\<lparr>own_incarnation := n\<rparr>) r = ring_sync s r"
  "ring_sync (s\<lparr>pending_events := ps\<rparr>) r = ring_sync s r"
  by (simp_all add: ring_sync_def Swim_stateOf_def)

lemma ring_sync_put:
  assumes "swim_wf s" "ring_sync s r" "i \<noteq> node_id (self s)" "node_id (info e) = i"
  shows "live e \<Longrightarrow> node_id n = i \<Longrightarrow> ring_sync (put_member s i e) (Router_addPhysicalNode r n)"
    and "\<lbrakk> live e; map_of (members s) i = Some e'; live e' \<rbrakk> \<Longrightarrow> ring_sync (put_member s i e) r"
    and "state e = MemberState.Dead \<Longrightarrow> ring_sync (put_member s i e) r"
    and "state e = MemberState.Left \<Longrightarrow> ring_sync (put_member s i e) (Router_removePhysicalNode r i)"
    and "\<lbrakk> state e = MemberState.Left; map_of (members s) i = None \<rbrakk> \<Longrightarrow> ring_sync (put_member s i e) r"
proof -
  have wf: "swim_wf (put_member s i e)"
    using assms by (auto intro: swim_wf_put)
  note iff = ring_sync_iff [OF wf] ring_sync_iff [OF assms(1)]
  show "live e \<Longrightarrow> node_id n = i \<Longrightarrow> ring_sync (put_member s i e) (Router_addPhysicalNode r n)"
    using assms(2-4) unfolding iff by (auto simp: live_def)
  show "\<lbrakk> live e; map_of (members s) i = Some e'; live e' \<rbrakk> \<Longrightarrow> ring_sync (put_member s i e) r"
    using assms(2-4) unfolding iff by (auto simp: live_def)
  show "state e = MemberState.Dead \<Longrightarrow> ring_sync (put_member s i e) r"
    using assms(2-4) unfolding iff by (auto simp: live_def)
  show "state e = MemberState.Left \<Longrightarrow> ring_sync (put_member s i e) (Router_removePhysicalNode r i)"
    using assms(2-4) unfolding iff by (auto simp: live_def)
  show "\<lbrakk> state e = MemberState.Left; map_of (members s) i = None \<rbrakk> \<Longrightarrow> ring_sync (put_member s i e) r"
    using assms(2-4) unfolding iff by (auto simp: live_def)
qed

lemma ring_sync_retire:
  assumes "swim_wf s" "ring_sync s r"
  shows "ring_sync (s\<lparr>self_left := True\<rparr>) (Router_removePhysicalNode r (node_id (self s)))"
proof -
  have wf: "swim_wf (s\<lparr>self_left := True\<rparr>)"
    using assms by simp
  show ?thesis
    using assms(2) wf_not_self [OF assms(1)]
    unfolding ring_sync_iff [OF assms(1)] ring_sync_iff [OF wf] by auto
qed

lemma applyEvent_ring:
  assumes "swim_wf s" "ring_sync s r" "Swim_applyEvent now s ev = (b, cbs, s')"
  shows "ring_sync s' (fold on_member_change cbs r)"
proof (cases "ev_node_id ev = node_id (self s)")
  case True
  then show ?thesis
    using assms ring_sync_retire [OF assms(1,2)]
    by (auto simp: Swim_applyEvent_def apply_self_def Let_def split: if_splits)
next
  case False
  note put = ring_sync_put [OF assms(1,2) False]
  show ?thesis
  proof (cases "map_of (members s) (ev_node_id ev)")
    case None
    then show ?thesis
      using assms(2,3) False put by (cases "ev_type ev") (auto simp: applyEvent_defs Let_def live_def)
  next
    case (Some e)
    have id: "node_id (info e) = ev_node_id ev"
      using swim_wf_id [OF assms(1) Some] .
    have susp: "live e" if "state e \<noteq> MemberState.Dead" "state e \<noteq> MemberState.Left"
      using that by (cases "state e") (simp_all add: live_def)
    show ?thesis
      using assms(2,3) False Some id susp put(1,3,4) put(2) [OF _ _ Some]
      by (cases "ev_type ev") (auto simp: applyEvent_defs Let_def live_def split: if_splits)
  qed
qed

lemma applyDirectJoin_ring:
  assumes "swim_wf s" "ring_sync s r" "Swim_applyDirectJoin s ev = (eff, cbs, s')"
  shows "ring_sync s' (fold on_member_change cbs r)"
proof (cases "ev_node_id ev = node_id (self s)")
  case False
  note put = ring_sync_put [OF assms(1,2) False]
  show ?thesis
    using assms(2,3) False put(1) put(2) swim_wf_id [OF assms(1), of "ev_node_id ev"]
    by (auto simp: Swim_applyDirectJoin_def Let_def live_def split: option.splits if_splits)
qed (use assms in \<open>auto simp: Swim_applyDirectJoin_def\<close>)

lemma local_ring:
  assumes "swim_wf s" "ring_sync s r" "map_of (members s) i = Some e" "state e \<noteq> MemberState.Left"
  shows "ring_sync (put_member s i (e\<lparr>state := MemberState.Dead\<rparr>)) r"
    and "ring_sync (put_member s i (e\<lparr>state := MemberState.Left\<rparr>)) (Router_removePhysicalNode r i)"
    and "live e \<Longrightarrow> ring_sync (put_member s i (e\<lparr>state := MemberState.Suspect, suspect_since := t\<rparr>)) r"
  using ring_sync_put [OF assms(1,2) wf_not_self [OF assms(1,3)]] swim_wf_id [OF assms(1,3)] assms(3)
  by (simp_all add: live_def)

lemma leave_ring:
  assumes "swim_wf s" "ring_sync s r" "Swim_leave s i = (cbs, s')"
  shows "ring_sync s' (fold on_member_change cbs r)"
  using assms ring_sync_retire [OF assms(1,2)] local_ring(2) [OF assms(1,2), of i]
    swim_wf_id [OF assms(1), of i]
  by (auto simp: Swim_leave_def split: if_splits option.splits)

lemma fold_dead: "fold on_member_change (map (\<lambda>m. (f m, MemberState.Dead)) ms) r = r"
  by (induction ms) simp_all

lemma expireSuspects_self:
  "Swim_expireSuspects now s t = (ids, cbs, s') \<Longrightarrow> self s' = self s \<and> self_left s' = self_left s"
proof -
  have "self (snd (snd (fold (expire_one now t) ms acc))) = self (snd (snd acc)) \<and>
      self_left (snd (snd (fold (expire_one now t) ms acc))) = self_left (snd (snd acc))" for ms acc
    by (induction ms arbitrary: acc) (simp_all add: expire_one_def split: prod.splits)
  from this [of "members s" "([], [], s)"]
  show "Swim_expireSuspects now s t = (ids, cbs, s') \<Longrightarrow> self s' = self s \<and> self_left s' = self_left s"
    by (simp add: Swim_expireSuspects_def)
qed

lemma expireSuspects_ring:
  assumes "swim_wf s" "ring_sync s r" "Swim_expireSuspects now s t = (ids, cbs, s')"
  shows "ring_sync s' (fold on_member_change cbs r)"
proof -
  let ?f = "\<lambda>e. if suspicion_expired now t e then e\<lparr>state := MemberState.Dead\<rparr> else e"
  from expireSuspects_spec [OF assms(1,3)]
  have wf: "swim_wf s'"
    and cbs: "cbs = map (\<lambda>m. (info (snd m), MemberState.Dead))
      (filter (\<lambda>m. suspicion_expired now t (snd m)) (members s))"
    and m: "\<And>i. map_of (members s') i = map_option ?f (map_of (members s) i)"
    by simp_all
  have f: "state (?f e) = MemberState.Left \<longleftrightarrow> state e = MemberState.Left" "live (?f e) \<Longrightarrow> live e" for e
    by (auto simp: live_def suspicion_expired_def)
  have "ring_sync s' r"
    unfolding ring_sync_iff [OF wf]
  proof (intro conjI ballI allI impI)
    fix i assume "i \<in> om_keys (nodes r)" "i \<noteq> node_id (self s')"
    then obtain e where "map_of (members s) i = Some e" "state e \<noteq> MemberState.Left"
      using ring_sync_known [OF assms(1,2), of i] expireSuspects_self [OF assms(3)] by auto
    then show "\<exists>e. map_of (members s') i = Some e \<and> state e \<noteq> MemberState.Left"
      using f(1) [of e] by (simp only: m option.map) blast
  next
    fix i e assume e: "map_of (members s') i = Some e" "live e"
    from e(1) have "map_option ?f (map_of (members s) i) = Some e"
      by (simp only: m)
    then obtain e' where e': "map_of (members s) i = Some e'" "?f e' = e"
      unfolding map_option_eq_Some by blast
    have "live e'"
      by (rule f(2)) (simp only: e'(2) e(2))
    then show "i \<in> om_keys (nodes r)"
      by (rule ring_sync_live [OF assms(1,2) e'(1)])
  next
    show "self_left s' = (node_id (self s') \<notin> om_keys (nodes r))"
      using ring_sync_self [OF assms(1,2)] expireSuspects_self [OF assms(3)] by simp
  qed
  then show ?thesis
    by (simp only: cbs fold_dead)
qed

lemma swim_step_ring:
  "\<lbrakk> swim_step s cbs s'; swim_wf s; ring_sync s r \<rbrakk> \<Longrightarrow> ring_sync s' (fold on_member_change cbs r)"
proof (induction rule: swim_step.induct)
  case (applyEvent now s ev b cbs s')
  from applyEvent_ring [OF applyEvent(2,3,1)] show ?case .
next
  case (applyDirectJoin s ev r cbs s')
  from applyDirectJoin_ring [OF applyDirectJoin(2,3,1)] show ?case .
next
  case (leave s i cbs s')
  from leave_ring [OF leave(2,3,1)] show ?case .
next
  case (suspect now s i s')
  show ?case
    using suspect(3) local_ring(3) [OF suspect(2,3), of i _ now]
    unfolding suspect(1) [symmetric] Swim_suspect_def
    by (cases "map_of (members s) i") (simp_all add: live_def)
next
  case (confirmDead s i cbs s')
  show ?case
    using confirmDead(1,3) local_ring(1) [OF confirmDead(2,3), of i]
    unfolding Swim_confirmDead_def
    by (cases "map_of (members s) i") (auto split: if_splits)
next
  case (refute s inc s')
  then show ?case by (auto simp: Swim_refute_def Let_def)
next
  case (getEventsToSend s evs s')
  then show ?case by (auto simp: Swim_getEventsToSend_def)
next
  case (enqueueEvent s ev s')
  then show ?case by auto
next
  case (expireSuspects now s t ids cbs s')
  from expireSuspects_ring [OF expireSuspects(2,3,1)] show ?case .
qed

lemma gstep_wf: "\<lbrakk> gstep g g'; gossip_wf g \<rbrakk> \<Longrightarrow> gossip_wf g'"
  by (induction rule: gstep.induct) (auto simp: gossip_wf_def dest: swim_step_wf swim_step_ring)

lemma gsteps_wf: "\<lbrakk> gsteps g g'; gossip_wf g \<rbrakk> \<Longrightarrow> gossip_wf g'"
  by (induction rule: rtranclp_induct) (auto dest: gstep_wf)

lemma gstep_le: "\<lbrakk> gstep g g'; gossip_wf g \<rbrakk> \<Longrightarrow> swim_le (g_swim g) (g_swim g')"
  by (induction rule: gstep.induct) (auto simp: gossip_wf_def dest: swim_step_wf)

lemma gsteps_le: "\<lbrakk> gsteps g g'; gossip_wf g \<rbrakk> \<Longrightarrow> swim_le (g_swim g) (g_swim g')"
proof (induction rule: rtranclp_induct)
  case (step g' g'')
  then show ?case using gsteps_wf gstep_le swim_le_trans by blast
qed simp

lemma left_stays:
  assumes "swim_le s s'" "Swim_stateOf s i = Some MemberState.Left"
  shows "Swim_stateOf s' i = Some MemberState.Left"
proof (cases "i = node_id (self s)")
  case True
  then show ?thesis
    using assms by (auto simp: swim_le_def Swim_stateOf_def split: if_splits)
next
  case False
  then obtain e where e: "map_of (members s) i = Some e" "state e = MemberState.Left"
    using assms(2) by (auto simp: Swim_stateOf_def)
  then obtain e' where "map_of (members s') i = Some e'" "entry_le e e'"
    using assms(1) unfolding swim_le_def by blast
  then show ?thesis
    using assms(1) False e(2) by (simp add: swim_le_def entry_le_def Swim_stateOf_def)
qed

lemma left_not_in_ring:
  assumes "gossip_wf g" "Swim_stateOf (g_swim g) i = Some MemberState.Left"
  shows "i \<notin> om_keys (nodes (g_router g))"
  using assms by (auto simp: gossip_wf_def ring_sync_def)

lemma leave_left:
  "Swim_stateOf s i \<noteq> None \<Longrightarrow> Swim_stateOf (snd (Swim_leave s i)) i = Some MemberState.Left"
proof (cases "i = node_id (self s)")
  case False
  then show "Swim_stateOf s i \<noteq> None \<Longrightarrow> ?thesis"
    by (cases "map_of (members s) i") (simp_all add: Swim_leave_def Swim_stateOf_def)
qed (simp add: Swim_leave_def Swim_stateOf_def)

lemma requestLeave_left:
  assumes "GossipThread_requestLeave g i = (True, g')"
  shows "Swim_stateOf (g_swim g') i = Some MemberState.Left"
proof -
  have known: "Swim_stateOf (g_swim g) i \<noteq> None"
    using assms by (simp add: GossipThread_requestLeave_def split: if_splits)
  have "g_swim g' = snd (Swim_leave (g_swim g) i)"
    using assms known by (auto simp: GossipThread_requestLeave_def split: prod.splits)
  then show ?thesis
    using leave_left [OF known] by simp
qed

lemma gossip_wf_new:
  "om_keys (nodes r) = {node_id me} \<Longrightarrow> gossip_wf (GossipThread_new me r cfg)"
  by (simp add: gossip_wf_def GossipThread_new_def ring_sync_def Swim_stateOf_def)
    (simp add: Swim_new_def)

section \<open>Full-state exchange\<close>

lemma apply_incoming_members:
  assumes "isValidNodeId (ev_node_id ev)" "i \<noteq> node_id (self (g_swim g))"
  shows "map_of (members (g_swim (apply_incoming now ev g))) i =
    (if i = ev_node_id ev then entry_apply now ev (map_of (members (g_swim g)) i)
     else map_of (members (g_swim g)) i)"
proof -
  obtain b cbs s where eq: "Swim_applyEvent now (g_swim g) ev = (b, cbs, s)"
    by (metis prod_cases3)
  have "members (g_swim (apply_incoming now ev g)) = members s"
    using assms(1) by (simp add: apply_incoming_def eq Let_def)
  then show ?thesis
    using assms(2) applyEvent_members [OF _ eq] applyEvent_members_self [OF _ eq]
    by (cases "ev_node_id ev = node_id (self (g_swim g))") auto
qed

lemma apply_incoming_self [simp]: "self (g_swim (apply_incoming now ev g)) = self (g_swim g)"
proof -
  obtain b cbs s where eq: "Swim_applyEvent now (g_swim g) ev = (b, cbs, s)"
    by (metis prod_cases3)
  then show ?thesis
    using applyEvent_self [of now "g_swim g" ev] by (simp add: apply_incoming_def Let_def)
qed

lemma apply_incoming_g_self [simp]: "g_self (apply_incoming now ev g) = g_self g"
  by (simp add: apply_incoming_def Let_def split: prod.splits)

lemma fold_incoming_self [simp]:
  "self (g_swim (fold (apply_incoming now) evs g)) = self (g_swim g)"
  "g_self (fold (apply_incoming now) evs g) = g_self g"
  by (induction evs arbitrary: g) simp_all

lemma fold_incoming_wf: "swim_wf (g_swim g) \<Longrightarrow> swim_wf (g_swim (fold (apply_incoming now) evs g))"
proof (induction evs arbitrary: g)
  case (Cons ev evs)
  obtain b cbs s where eq: "Swim_applyEvent now (g_swim g) ev = (b, cbs, s)"
    by (metis prod_cases3)
  have "swim_wf (g_swim (apply_incoming now ev g))"
    using applyEvent_wf [OF Cons.prems eq] Cons.prems
    by (simp add: apply_incoming_def eq Let_def swim_wf_enqueue)
  then show ?case by (simp add: Cons.IH)
qed simp

abbreviation by_id :: "MemberEvent list \<Rightarrow> (string \<times> MemberEvent) list" where
  "by_id evs \<equiv> map (\<lambda>ev. (ev_node_id ev, ev)) evs"

lemma fold_incoming_members:
  assumes "\<forall>ev \<in> set evs. isValidNodeId (ev_node_id ev)" "distinct (map ev_node_id evs)"
    and "i \<noteq> node_id (self (g_swim g))"
  shows "map_of (members (g_swim (fold (apply_incoming now) evs g))) i =
    (case map_of (by_id evs) i of
       None \<Rightarrow> map_of (members (g_swim g)) i
     | Some ev \<Rightarrow> entry_apply now ev (map_of (members (g_swim g)) i))"
  using assms
proof (induction evs arbitrary: g)
  case (Cons ev evs)
  let ?g = "apply_incoming now ev g"
  have IH: "map_of (members (g_swim (fold (apply_incoming now) evs ?g))) i =
    (case map_of (by_id evs) i of
       None \<Rightarrow> map_of (members (g_swim ?g)) i
     | Some ev \<Rightarrow> entry_apply now ev (map_of (members (g_swim ?g)) i))"
    using Cons.prems by (intro Cons.IH) simp_all
  have none: "map_of (by_id evs) (ev_node_id ev) = None"
    using Cons.prems(2) by (auto simp: map_of_eq_None_iff)
  have step: "map_of (members (g_swim ?g)) i =
      (if i = ev_node_id ev then entry_apply now ev (map_of (members (g_swim g)) i)
       else map_of (members (g_swim g)) i)"
    using Cons.prems by (intro apply_incoming_members) simp_all
  show ?case
  proof (cases "i = ev_node_id ev")
    case True
    then show ?thesis using none IH step by simp
  next
    case False
    then show ?thesis using IH step by (cases "map_of (by_id evs) i") simp_all
  qed
qed simp

lemma fullState_by_id:
  assumes "swim_wf s" "i \<noteq> node_id (self s)"
  shows "map_of (by_id (Swim_fullState s)) i =
    map_option (\<lambda>e. member_event (i, e)) (map_of (members s) i)"
proof -
  have "map_of (by_id (map member_event ms)) i = map_option (\<lambda>e. member_event (i, e)) (map_of ms i)" for ms
    by (induction ms) (auto simp: member_event_def)
  then show ?thesis
    using assms(2) by (simp add: Swim_fullState_def self_alive_def)
qed

lemma fullState_distinct: "swim_wf s \<Longrightarrow> distinct (map ev_node_id (Swim_fullState s))"
proof -
  assume "swim_wf s"
  then have "distinct (map fst (members s))" "node_id (self s) \<notin> fst ` set (members s)"
    by (auto simp: swim_wf_def map_of_eq_None_iff dest: om_wf_distinct)
  moreover have "map ev_node_id (map member_event (members s)) = map fst (members s)"
    by (simp add: member_event_def)
  ultimately show ?thesis
    by (auto simp: Swim_fullState_def self_alive_def member_event_def comp_def)
qed

lemma sync_type_clean:
  "type_of_char (type_char (sync_type st)) = sync_type st \<and> type_char (sync_type st) \<noteq> CHR '';'' \<and>
   type_char (sync_type st) \<noteq> CHR ''|''"
  by (cases st) (simp_all add: type_of_char_def)

lemma fullState_clean: "view_clean s \<Longrightarrow> \<forall>ev \<in> set (Swim_fullState s). event_clean ev"
proof -
  have "type_of_char CHR ''A'' = EventType.Alive" "type_of_char CHR ''L'' = EventType.Leave"
    by (simp_all add: type_of_char_def)
  then show "view_clean s \<Longrightarrow> ?thesis"
    using sync_type_clean
    by (auto simp: Swim_fullState_def event_clean_def view_clean_def self_alive_def member_event_def)
qed

lemma event_clean_ok: "event_clean ev \<Longrightarrow> ev_ok ev"
  using isValidNodeId_clean [of "ev_node_id ev"] by (auto simp: event_clean_def ev_ok_def host_ok_def)

lemma events_clean_codec:
  assumes "\<forall>ev \<in> set evs. event_clean ev"
  shows "deserializeEvents (serializeEvents evs) = evs" "CHR ''|'' \<notin> set (serializeEvents evs)"
proof -
  show "deserializeEvents (serializeEvents evs) = evs"
    using assms event_clean_ok by (intro events_roundtrip) blast
  show "CHR ''|'' \<notin> set (serializeEvents evs)"
    using assms isValidNodeId_clean(1) by (intro events_bar_free) (auto simp: event_clean_def host_ok_def)
qed

lemma serializeEvents_Nil: "serializeEvents evs = [] \<Longrightarrow> \<forall>ev \<in> set evs. event_clean ev \<Longrightarrow> evs = []"
  using events_clean_codec(1) [of evs] by (simp add: deserializeEvents_def)

lemma split_sync:
  assumes "isValidNodeId i" "CHR ''|'' \<notin> set txt"
  shows "splitAll (''SWIM_SYNC|'' @ i @ ''|'' @ txt) (CHR ''|'') = [''SWIM_SYNC'', i, txt]"
    "splitAll (''SWIM_SYNC_ACK|'' @ i @ ''|'' @ txt) (CHR ''|'') = [''SWIM_SYNC_ACK'', i, txt]"
  using splitAll_join [of "[''SWIM_SYNC'', i, txt]" "CHR ''|''"]
    splitAll_join [of "[''SWIM_SYNC_ACK'', i, txt]" "CHR ''|''"] assms isValidNodeId_clean(1) [of i]
  by simp_all

lemma applyIncoming_clean:
  assumes "\<forall>ev \<in> set evs. event_clean ev"
  shows "GossipThread_applyIncomingEvents now (serializeEvents evs) g = fold (apply_incoming now) evs g"
  using events_clean_codec(1) [OF assms] serializeEvents_Nil [OF _ assms]
  by (auto simp: GossipThread_applyIncomingEvents_def)

lemma entry_apply_host:
  assumes "entry_apply now ev x = Some e'"
  shows "host (info e') = ev_host ev \<or> (\<exists>e. x = Some e \<and> host (info e') = host (info e))"
  using assms
  by (cases x; cases "ev_type ev")
    (auto simp: event_entry_def mkNodeInfo_def refresh_address_def split: if_splits)

lemma fold_incoming_clean:
  assumes "swim_wf (g_swim g)" "view_clean (g_swim g)" "\<forall>ev \<in> set evs. event_clean ev"
    and "distinct (map ev_node_id evs)"
  shows "view_clean (g_swim (fold (apply_incoming now) evs g))"
proof -
  let ?h = "fold (apply_incoming now) evs g"
  have "swim_wf (g_swim ?h)"
    using fold_incoming_wf [OF assms(1)] .
  have "isValidNodeId i \<and> host_ok (host (info e))" if ie: "(i, e) \<in> set (members (g_swim ?h))" for i e
  proof -
    have mi: "map_of (members (g_swim ?h)) i = Some e"
      using ie om_in_set_iff [OF swim_wf_om [OF \<open>swim_wf (g_swim ?h)\<close>]] by blast
    have neq: "i \<noteq> node_id (self (g_swim g))"
      using wf_not_self [OF \<open>swim_wf (g_swim ?h)\<close> mi] by simp
    have old: "isValidNodeId i \<and> host_ok (host (info e))" if "map_of (members (g_swim g)) i = Some e" for e
      using assms(2) map_of_SomeD [OF that] by (force simp: view_clean_def)
    show ?thesis
    proof (cases "map_of (by_id evs) i")
      case None
      then have "map_of (members (g_swim g)) i = Some e"
        using mi fold_incoming_members [OF _ assms(4) neq, of now] assms(3)
        by (simp add: event_clean_def)
      then show ?thesis by (rule old)
    next
      case (Some ev)
      then have ev: "ev \<in> set evs" "ev_node_id ev = i"
        by (auto dest!: map_of_SomeD)
      then have "entry_apply now ev (map_of (members (g_swim g)) i) = Some e"
        using mi fold_incoming_members [OF _ assms(4) neq, of now] assms(3) Some
        by (simp add: event_clean_def)
      from entry_apply_host [OF this] ev assms(3) old show ?thesis
        by (auto simp: event_clean_def)
    qed
  qed
  then show ?thesis
    using assms(2) by (auto simp: view_clean_def)
qed

text \<open>What one push-pull exchange does to the two records of a third member.\<close>

definition push :: "int \<Rightarrow> string \<Rightarrow> MemberEntry option \<Rightarrow> MemberEntry option \<Rightarrow> MemberEntry option" where
  "push now i src dst =
     (case src of None \<Rightarrow> dst | Some e \<Rightarrow> entry_apply now (member_event (i, e)) dst)"

lemma entry_view_cases:
  "entry_view e = (case state e of MemberState.Dead \<Rightarrow> (CHR ''D'', 0) | MemberState.Left \<Rightarrow> (CHR ''L'', 0)
     | _ \<Rightarrow> (CHR ''A'', incarnation e))"
  by (cases "state e") (simp_all add: entry_view_def)

lemma push_pull_agree:
  "map_option entry_view (push now i (push later i x y) x) = map_option entry_view (push later i x y)"
proof (cases x)
  case None
  then show ?thesis
    by (cases y; cases "state (the y)")
      (auto simp: push_def member_event_def event_entry_def entry_view_cases)
next
  case (Some a)
  show ?thesis
  proof (cases y)
    case None
    then show ?thesis
      using Some by (cases "state a")
        (auto simp: push_def member_event_def event_entry_def entry_view_cases)
  next
    case (Some b)
    then show ?thesis
      using \<open>x = Some a\<close> by (cases "state a"; cases "state b")
        (auto simp: push_def member_event_def entry_view_cases not_less not_le)
  qed
qed

lemma push_members:
  assumes "swim_wf s" "view_clean s" "i \<noteq> node_id (self s)" "i \<noteq> node_id (self (g_swim g))"
  shows "map_of (members (g_swim (fold (apply_incoming now) (Swim_fullState s) g))) i =
    push now i (map_of (members s) i) (map_of (members (g_swim g)) i)"
proof -
  have "\<forall>ev \<in> set (Swim_fullState s). isValidNodeId (ev_node_id ev)"
    using fullState_clean [OF assms(2)] by (simp add: event_clean_def)
  from fold_incoming_members [OF this fullState_distinct [OF assms(1)] assms(4), of now]
  show ?thesis
    using fullState_by_id [OF assms(1,3)]
    by (cases "map_of (members s) i") (simp_all add: push_def)
qed

lemma performSync_peer:
  assumes "swim_wf (g_swim a)" "swim_wf (g_swim b)" "view_clean (g_swim a)" "view_clean (g_swim b)"
    and "g_self a = self (g_swim a)" "g_self b = self (g_swim b)"
    and "GossipThread_performSync (peer_net now) peer a b = (a', b')"
  shows "g_swim b' = g_swim (fold (apply_incoming now) (Swim_fullState (g_swim a)) b)"
    "g_swim a' = g_swim (fold (apply_incoming now) (Swim_fullState (g_swim b')) a)"
proof -
  let ?b = "fold (apply_incoming now) (Swim_fullState (g_swim a)) b"
  let ?txt = "serializeEvents (Swim_fullState (g_swim a))"
  let ?ret = "serializeEvents (Swim_fullState (g_swim ?b))"
  note ca = fullState_clean [OF assms(3)]
  have vb: "view_clean (g_swim ?b)"
    by (rule fold_incoming_clean [OF assms(2,4) ca fullState_distinct [OF assms(1)]])
  note cb = fullState_clean [OF vb]
  have ids: "isValidNodeId (node_id (g_self a))" "isValidNodeId (node_id (g_self b))"
    using assms(3-6) by (simp_all add: view_clean_def)
  note sa = split_sync(1) [OF ids(1) events_clean_codec(2) [OF ca]]
  note sb = split_sync(2) [OF ids(2) events_clean_codec(2) [OF cb]]
  have reply: "GossipThread_handleMessage (silent_net\<lparr>net_now := \<lambda>_. now\<rparr>)
      (''SWIM_SYNC|'' @ node_id (g_self a) @ ''|'' @ ?txt) b () =
      (''SWIM_SYNC_ACK|'' @ node_id (g_self b) @ ''|'' @ ?ret, ?b\<lparr>g_syncs := g_syncs ?b + 1\<rparr>, ())"
    unfolding GossipThread_handleMessage_def Let_def sa
    by (simp add: handle_sync_def Let_def applyIncoming_clean [OF ca])
  have "(a', b') = ((fold (apply_incoming now) (Swim_fullState (g_swim ?b)) a)
      \<lparr>g_syncs := g_syncs (fold (apply_incoming now) (Swim_fullState (g_swim ?b)) a) + 1\<rparr>,
      ?b\<lparr>g_syncs := g_syncs ?b + 1\<rparr>)"
    using assms(7) unfolding GossipThread_performSync_def Let_def
    by (simp add: peer_net_def reply [simplified] sb [simplified] applyIncoming_clean [OF cb])
  then show "g_swim b' = g_swim ?b"
    "g_swim a' = g_swim (fold (apply_incoming now) (Swim_fullState (g_swim b')) a)"
    by simp_all
qed

section \<open>Properties\<close>

text \<open>Two running nodes that disagree about a third one.\<close>

definition ex_router :: Router where
  "ex_router = \<lparr>virtual_nodes = 0, ring = [], nodes = [(''n1'', ex_n1), (''n2'', ex_n2)]\<rparr>"

definition ex_config :: GossipConfig where
  "ex_config = \<lparr>protocol_period = 1000, indirect_probe_count = 3, cfg_suspicion_mult = 5\<rparr>"

definition ex_a :: GossipThread where
  "ex_a = (GossipThread_new ex_n1 ex_router ex_config)\<lparr>g_swim := ex_swim1\<rparr>"

definition ex_b :: GossipThread where
  "ex_b = (GossipThread_new ex_n2 ex_router ex_config)\<lparr>g_swim := ex_swim2\<lparr>members :=
     [(''n1'', ex_entry ''n1'' ''h1'' 1 MemberState.Alive 0),
      (''n3'', ex_entry ''n3'' ''h3'' 3 MemberState.Dead 9)]\<rparr>\<rparr>"

lemmas ex_gossip_defs = ex_a_def ex_b_def ex_router_def ex_config_def GossipThread_new_def ex_swim_defs

lemma ex_gossip_wf: "gossip_wf ex_a" "swim_wf (g_swim ex_b)"
  by (simp_all add: gossip_wf_def ring_sync_def swim_wf_def om_wf_def ex_gossip_defs Swim_stateOf_def live_def)

text \<open>C3: removing a node from the cluster is permanent.  Once \<open>requestLeave\<close> has accepted a node
  id, no sequence of ticks, incoming messages, joins through seeds or further removals, under
  any network, brings it back: it stays tombstoned and out of the ring.\<close>

theorem decommission_permanent:
  assumes "gossip_wf g" "GossipThread_requestLeave g i = (True, g1)" "(gossip_op net)\<^sup>*\<^sup>* g1 g2"
  shows "Swim_stateOf (g_swim g2) i = Some MemberState.Left \<and> i \<notin> om_keys (nodes (g_router g2))"
proof -
  have g1: "gossip_wf g1"
    using gsteps_wf [OF requestLeave_steps [OF assms(2)] assms(1)] .
  have steps: "gsteps g1 g2"
    using gossip_ops_steps [OF assms(3)] .
  have left: "Swim_stateOf (g_swim g2) i = Some MemberState.Left"
    using left_stays [OF gsteps_le [OF steps g1] requestLeave_left [OF assms(2)]] .
  then show ?thesis
    using left_not_in_ring [OF gsteps_wf [OF steps g1] left] by blast
qed

theorem decommission_permanent_witness:
  "\<exists>g1 g2 e. GossipThread_requestLeave ex_a ''n2'' = (True, g1) \<and>
     GossipThread_tick silent_net g1 () = (g2, e) \<and>
     Swim_stateOf (g_swim g2) ''n2'' = Some MemberState.Left \<and> ''n2'' \<notin> om_keys (nodes (g_router g2))"
proof -
  have "Swim_stateOf (g_swim ex_a) ''n2'' \<noteq> None"
    by (simp add: Swim_stateOf_def ex_gossip_defs)
  then obtain g1 where g1: "GossipThread_requestLeave ex_a ''n2'' = (True, g1)"
    by (cases "Swim_leave (g_swim ex_a) ''n2''") (auto simp: GossipThread_requestLeave_def)
  obtain g2 e where g2: "GossipThread_tick silent_net g1 () = (g2, e)"
    by (rule prod.exhaust)
  have "(gossip_op silent_net)\<^sup>*\<^sup>* g1 g2"
    by (rule r_into_rtranclp, rule gossip_op.tick [OF g2])
  from decommission_permanent [OF ex_gossip_wf(1) g1 this] g1 g2 show ?thesis
    by blast
qed



text \<open>C8: one full-state exchange between two nodes makes their records of every third member
  agree, in class and - for live members - incarnation, whatever the two held before.  The
  exchange is the whole of \<open>performSync\<close> on one side and of the SWIM_SYNC handler on the other,
  through the text encoding.\<close>

theorem sync_converges:
  assumes "swim_wf (g_swim a)" "swim_wf (g_swim b)" "view_clean (g_swim a)" "view_clean (g_swim b)"
    and "g_self a = self (g_swim a)" "g_self b = self (g_swim b)"
    and "GossipThread_performSync (peer_net now) peer a b = (a', b')"
    and "i \<noteq> node_id (g_self a)" "i \<noteq> node_id (g_self b)"
  shows "swim_view (g_swim a') i = swim_view (g_swim b') i"
proof -
  note sync = performSync_peer [OF assms(1-7)]
  have ids: "self (g_swim b') = self (g_swim b)" "self (g_swim a') = self (g_swim a)"
    unfolding sync by simp_all
  have wf: "swim_wf (g_swim b')" "view_clean (g_swim b')"
    unfolding sync(1)
    using fold_incoming_wf [OF assms(2)]
      fold_incoming_clean [OF assms(2,4) fullState_clean [OF assms(3)] fullState_distinct [OF assms(1)]]
    by blast+
  have b: "map_of (members (g_swim b')) i =
      push now i (map_of (members (g_swim a)) i) (map_of (members (g_swim b)) i)"
    unfolding sync(1) using assms by (intro push_members) simp_all
  have "map_of (members (g_swim a')) i =
      push now i (map_of (members (g_swim b')) i) (map_of (members (g_swim a)) i)"
    unfolding sync(2) using assms wf ids by (intro push_members) simp_all
  then show ?thesis
    using assms(5,6,8,9) ids push_pull_agree by (simp add: swim_view_def b)
qed

theorem sync_converges_witness:
  "\<exists>a' b'. GossipThread_performSync (peer_net 0) ex_n2 ex_a ex_b = (a', b') \<and>
     swim_view (g_swim ex_a) ''n3'' \<noteq> swim_view (g_swim ex_b) ''n3'' \<and>
     swim_view (g_swim a') ''n3'' = swim_view (g_swim b') ''n3''"
proof -
  obtain a' b' where eq: "GossipThread_performSync (peer_net 0) ex_n2 ex_a ex_b = (a', b')"
    by fastforce
  have clean: "view_clean (g_swim ex_a)" "view_clean (g_swim ex_b)"
    by (simp_all add: view_clean_def ex_gossip_defs isValidNodeId_def id_char_def host_ok_def)
  have neq: "swim_view (g_swim ex_a) ''n3'' \<noteq> swim_view (g_swim ex_b) ''n3''"
    by (simp add: ex_gossip_defs swim_view_def entry_view_def)
  have "swim_wf (g_swim ex_a)"
    using ex_gossip_wf(1) by (simp add: gossip_wf_def)
  from sync_converges [OF this ex_gossip_wf(2) clean _ _ eq, of "''n3''"] eq neq show ?thesis
    by (simp add: ex_gossip_defs)
qed

end
