(* ===== verification/Merkle.thy ===== *)
theory Merkle
  imports Prelude "HOL-Library.Multiset"
begin

text \<open>
  antientropy/merkle\_tree.h and merkle\_tree.cpp: the level-order hash tree over the 64-bit key
  space.  Inserting XORs a value hash into the leaf that the top bits of the key hash select;
  \<open>build\<close> fills the inner nodes bottom up; \<open>diff\<close> walks two trees breadth first.

  The tree is a function of the multiset of inserted pairs.  \<open>diff\<close> ends and returns exactly the
  leaves that differ together with all their ancestors, in increasing order; since inner nodes
  are XORs, differences in two leaves can cancel and stay undetected.
\<close>

unbundle bit_operations_syntax

record MerkleTree =
  mt_depth :: nat
  mt_leaf_start :: nat
  mt_nodes :: "u64 list"

record DiffRange =
  leaf_index :: nat
  range_start :: u64
  range_end :: u64

definition kDefaultDepth :: nat where
  "kDefaultDepth = 15"

section \<open>Operations\<close>

definition MerkleTree_new :: "nat \<Rightarrow> MerkleTree" where
  "MerkleTree_new depth =
     (let start = 2 ^ depth; total = start * 2
      in \<lparr>mt_depth = depth, mt_leaf_start = start, mt_nodes = replicate total 0\<rparr>)"

definition MerkleTree_insert :: "MerkleTree \<Rightarrow> u64 \<Rightarrow> u64 \<Rightarrow> MerkleTree" where
  "MerkleTree_insert t key_hash value_hash =
     (let leaf_idx = unat (drop_bit (64 - mt_depth t) key_hash);
          i = mt_leaf_start t + leaf_idx
      in t\<lparr>mt_nodes := (mt_nodes t)[i := mt_nodes t ! i XOR value_hash]\<rparr>)"

definition MerkleTree_build :: "MerkleTree \<Rightarrow> MerkleTree" where
  "MerkleTree_build t =
     t\<lparr>mt_nodes := fold (\<lambda>i ns. ns[i := ns ! (2 * i) XOR ns ! (2 * i + 1)])
        (rev [1..<mt_leaf_start t]) (mt_nodes t)\<rparr>"

definition MerkleTree_rootHash :: "MerkleTree \<Rightarrow> u64" where
  "MerkleTree_rootHash t = (if length (mt_nodes t) > 1 then mt_nodes t ! 1 else 0)"

definition MerkleTree_nodeHash :: "MerkleTree \<Rightarrow> nat \<Rightarrow> u64" where
  "MerkleTree_nodeHash t index = (if index \<ge> length (mt_nodes t) then 0 else mt_nodes t ! index)"

definition MerkleTree_clear :: "MerkleTree \<Rightarrow> MerkleTree" where
  "MerkleTree_clear t = t\<lparr>mt_nodes := map (\<lambda>_. 0) (mt_nodes t)\<rparr>"

definition leaf_range :: "nat \<Rightarrow> nat \<Rightarrow> DiffRange" where
  "leaf_range depth leaf_idx =
     (let range_bits = push_bit (64 - depth) (word_of_nat leaf_idx);
          range_size = push_bit (64 - depth) 1
      in \<lparr>leaf_index = leaf_idx, range_start = range_bits,
          range_end = (if range_size = 0 then - 1 else range_bits + range_size - 1)\<rparr>)"

text \<open>One round of the breadth-first walk: the next queue and the ranges found.\<close>

definition diff_step ::
    "MerkleTree \<Rightarrow> MerkleTree \<Rightarrow> nat \<Rightarrow> nat list \<times> DiffRange list \<Rightarrow> nat list \<times> DiffRange list" where
  "diff_step a b idx st =
     (case st of (next, result) \<Rightarrow>
        if mt_nodes a ! idx = mt_nodes b ! idx then (next, result)
        else if idx \<ge> mt_leaf_start a
        then (next, result @ [leaf_range (mt_depth a) (idx - mt_leaf_start a)])
        else (next @ [2 * idx, 2 * idx + 1], result))"

partial_function (option) diff_loop ::
    "MerkleTree \<Rightarrow> MerkleTree \<Rightarrow> nat list \<Rightarrow> DiffRange list \<Rightarrow> DiffRange list option" where
  "diff_loop a b queue result =
     (if queue = [] then Some result
      else case fold (diff_step a b) queue ([], result) of (next, result) \<Rightarrow> diff_loop a b next result)"

definition MerkleTree_diff :: "MerkleTree \<Rightarrow> MerkleTree \<Rightarrow> DiffRange list option" where
  "MerkleTree_diff a b =
     (if mt_depth a \<noteq> mt_depth b then Some []
      else if MerkleTree_rootHash a = MerkleTree_rootHash b then Some []
      else diff_loop a b [1] [])"

section \<open>Reference notions\<close>

text \<open>A shift by the full width is undefined in C++, so a tree has at least one level.\<close>

definition mt_wf :: "MerkleTree \<Rightarrow> bool" where
  "mt_wf t \<longleftrightarrow> 1 \<le> mt_depth t \<and> mt_depth t < 64 \<and> mt_leaf_start t = 2 ^ mt_depth t \<and>
     length (mt_nodes t) = 2 * 2 ^ mt_depth t"

definition xor_node :: "u64 list \<Rightarrow> nat \<Rightarrow> bool" where
  "xor_node ns i \<longleftrightarrow> ns ! i = ns ! (2 * i) XOR ns ! (2 * i + 1)"

definition mt_built :: "MerkleTree \<Rightarrow> bool" where
  "mt_built t \<longleftrightarrow> (\<forall>i. 1 \<le> i \<and> i < mt_leaf_start t \<longrightarrow> xor_node (mt_nodes t) i)"

definition differ :: "MerkleTree \<Rightarrow> MerkleTree \<Rightarrow> nat \<Rightarrow> bool" where
  "differ a b i \<longleftrightarrow> mt_nodes a ! i \<noteq> mt_nodes b ! i"

text \<open>The leaf \<open>j\<close> and all its ancestors up to the root differ.\<close>

definition path_differs :: "MerkleTree \<Rightarrow> MerkleTree \<Rightarrow> nat \<Rightarrow> bool" where
  "path_differs a b j \<longleftrightarrow> (\<forall>k \<le> mt_depth a. differ a b ((2 ^ mt_depth a + j) div 2 ^ k))"

definition leaf_of :: "MerkleTree \<Rightarrow> nat \<Rightarrow> u64" where
  "leaf_of t j = mt_nodes t ! (mt_leaf_start t + j)"

section \<open>Insertion\<close>

lemma new_wf: "1 \<le> d \<Longrightarrow> d < 64 \<Longrightarrow> mt_wf (MerkleTree_new d)"
  by (simp add: mt_wf_def MerkleTree_new_def Let_def)

lemma insert_shape [simp]:
  "mt_depth (MerkleTree_insert t k v) = mt_depth t" "mt_leaf_start (MerkleTree_insert t k v) = mt_leaf_start t"
  "length (mt_nodes (MerkleTree_insert t k v)) = length (mt_nodes t)"
  by (simp_all add: MerkleTree_insert_def Let_def)

lemma insert_wf [simp]: "mt_wf (MerkleTree_insert t k v) = mt_wf t"
  by (simp add: mt_wf_def)

lemma bucket_bound: "d < 64 \<Longrightarrow> unat (drop_bit (64 - d) (k :: u64)) < 2 ^ d"
proof -
  assume d: "d < 64"
  have "unat k < 2 ^ d * 2 ^ (64 - d)"
    using unat_lt_2p64 [of k] d by (simp flip: power_add)
  then show ?thesis
    by (simp only: unat_drop_bit_eq) (simp add: drop_bit_eq_div less_mult_imp_div_less)
qed

lemma insert_leaf:
  assumes "mt_wf t" "j < 2 ^ mt_depth t"
  shows "leaf_of (MerkleTree_insert t k v) j =
    (if unat (drop_bit (64 - mt_depth t) k) = j then leaf_of t j XOR v else leaf_of t j)"
  using assms bucket_bound [of "mt_depth t" k]
  by (auto simp: leaf_of_def MerkleTree_insert_def Let_def mt_wf_def)

lemma xor_at_commute:
  "(let ys = xs[i := xs ! i XOR v] in ys[j := ys ! j XOR w]) =
   (let ys = xs[j := xs ! j XOR w] in ys[i := ys ! i XOR (v :: u64)])"
proof (cases "i = j")
  case True
  then show ?thesis by (cases "j < length xs") (simp_all add: ac_simps not_less list_update_beyond)
next
  case False
  then show ?thesis by (simp add: list_update_swap)
qed

lemma insert_nodes:
  "mt_nodes (MerkleTree_insert t k v) =
     (mt_nodes t)[mt_leaf_start t + unat (drop_bit (64 - mt_depth t) k) :=
       mt_nodes t ! (mt_leaf_start t + unat (drop_bit (64 - mt_depth t) k)) XOR v]"
  by (simp add: MerkleTree_insert_def Let_def)

lemma insert_more [simp]: "MerkleTree.more (MerkleTree_insert t k v) = MerkleTree.more t"
  by simp

lemma insert_commute:
  "MerkleTree_insert (MerkleTree_insert t k v) k' v' = MerkleTree_insert (MerkleTree_insert t k' v') k v"
proof (rule MerkleTree.equality)
  show "mt_nodes (MerkleTree_insert (MerkleTree_insert t k v) k' v') =
      mt_nodes (MerkleTree_insert (MerkleTree_insert t k' v') k v)"
    unfolding insert_nodes insert_shape by (rule xor_at_commute [unfolded Let_def])
qed (simp_all only: insert_shape insert_more)

definition insert_all :: "(u64 \<times> u64) list \<Rightarrow> MerkleTree \<Rightarrow> MerkleTree" where
  "insert_all ps t = fold (\<lambda>(k, v) t. MerkleTree_insert t k v) ps t"

lemma insert_all_mset: "mset ps = mset qs \<Longrightarrow> insert_all ps t = insert_all qs t"
  unfolding insert_all_def
  by (rule fun_cong [OF fold_multiset_equiv]) (auto simp: fun_eq_iff insert_commute)

lemma insert_all_wf [simp]: "mt_wf (insert_all ps t) = mt_wf t"
  "mt_depth (insert_all ps t) = mt_depth t"
  unfolding insert_all_def by (induction ps arbitrary: t) auto

lemma insert_all_leaf:
  assumes "mt_wf t" "j < 2 ^ mt_depth t"
  shows "leaf_of (insert_all ps t) j = fold (\<lambda>(k, v) h. h XOR v)
    (filter (\<lambda>(k, v). unat (drop_bit (64 - mt_depth t) k) = j) ps) (leaf_of t j)"
  using assms unfolding insert_all_def
  by (induction ps arbitrary: t) (auto simp: insert_leaf)

section \<open>Building the inner nodes\<close>

lemma xor_node_update:
  assumes "n < length ns" "1 \<le> n" "n \<le> i" "i = n \<or> xor_node ns i"
  shows "xor_node (ns[n := ns ! (2 * n) XOR ns ! (2 * n + 1)]) i"
  using assms by (cases "i = n") (auto simp: xor_node_def)

lemma build_fold:
  assumes "length ns = 2 * s" "n \<le> s" "1 \<le> n" and "\<forall>i. n \<le> i \<and> i < s \<longrightarrow> xor_node ns i"
    and "ns' = fold (\<lambda>i ns. ns[i := ns ! (2 * i) XOR ns ! (2 * i + 1)]) (rev [1..<n]) ns"
  shows "length ns' = 2 * s \<and> (\<forall>i. s \<le> i \<longrightarrow> ns' ! i = ns ! i) \<and>
    (\<forall>i. 1 \<le> i \<and> i < s \<longrightarrow> xor_node ns' i)"
  using assms
proof (induction n arbitrary: ns)
  case (Suc n)
  show ?case
  proof (cases "n = 0")
    case True
    then show ?thesis using Suc.prems by simp
  next
    case False
    let ?ns = "ns[n := ns ! (2 * n) XOR ns ! (2 * n + 1)]"
    have "rev [1..<Suc n] = n # rev [1..<n]" using False by simp
    then have ns': "ns' = fold (\<lambda>i ns. ns[i := ns ! (2 * i) XOR ns ! (2 * i + 1)]) (rev [1..<n]) ?ns"
      using Suc.prems(5) by simp
    have step: "\<forall>i. n \<le> i \<and> i < s \<longrightarrow> xor_node ?ns i"
    proof (intro allI impI)
      fix i assume i: "n \<le> i \<and> i < s"
      then have "i = n \<or> xor_node ns i" using Suc.prems(4) by (metis le_antisym not_less_eq_eq)
      then show "xor_node ?ns i" using i Suc.prems(1) False by (intro xor_node_update) auto
    qed
    have "length ?ns = 2 * s" "n \<le> s" "1 \<le> n" using Suc.prems(1,2) False by auto
    from Suc.IH [OF this step ns'] Suc.prems(2) show ?thesis by auto
  qed
qed simp

lemma build_spec:
  assumes "mt_wf t"
  shows "mt_wf (MerkleTree_build t)" "mt_built (MerkleTree_build t)"
    "leaf_of (MerkleTree_build t) j = leaf_of t j" "mt_depth (MerkleTree_build t) = mt_depth t"
proof -
  let ?s = "2 ^ mt_depth t :: nat"
  have t: "mt_leaf_start t = ?s" "length (mt_nodes t) = 2 * ?s" "1 \<le> ?s"
    using assms by (simp_all add: mt_wf_def)
  have "\<forall>i. ?s \<le> i \<and> i < ?s \<longrightarrow> xor_node (mt_nodes t) i"
    using leD by blast
  from build_fold [OF t(2) order_refl t(3) this refl]
  show "mt_wf (MerkleTree_build t)" "mt_built (MerkleTree_build t)"
    "leaf_of (MerkleTree_build t) j = leaf_of t j" "mt_depth (MerkleTree_build t) = mt_depth t"
    using assms t by (simp_all add: mt_wf_def mt_built_def leaf_of_def MerkleTree_build_def)
qed

section \<open>The walk\<close>

lemma diff_level:
  "fold (diff_step a b) queue (nx, result) =
     (nx @ concat (map (\<lambda>i. if differ a b i \<and> i < mt_leaf_start a then [2 * i, 2 * i + 1] else []) queue),
      result @ concat (map (\<lambda>i. if differ a b i \<and> \<not> i < mt_leaf_start a
        then [leaf_range (mt_depth a) (i - mt_leaf_start a)] else []) queue))"
  by (induction queue arbitrary: nx result) (auto simp: diff_step_def differ_def)

definition level :: "MerkleTree \<Rightarrow> MerkleTree \<Rightarrow> nat \<Rightarrow> nat list" where
  "level a b l = filter (\<lambda>i. \<forall>k \<in> {1..l}. differ a b (i div 2 ^ k)) [2 ^ l..<2 ^ Suc l]"

lemma double_upt: "concat (map (\<lambda>i. [2 * i, 2 * i + 1]) [m..<n]) = [2 * m..<2 * n]"
proof (induction n)
  case (Suc n)
  then show ?case by (cases "m \<le> n") (auto simp: upt_rec [of "2 * n"])
qed simp

lemma filter_concat_map:
  "filter P (concat (map f xs)) = concat (map (\<lambda>x. filter P (f x)) xs)"
  by (induction xs) auto

lemma concat_map_filter:
  "concat (map f (filter P xs)) = concat (map (\<lambda>x. if P x then f x else []) xs)"
  by (induction xs) auto

lemma ancestors_Suc:
  assumes "c div 2 = i"
  shows "(\<forall>k \<in> {1..Suc l}. differ a b (c div 2 ^ k)) \<longleftrightarrow>
    differ a b i \<and> (\<forall>k \<in> {1..l}. differ a b (i div 2 ^ k))"
proof -
  have div: "c div 2 ^ Suc k = i div 2 ^ k" for k
    using assms by (simp add: div_mult2_eq)
  have "(\<forall>k \<in> {1..Suc l}. differ a b (c div 2 ^ k)) \<longleftrightarrow> (\<forall>k \<in> {0..l}. differ a b (c div 2 ^ Suc k))"
    by (metis (no_types, lifting) atLeastAtMost_iff Suc_le_D Suc_le_mono le0 One_nat_def)
  also have "\<dots> \<longleftrightarrow> (\<forall>k \<in> {0..l}. differ a b (i div 2 ^ k))"
    by (simp only: div)
  also have "\<dots> \<longleftrightarrow> differ a b i \<and> (\<forall>k \<in> {1..l}. differ a b (i div 2 ^ k))"
    by (auto simp: Ball_def) (metis One_nat_def Suc_leI div_by_1 gr0I power_0)
  finally show ?thesis .
qed

lemma level_Suc:
  assumes "2 ^ Suc l \<le> mt_leaf_start a"
  shows "concat (map (\<lambda>i. if differ a b i \<and> i < mt_leaf_start a then [2 * i, 2 * i + 1] else []) (level a b l)) =
    level a b (Suc l)"
proof -
  let ?P = "\<lambda>l i. \<forall>k \<in> {1..l}. differ a b (i div 2 ^ k)"
  have "level a b (Suc l) = filter (?P (Suc l)) (concat (map (\<lambda>i. [2 * i, 2 * i + 1]) [2 ^ l..<2 ^ Suc l]))"
    unfolding level_def double_upt by simp
  also have "\<dots> = concat (map (\<lambda>i. filter (?P (Suc l)) [2 * i, 2 * i + 1]) [2 ^ l..<2 ^ Suc l])"
    by (rule filter_concat_map)
  also have "\<dots> = concat (map (\<lambda>i. if ?P l i then
      (if differ a b i \<and> i < mt_leaf_start a then [2 * i, 2 * i + 1] else []) else []) [2 ^ l..<2 ^ Suc l])"
  proof (rule arg_cong [where f = concat], rule map_cong [OF refl])
    fix i assume "i \<in> set [2 ^ l..<2 ^ Suc l]"
    then have "i < mt_leaf_start a" using assms by simp
    moreover have "?P (Suc l) (2 * i) \<longleftrightarrow> differ a b i \<and> ?P l i" "?P (Suc l) (2 * i + 1) \<longleftrightarrow> differ a b i \<and> ?P l i"
      by (rule ancestors_Suc, simp)+
    ultimately show "filter (?P (Suc l)) [2 * i, 2 * i + 1] =
        (if ?P l i then (if differ a b i \<and> i < mt_leaf_start a then [2 * i, 2 * i + 1] else []) else [])"
      by (simp only: filter.simps) simp
  qed
  finally show ?thesis by (simp add: level_def concat_map_filter)
qed

lemma level_inner:
  assumes "2 ^ Suc l \<le> mt_leaf_start a"
  shows "concat (map (\<lambda>i. if differ a b i \<and> \<not> i < mt_leaf_start a
    then [leaf_range (mt_depth a) (i - mt_leaf_start a)] else []) (level a b l)) = []"
  using assms by (auto simp: level_def)

lemma level_leaves:
  assumes "mt_wf a" "l = mt_depth a"
  shows "concat (map (\<lambda>i. if differ a b i \<and> i < mt_leaf_start a then [2 * i, 2 * i + 1] else []) (level a b l)) = []"
    "concat (map (\<lambda>i. if differ a b i \<and> \<not> i < mt_leaf_start a
      then [leaf_range (mt_depth a) (i - mt_leaf_start a)] else []) (level a b l)) =
     map (leaf_range l) (filter (path_differs a b) [0..<2 ^ l])"
proof -
  let ?s = "2 ^ l :: nat"
  let ?g = "\<lambda>i. if differ a b i \<and> \<not> i < ?s then [leaf_range l (i - ?s)] else []"
  let ?P = "\<lambda>i. \<forall>k \<in> {1..l}. differ a b (i div 2 ^ k)"
  have s: "mt_leaf_start a = ?s" using assms by (simp add: mt_wf_def)
  show "concat (map (\<lambda>i. if differ a b i \<and> i < mt_leaf_start a then [2 * i, 2 * i + 1] else []) (level a b l)) = []"
    unfolding s by (auto simp: level_def)
  have shift: "[2 ^ l..<2 ^ Suc l] = map ((+) ?s) [0..<?s]"
    by (rule nth_equalityI) simp_all
  have path: "path_differs a b j \<longleftrightarrow> differ a b (?s + j) \<and> ?P (?s + j)" for j
    unfolding path_differs_def assms(2) [symmetric]
    by (auto simp: Ball_def) (metis One_nat_def Suc_leI div_by_1 gr0I power_0)
  have "concat (map ?g (level a b l)) = concat (map (\<lambda>j. if ?P (?s + j) then ?g (?s + j) else []) [0..<?s])"
    unfolding level_def shift concat_map_filter by (simp add: comp_def)
  also have "\<dots> = concat (map (\<lambda>j. if path_differs a b j then [leaf_range l j] else []) [0..<?s])"
    by (rule arg_cong [where f = concat], rule map_cong) (auto simp: path)
  finally show "concat (map (\<lambda>i. if differ a b i \<and> \<not> i < mt_leaf_start a
      then [leaf_range (mt_depth a) (i - mt_leaf_start a)] else []) (level a b l)) =
     map (leaf_range l) (filter (path_differs a b) [0..<2 ^ l])"
    unfolding s assms(2) [symmetric] by (simp flip: concat_map_filter)
qed

lemma diff_loop_level:
  assumes "mt_wf a" "l \<le> mt_depth a"
  shows "diff_loop a b (level a b l) [] =
    Some (map (leaf_range (mt_depth a)) (filter (path_differs a b) [0..<2 ^ mt_depth a]))"
  using assms(2)
proof (induction "mt_depth a - l" arbitrary: l)
  case 0
  then have l: "l = mt_depth a" by simp
  note leaves = level_leaves [OF assms(1) l, of b]
  show ?case
  proof (cases "level a b l = []")
    case True
    then have "map (leaf_range l) (filter (path_differs a b) [0..<2 ^ l]) = []"
      using leaves(2) by (simp only: list.map concat.simps)
    then show ?thesis unfolding True using l by (simp add: diff_loop.simps)
  next
    case False
    then have "diff_loop a b (level a b l) [] =
        diff_loop a b [] (map (leaf_range l) (filter (path_differs a b) [0..<2 ^ l]))"
      by (subst diff_loop.simps) (simp only: diff_level leaves append_Nil prod.case if_False)
    then show ?thesis by (simp add: l diff_loop.simps)
  qed
next
  case (Suc m)
  then have "2 ^ Suc l \<le> mt_leaf_start a" using assms(1) by (simp add: mt_wf_def power_increasing del: power_Suc)
  note inner = level_Suc [OF this, of b] level_inner [OF this, of b]
  have "diff_loop a b (level a b l) [] = diff_loop a b (level a b (Suc l)) []"
  proof (cases "level a b l = []")
    case True
    then have "level a b (Suc l) = []" using inner(1) by (simp only: list.map concat.simps)
    with True show ?thesis by simp
  next
    case False
    then show ?thesis
      by (subst diff_loop.simps) (simp only: diff_level inner append_Nil prod.case if_False)
  qed
  then show ?case using Suc.hyps(1) [of "Suc l"] Suc.hyps(2) by simp
qed

lemma wf_root: "mt_wf t \<Longrightarrow> Suc 0 < length (mt_nodes t)"
  using zero_less_power [of "2 :: nat" "mt_depth t"] unfolding mt_wf_def by linarith

lemma level_0: "level a b 0 = [1]"
  by (simp add: level_def upt_rec)

lemma path_root:
  assumes "path_differs a b j" "j < 2 ^ mt_depth a"
  shows "differ a b 1"
proof -
  have "(2 ^ mt_depth a + j) div 2 ^ mt_depth a = 1" using assms(2) by (simp add: div_add1_eq)
  then show ?thesis using assms(1) unfolding path_differs_def by (metis order_refl)
qed

lemma diff_paths:
  assumes "mt_wf a" "mt_wf b" "mt_depth a = mt_depth b"
  shows "MerkleTree_diff a b =
    Some (map (leaf_range (mt_depth a)) (filter (path_differs a b) [0..<2 ^ mt_depth a]))"
proof (cases "differ a b 1")
  case True
  then have "MerkleTree_diff a b = diff_loop a b (level a b 0) []"
    using assms wf_root by (simp add: MerkleTree_diff_def MerkleTree_rootHash_def level_0 differ_def)
  then show ?thesis using diff_loop_level [OF assms(1), of 0 b] by simp
next
  case False
  then have none: "filter (path_differs a b) [0..<2 ^ mt_depth a] = []"
    using path_root by (fastforce simp: filter_empty_conv)
  have "MerkleTree_diff a b = Some []"
    using False assms wf_root by (simp add: MerkleTree_diff_def MerkleTree_rootHash_def differ_def)
  then show ?thesis by (simp only: none list.map)
qed

section \<open>What the exchange can and cannot see\<close>

lemma xor_delta: "(a XOR b) XOR (c XOR d) = (a XOR c) XOR (b XOR d :: u64)"
  by (simp add: ac_simps)

lemma xor_zero_iff: "a XOR b = 0 \<longleftrightarrow> a = (b :: u64)"
proof
  assume "a XOR b = 0"
  then have "(a XOR b) XOR b = b" by simp
  then show "a = b" by (simp only: xor.assoc xor_self_eq xor.right_neutral)
qed simp

lemma xor_left_cancel: "c XOR a = c XOR b \<longleftrightarrow> a = (b :: u64)"
proof
  assume "c XOR a = c XOR b"
  then have "c XOR (c XOR a) = c XOR (c XOR b)" by simp
  then show "a = b" by (simp only: xor.assoc [symmetric] xor_self_eq xor.left_neutral)
qed simp

text \<open>With a single divergent leaf, the difference of a node is that of the leaf on the leaf's
  path to the root and zero elsewhere.\<close>

lemma single_delta:
  assumes "mt_wf a" "mt_wf b" "mt_depth a = mt_depth b" "mt_built a" "mt_built b" "j < 2 ^ mt_depth a"
    and same: "\<forall>i < 2 ^ mt_depth a. i \<noteq> j \<longrightarrow> leaf_of a i = leaf_of b i"
    and "k \<le> mt_depth a" "2 ^ (mt_depth a - k) \<le> i" "i < 2 ^ Suc (mt_depth a - k)"
  shows "mt_nodes a ! i XOR mt_nodes b ! i =
    (if i = (2 ^ mt_depth a + j) div 2 ^ k then leaf_of a j XOR leaf_of b j else 0)"
  using assms(8-10)
proof (induction k arbitrary: i)
  case 0
  let ?d = "mt_depth a"
  have i: "2 ^ ?d \<le> i" "i - 2 ^ ?d < 2 ^ ?d" using 0 by auto
  have leaf: "mt_nodes a ! i = leaf_of a (i - 2 ^ ?d)" "mt_nodes b ! i = leaf_of b (i - 2 ^ ?d)"
    using assms(1-3) i(1) by (auto simp: leaf_of_def mt_wf_def)
  show ?case
    unfolding leaf using same i by (cases "i = 2 ^ ?d + j") auto
next
  case (Suc k)
  let ?d = "mt_depth a" and ?D = "\<lambda>i. mt_nodes a ! i XOR mt_nodes b ! i" and ?p = "2 ^ mt_depth a + j"
  have pow: "(2 :: nat) ^ (?d - k) = 2 * 2 ^ (?d - Suc k)"
    using Suc.prems(1) by (metis Suc_diff_Suc Suc_le_lessD power_Suc)
  have "2 ^ Suc (?d - Suc k) \<le> (2 :: nat) ^ ?d"
    using Suc.prems(1) by (intro power_increasing) auto
  then have i: "1 \<le> i" "i < mt_leaf_start a" "i < mt_leaf_start b"
    using Suc.prems(2,3) assms(1-3) one_le_power [of "2 :: nat" "?d - Suc k"] by (auto simp: mt_wf_def)
  have "?D i = ?D (2 * i) XOR ?D (2 * i + 1)"
    using assms(4,5) i xor_delta unfolding mt_built_def xor_node_def by metis
  moreover have "?D (2 * i) = (if 2 * i = ?p div 2 ^ k then leaf_of a j XOR leaf_of b j else 0)"
    "?D (2 * i + 1) = (if 2 * i + 1 = ?p div 2 ^ k then leaf_of a j XOR leaf_of b j else 0)"
    using Suc.prems by (intro Suc.IH; simp add: pow)+
  moreover have "?p div 2 ^ Suc k = ?p div 2 ^ k div 2"
    by (simp only: power_Suc mult.commute [of 2] div_mult2_eq)
  ultimately show ?case by (auto split: if_splits)
qed

lemma single_path:
  assumes "mt_wf a" "mt_wf b" "mt_depth a = mt_depth b" "mt_built a" "mt_built b" "j < 2 ^ mt_depth a"
    and "\<forall>i < 2 ^ mt_depth a. i \<noteq> j \<longrightarrow> leaf_of a i = leaf_of b i" "leaf_of a j \<noteq> leaf_of b j"
    and "i < 2 ^ mt_depth a"
  shows "path_differs a b i \<longleftrightarrow> i = j"
proof
  assume "path_differs a b i"
  then have "differ a b (2 ^ mt_depth a + i)" unfolding path_differs_def by (metis div_by_1 le0 power_0)
  then have "leaf_of a i \<noteq> leaf_of b i" using assms(1-3) by (auto simp: differ_def leaf_of_def mt_wf_def)
  then show "i = j" using assms(7,9) by blast
next
  assume i: "i = j"
  show "path_differs a b i"
    unfolding path_differs_def
  proof (intro allI impI)
    fix k assume k: "k \<le> mt_depth a"
    let ?d = "mt_depth a" and ?i = "(2 ^ mt_depth a + j) div 2 ^ k"
    have two: "(2 :: nat) ^ ?d = 2 ^ (?d - k) * 2 ^ k" using k by (simp flip: power_add)
    have "2 ^ (?d - k) \<le> ?i"
      using two by (metis div_le_mono le_add1 nonzero_mult_div_cancel_right power_not_zero zero_neq_numeral)
    moreover have "2 ^ ?d + j < 2 ^ Suc (?d - k) * 2 ^ k" using assms(6) two by (simp add: mult.commute)
    then have "?i < 2 ^ Suc (?d - k)" by (simp add: less_mult_imp_div_less)
    ultimately have "mt_nodes a ! ?i XOR mt_nodes b ! ?i = leaf_of a j XOR leaf_of b j"
      using single_delta [OF assms(1-7) k] by simp
    then show "differ a b ((2 ^ ?d + i) div 2 ^ k)"
      using assms(8) unfolding i differ_def by (metis xor_zero_iff)
  qed
qed

lemma filter_single: "j < n \<Longrightarrow> (\<And>i. i < n \<Longrightarrow> P i = (i = j)) \<Longrightarrow> filter P [0..<n] = [j]"
proof (induction n)
  case (Suc n)
  show ?case
  proof (cases "j = n")
    case True
    then have "filter P [0..<n] = []" using Suc.prems(2) by (auto simp: filter_empty_conv)
    then show ?thesis using Suc.prems(2) [of n] True by simp
  next
    case False
    then show ?thesis using Suc.IH Suc.prems by simp
  qed
qed simp

lemma div_range:
  assumes "0 < m"
  shows "j * m \<le> n \<and> n \<le> j * m + (m - 1) \<longleftrightarrow> n div (m :: nat) = j"
proof
  assume "j * m \<le> n \<and> n \<le> j * m + (m - 1)"
  then show "n div m = j" using assms by (intro div_nat_eqI) (auto simp: mult.commute)
next
  assume "n div m = j"
  then show "j * m \<le> n \<and> n \<le> j * m + (m - 1)"
    using assms div_mult_mod_eq [of n m] mod_less_divisor [OF assms, of n] by auto
qed

text \<open>The reported range is the set of key hashes of the bucket.\<close>

lemma leaf_range_bucket:
  assumes "1 \<le> d" "d < 64" "j < 2 ^ d"
  shows "range_start (leaf_range d j) \<le> h \<and> h \<le> range_end (leaf_range d j) \<longleftrightarrow>
    unat (drop_bit (64 - d) h) = j"
proof -
  let ?m = "2 ^ (64 - d) :: nat"
  have full: "2 ^ d * ?m = 2 ^ 64" using assms(2) by (simp flip: power_add)
  have "2 ^ 1 \<le> ?m" "?m \<le> 2 ^ 63" by (rule power_increasing; use assms in simp)+
  then have m: "1 < ?m" "?m < 2 ^ 64" by simp_all
  have j: "j * ?m + ?m \<le> 2 ^ 64"
    using assms(3) mult_le_mono1 [of "Suc j" "2 ^ d" ?m] by (simp add: full)
  have small: "unat (word_of_nat n :: u64) = n" if "n < 2 ^ 64" for n
    using that by (simp add: unat_of_nat)
  have bits: "push_bit (64 - d) (word_of_nat n :: u64) = word_of_nat (n * ?m)" for n
    by (simp add: push_bit_of_nat push_bit_eq_mult)
  have size: "push_bit (64 - d) (1 :: u64) = word_of_nat ?m" using bits [of 1] by simp
  have "push_bit (64 - d) (1 :: u64) \<noteq> 0" using small [OF m(2)] m(1) unfolding size by (metis unat_0 not_one_less_zero)
  moreover have "(word_of_nat (j * ?m) + word_of_nat ?m - 1 :: u64) = word_of_nat (j * ?m + (?m - 1))"
    using m(1) by (simp add: of_nat_diff)
  ultimately have stop: "unat (range_end (leaf_range d j)) = j * ?m + (?m - 1)"
    using small [of "j * ?m + (?m - 1)"] j m(1) by (simp add: leaf_range_def Let_def bits size)
  have start: "unat (range_start (leaf_range d j)) = j * ?m"
    using small [of "j * ?m"] j m(1) by (simp add: leaf_range_def Let_def bits)
  have "unat (drop_bit (64 - d) h) = unat h div ?m"
    by (simp only: unat_drop_bit_eq) (simp add: drop_bit_eq_div)
  then show ?thesis
    using m(1) unfolding word_le_nat_alt start stop by (simp only: div_range less_imp_le zero_less_one less_trans)
qed

lemma single_diff:
  assumes "mt_wf a" "mt_wf b" "mt_depth a = mt_depth b" "mt_built a" "mt_built b" "j < 2 ^ mt_depth a"
    and "\<forall>i < 2 ^ mt_depth a. i \<noteq> j \<longrightarrow> leaf_of a i = leaf_of b i" "leaf_of a j \<noteq> leaf_of b j"
  shows "MerkleTree_diff a b = Some [leaf_range (mt_depth a) j]"
proof -
  have "filter (path_differs a b) [0..<2 ^ mt_depth a] = [j]"
    using assms(6) single_path [OF assms] by (rule filter_single)
  then show ?thesis using diff_paths [OF assms(1-3)] by simp
qed

lemma build_zero: "MerkleTree_build (MerkleTree_new d) = MerkleTree_new d"
proof -
  have "fold (\<lambda>i ns. ns[i := ns ! (2 * i) XOR ns ! (2 * i + 1)]) is (replicate n (0 :: u64)) = replicate n 0"
    if "\<forall>i \<in> set is. 2 * i + 1 < n" for "is" n
    using that
  proof (induction "is")
    case (Cons i "is")
    then have "(replicate n (0 :: u64))[i := replicate n 0 ! (2 * i) XOR replicate n 0 ! (2 * i + 1)] = replicate n 0"
      by (intro nth_equalityI) (auto simp: nth_list_update)
    with Cons show ?case by simp
  qed simp
  from this [of "rev [1..<2 ^ d]" "2 ^ d * 2"] show ?thesis
    by (simp add: MerkleTree_build_def MerkleTree_new_def Let_def)
qed

text \<open>A tree with a single occupied leaf has that leaf's hash at the root.\<close>

lemma single_root:
  assumes "mt_wf a" "mt_built a" "j < 2 ^ mt_depth a" "\<forall>i < 2 ^ mt_depth a. i \<noteq> j \<longrightarrow> leaf_of a i = 0"
  shows "MerkleTree_rootHash a = leaf_of a j"
proof -
  let ?d = "mt_depth a" and ?b = "MerkleTree_new (mt_depth a)"
  have wf: "mt_wf ?b" using assms(1) new_wf [of ?d] by (simp add: mt_wf_def)
  have bt: "mt_built ?b" using build_spec(2) [OF wf] by (simp add: build_zero)
  have bd: "mt_depth a = mt_depth ?b" by (simp add: MerkleTree_new_def Let_def)
  have zero: "leaf_of ?b i = 0" if "i < 2 ^ ?d" for i
    using that by (simp add: leaf_of_def MerkleTree_new_def Let_def)
  have same: "\<forall>i < 2 ^ ?d. i \<noteq> j \<longrightarrow> leaf_of a i = leaf_of ?b i" using assms(4) zero by simp
  have root: "(2 ^ ?d + j) div 2 ^ ?d = 1" using assms(3) by (simp add: div_add1_eq)
  have "mt_nodes a ! 1 XOR mt_nodes ?b ! 1 = leaf_of a j XOR leaf_of ?b j"
    using single_delta [OF assms(1) wf bd assms(2) bt assms(3) same, of ?d 1] root by simp
  moreover have "mt_nodes ?b ! 1 = 0" using wf_root [OF wf] by (simp add: MerkleTree_new_def Let_def)
  ultimately show ?thesis using wf_root [OF assms(1)] zero assms(3) by (simp add: MerkleTree_rootHash_def)
qed

lemma leaf_range_index [simp]: "leaf_index (leaf_range d j) = j"
  by (simp add: leaf_range_def Let_def)

section \<open>Properties\<close>

text \<open>Trees of depth 2 for the examples: \<open>ex_mt ps\<close> holds the pairs \<open>ps\<close>.\<close>

definition ex_mt :: "(u64 \<times> u64) list \<Rightarrow> MerkleTree" where
  "ex_mt ps = MerkleTree_build (insert_all ps (MerkleTree_new 2))"

lemma ex_mt_ok [simp]: "mt_wf (ex_mt ps)" "mt_built (ex_mt ps)" "mt_depth (ex_mt ps) = 2"
proof -
  have "mt_wf (insert_all ps (MerkleTree_new 2))" by (simp add: new_wf)
  from build_spec [OF this] show "mt_wf (ex_mt ps)" "mt_built (ex_mt ps)" "mt_depth (ex_mt ps) = 2"
    by (simp_all add: ex_mt_def MerkleTree_new_def Let_def)
qed

text \<open>C34: on two trees of equal depth the breadth-first walk of \<open>MerkleTree_diff\<close> ends.  Its result
  lists, in increasing order, exactly the leaves that differ together with every ancestor up to
  the root, and the reported hash range of a leaf holds exactly the key hashes of its bucket.\<close>

theorem diff_exact:
  assumes "mt_wf a" "mt_wf b" "mt_depth a = mt_depth b"
  shows "\<exists>ranges. MerkleTree_diff a b = Some ranges \<and>
    map leaf_index ranges = filter (path_differs a b) [0..<2 ^ mt_depth a] \<and>
    (\<forall>r \<in> set ranges. \<forall>h. range_start r \<le> h \<and> h \<le> range_end r \<longleftrightarrow>
       unat (drop_bit (64 - mt_depth a) h) = leaf_index r)"
proof -
  have "1 \<le> mt_depth a" "mt_depth a < 64" using assms(1) by (simp_all add: mt_wf_def)
  then show ?thesis
    using diff_paths [OF assms] by (auto simp: comp_def leaf_range_bucket)
qed

theorem diff_exact_witness:
  "\<exists>ranges. MerkleTree_diff (ex_mt [(5, 7)]) (ex_mt [(5, 9)]) = Some ranges \<and> map leaf_index ranges = [0]"
proof -
  have "filter (path_differs (ex_mt [(5, 7)]) (ex_mt [(5, 9)])) [0..<2 ^ mt_depth (ex_mt [(5, 7)])] = [0]"
    by code_simp
  then show ?thesis using diff_exact [of "ex_mt [(5, 7)]" "ex_mt [(5, 9)]"] by auto
qed

text \<open>Two built trees that differ in exactly one bucket are told apart: \<open>MerkleTree_diff\<close>
  returns that bucket's range and nothing else, whatever the other buckets hold.\<close>

theorem single_divergence_found:
  assumes "mt_wf a" "mt_wf b" "mt_depth a = mt_depth b" "mt_built a" "mt_built b" "j < 2 ^ mt_depth a"
    and "\<forall>i < 2 ^ mt_depth a. i \<noteq> j \<longrightarrow> leaf_of a i = leaf_of b i" "leaf_of a j \<noteq> leaf_of b j"
  shows "MerkleTree_diff a b = Some [leaf_range (mt_depth a) j]"
  using assms by (rule single_diff)

theorem single_divergence_found_witness:
  "MerkleTree_diff (ex_mt [(5, 7), (- 1, 3)]) (ex_mt [(5, 9), (- 1, 3)]) = Some [leaf_range 2 0]"
proof -
  let ?a = "ex_mt [(5, 7), (- 1, 3)]" and ?b = "ex_mt [(5, 9), (- 1, 3)]"
  have "map (leaf_of ?a) [1, 2, 3] = map (leaf_of ?b) [1, 2, 3]" by code_simp
  then have "\<forall>i < 2 ^ mt_depth ?a. i \<noteq> 0 \<longrightarrow> leaf_of ?a i = leaf_of ?b i"
    by (auto simp: less_Suc_eq numeral_eq_Suc)
  moreover have "leaf_of ?a 0 \<noteq> leaf_of ?b 0" by code_simp
  ultimately show ?thesis using single_divergence_found [of ?a ?b 0] by simp
qed

text \<open>Two buckets with the same difference cancel at their parent: the walk stops at the root and
  reports nothing.\<close>

lemma cancelling_divergence_missed:
  "leaf_of (ex_mt [(0, 7)]) 0 \<noteq> leaf_of (ex_mt [(- 1, 7)]) 0 \<and>
   MerkleTree_diff (ex_mt [(0, 7)]) (ex_mt [(- 1, 7)]) = Some []"
  by code_simp

end
