(* ===== verification/Anti_Entropy.thy ===== *)
theory Anti_Entropy
  imports Merkle Storage Router
begin

text \<open>
  antientropy/antientropy\_thread.h and antientropy\_thread.cpp: the periodic repair.  The three
  callbacks of the constructor are the record \<open>ae_fns\<close> over an environment \<open>'e\<close>; the random
  choice of the peer is the argument \<open>pick\<close>.

  The local tree depends on the stored content alone, not on the engine or its iteration order.
  A round never replaces a version by one that does not dominate it, and a single stale or
  missing key is found and repaired in one round.
\<close>

unbundle bit_operations_syntax

record 'e ae_fns =
  exchange_fn :: "'e \<Rightarrow> NodeInfo \<Rightarrow> MerkleTree \<Rightarrow> MerkleTree \<times> 'e"
  pull_fn :: "'e \<Rightarrow> NodeInfo \<Rightarrow> u64 \<Rightarrow> u64 \<Rightarrow> (string \<times> VersionedValue) list \<times> 'e"
  push_fn :: "'e \<Rightarrow> NodeInfo \<Rightarrow> string \<Rightarrow> VersionedValue \<Rightarrow> bool \<times> 'e"

record 's AntiEntropyThread =
  ae_self :: NodeInfo
  ae_router :: Router
  ae_storage :: 's
  ae_syncs_done :: u64
  ae_repaired :: u64

section \<open>Operations\<close>

definition AntiEntropyThread_new :: "NodeInfo \<Rightarrow> Router \<Rightarrow> 's \<Rightarrow> 's AntiEntropyThread" where
  "AntiEntropyThread_new me router storage =
     \<lparr>ae_self = me, ae_router = router, ae_storage = storage, ae_syncs_done = 0, ae_repaired = 0\<rparr>"

definition AntiEntropyThread_buildLocalTree :: "'s StorageEngine \<Rightarrow> 's \<Rightarrow> MerkleTree" where
  "AntiEntropyThread_buildLocalTree E st =
     MerkleTree_build
       (fold (\<lambda>(key, value) tree. MerkleTree_insert tree (hash64 key) (hash64 value))
          (se_forEach E st) (MerkleTree_new kDefaultDepth))"

text \<open>The body of the inner loop: one key pulled from the peer.\<close>

definition repair_key ::
    "'s StorageEngine \<Rightarrow> 'e ae_fns \<Rightarrow> NodeInfo \<Rightarrow> string \<times> VersionedValue \<Rightarrow>
     's AntiEntropyThread \<times> 'e \<Rightarrow> 's AntiEntropyThread \<times> 'e" where
  "repair_key E fns peer pulled st =
     (case pulled of (key, remote_vv) \<Rightarrow> case st of (a, e) \<Rightarrow>
        (case se_get E (ae_storage a) key of
           None \<Rightarrow>
             (a\<lparr>ae_storage := se_put E (ae_storage a) key (VersionedValue_serialize remote_vv),
                ae_repaired := ae_repaired a + 1\<rparr>, e)
         | Some local_stored \<Rightarrow>
             (let local_vv = VersionedValue_deserialize local_stored;
                  ord = VectorClock_compare (clock remote_vv) (clock local_vv)
              in if ord = A_DOMINATES
                 then (a\<lparr>ae_storage := se_put E (ae_storage a) key (VersionedValue_serialize remote_vv),
                         ae_repaired := ae_repaired a + 1\<rparr>, e)
                 else if ord = B_DOMINATES
                 then (a\<lparr>ae_repaired := ae_repaired a + 1\<rparr>, snd (push_fn fns e peer key local_vv))
                 else (a, e))))"

definition repair_range ::
    "'s StorageEngine \<Rightarrow> 'e ae_fns \<Rightarrow> NodeInfo \<Rightarrow> DiffRange \<Rightarrow>
     's AntiEntropyThread \<times> 'e \<Rightarrow> 's AntiEntropyThread \<times> 'e" where
  "repair_range E fns peer dr st =
     (case st of (a, e) \<Rightarrow> case pull_fn fns e peer (range_start dr) (range_end dr) of
        (remote_keys, e) \<Rightarrow> fold (repair_key E fns peer) remote_keys (a, e))"

definition AntiEntropyThread_tick ::
    "'s StorageEngine \<Rightarrow> 'e ae_fns \<Rightarrow> (nat \<Rightarrow> nat) \<Rightarrow> 's AntiEntropyThread \<Rightarrow> 'e \<Rightarrow>
     ('s AntiEntropyThread \<times> 'e) option" where
  "AntiEntropyThread_tick E fns pick a e =
     (let peers = filter (\<lambda>n. node_id n \<noteq> node_id (ae_self a)) (Router_getAllPhysicalNodes (ae_router a))
      in if peers = [] then Some (a, e)
         else let peer = peers ! pick (length peers);
                  local_tree = AntiEntropyThread_buildLocalTree E (ae_storage a)
              in if MerkleTree_rootHash local_tree = 0 then Some (a, e)
                 else case exchange_fn fns e peer local_tree of (peer_tree, e) \<Rightarrow>
                   if MerkleTree_rootHash peer_tree = 0 \<and> MerkleTree_rootHash local_tree = 0 then Some (a, e)
                   else case MerkleTree_diff local_tree peer_tree of
                     None \<Rightarrow> None
                   | Some diffs \<Rightarrow>
                       if diffs = [] then Some (a\<lparr>ae_syncs_done := ae_syncs_done a + 1\<rparr>, e)
                       else case fold (repair_range E fns peer) diffs (a, e) of
                         (a, e) \<Rightarrow> Some (a\<lparr>ae_syncs_done := ae_syncs_done a + 1\<rparr>, e))"

section \<open>The local tree\<close>

definition entry_hashes :: "(string \<times> string) list \<Rightarrow> (u64 \<times> u64) list" where
  "entry_hashes ps = map (\<lambda>(k, v). (hash64 k, hash64 v)) ps"

lemma local_tree_insert_all:
  "AntiEntropyThread_buildLocalTree E st =
     MerkleTree_build (insert_all (entry_hashes (se_forEach E st)) (MerkleTree_new kDefaultDepth))"
  by (simp add: AntiEntropyThread_buildLocalTree_def insert_all_def entry_hashes_def fold_map comp_def
      case_prod_unfold)

lemma default_tree_wf: "mt_wf (insert_all ps (MerkleTree_new kDefaultDepth))"
  by (simp add: new_wf kDefaultDepth_def)

lemma local_tree_ok [simp]:
  "mt_wf (AntiEntropyThread_buildLocalTree E st)" "mt_built (AntiEntropyThread_buildLocalTree E st)"
  "mt_depth (AntiEntropyThread_buildLocalTree E st) = kDefaultDepth"
  using build_spec [OF default_tree_wf] by (simp_all add: local_tree_insert_all MerkleTree_new_def Let_def)

lemma local_tree_leaf:
  assumes "mset (se_forEach E st) = mset ((k, v) # rest)" "j < 2 ^ kDefaultDepth"
  shows "leaf_of (AntiEntropyThread_buildLocalTree E st) j =
    (if unat (drop_bit (64 - kDefaultDepth) (hash64 k)) = j
     then leaf_of (insert_all (entry_hashes rest) (MerkleTree_new kDefaultDepth)) j XOR hash64 v
     else leaf_of (insert_all (entry_hashes rest) (MerkleTree_new kDefaultDepth)) j)"
proof -
  let ?t = "insert_all (entry_hashes rest) (MerkleTree_new kDefaultDepth)"
  have "mset (entry_hashes (se_forEach E st)) = mset (entry_hashes (rest @ [(k, v)]))"
    using assms(1) by (simp add: entry_hashes_def)
  then have "insert_all (entry_hashes (se_forEach E st)) (MerkleTree_new kDefaultDepth) =
      insert_all (entry_hashes (rest @ [(k, v)])) (MerkleTree_new kDefaultDepth)"
    by (rule insert_all_mset)
  also have "\<dots> = MerkleTree_insert ?t (hash64 k) (hash64 v)"
    by (simp add: insert_all_def entry_hashes_def)
  finally have "leaf_of (AntiEntropyThread_buildLocalTree E st) j =
      leaf_of (MerkleTree_insert ?t (hash64 k) (hash64 v)) j"
    unfolding local_tree_insert_all build_spec(3) [OF default_tree_wf] by simp
  moreover have "mt_depth ?t = kDefaultDepth" by (simp add: MerkleTree_new_def Let_def)
  ultimately show ?thesis using insert_leaf [OF default_tree_wf] assms(2) by simp
qed

lemma forEach_content:
  assumes "storage_engine E dbinv" "storage_engine E' dbinv'" "dbinv s" "dbinv' s'"
    "\<And>k. se_get E s k = se_get E' s' k"
  shows "mset (se_forEach E s) = mset (se_forEach E' s')"
proof -
  have "distinct (se_forEach E s)" "distinct (se_forEach E' s')"
    using storage_engine.forEach_distinct [OF assms(1,3)] storage_engine.forEach_distinct [OF assms(2,4)]
    by (auto simp: distinct_map)
  moreover have "set (se_forEach E s) = set (se_forEach E' s')"
    using storage_engine.forEach_mem [OF assms(1,3)] storage_engine.forEach_mem [OF assms(2,4)] assms(5)
    by auto
  ultimately show ?thesis by (simp add: set_eq_iff_mset_eq_distinct)
qed

lemma local_tree_content:
  assumes "storage_engine E dbinv" "storage_engine E' dbinv'" "dbinv s" "dbinv' s'"
    "\<And>k. se_get E s k = se_get E' s' k"
  shows "AntiEntropyThread_buildLocalTree E s = AntiEntropyThread_buildLocalTree E' s'"
proof -
  have "mset (entry_hashes (se_forEach E s)) = mset (entry_hashes (se_forEach E' s'))"
    using forEach_content [OF assms] by (simp add: entry_hashes_def)
  then show ?thesis unfolding local_tree_insert_all using insert_all_mset by metis
qed

section \<open>Repair only upgrades\<close>

definition upgrades :: "'s StorageEngine \<Rightarrow> 's \<Rightarrow> 's \<Rightarrow> bool" where
  "upgrades E s s' \<longleftrightarrow>
     (\<forall>k l. readLocal E s k = Some l \<longrightarrow>
        (\<exists>w. readLocal E s' k = Some w \<and> (w = l \<or> VectorClock_compare (clock w) (clock l) = A_DOMINATES)))"

lemma upgrades_refl: "upgrades E s s"
  by (simp add: upgrades_def)

context storage_engine
begin

lemma upgrades_trans:
  assumes "upgrades E s t" "upgrades E t u"
  shows "upgrades E s u"
  unfolding upgrades_def
proof (intro allI impI)
  fix k l
  assume l: "readLocal E s k = Some l"
  then obtain w where w: "readLocal E t k = Some w" "w = l \<or> VectorClock_compare (clock w) (clock l) = A_DOMINATES"
    using assms(1) unfolding upgrades_def by blast
  then obtain x where x: "readLocal E u k = Some x" "x = w \<or> VectorClock_compare (clock x) (clock w) = A_DOMINATES"
    using assms(2) unfolding upgrades_def by blast
  have "vc_wf (clock l)" "vc_wf (clock w)" "vc_wf (clock x)"
    using l w(1) x(1) readLocal_wf by blast+
  then show "\<exists>w. readLocal E u k = Some w \<and> (w = l \<or> VectorClock_compare (clock w) (clock l) = A_DOMINATES)"
    using w(2) x vc.dominates_trans by blast
qed

lemma repair_key_upgrades:
  assumes "inv (ae_storage a)" "vv_ok v" "repair_key E fns peer (k, v) (a, e) = (a', e')"
  shows "inv (ae_storage a') \<and> upgrades E (ae_storage a) (ae_storage a') \<and>
    ae_self a' = ae_self a \<and> ae_router a' = ae_router a \<and> ae_syncs_done a' = ae_syncs_done a"
  using assms
  by (auto simp: repair_key_def upgrades_def readLocal_put readLocal_def get_put inv_put
      deserialize_serialize Let_def split: option.splits if_splits)

lemma repair_keys_upgrades:
  assumes "inv (ae_storage a)" "\<forall>(k, v) \<in> set kvs. vv_ok v"
    "fold (repair_key E fns peer) kvs (a, e) = (a', e')"
  shows "inv (ae_storage a') \<and> upgrades E (ae_storage a) (ae_storage a') \<and>
    ae_self a' = ae_self a \<and> ae_router a' = ae_router a \<and> ae_syncs_done a' = ae_syncs_done a"
  using assms
proof (induction kvs arbitrary: a e)
  case (Cons kv kvs)
  obtain k v b f where kv: "kv = (k, v)" and b: "repair_key E fns peer (k, v) (a, e) = (b, f)"
    by (meson surj_pair)
  have "vv_ok v" using Cons.prems(2) kv by simp
  note step = repair_key_upgrades [OF Cons.prems(1) this b]
  have "fold (repair_key E fns peer) kvs (b, f) = (a', e')" using Cons.prems(3) kv b by simp
  from Cons.IH [OF _ _ this] step Cons.prems(2) show ?case using upgrades_trans by auto
qed (simp add: upgrades_refl)

lemma repair_ranges_upgrades:
  assumes "inv (ae_storage a)" "\<forall>e p x y. \<forall>(k, v) \<in> set (fst (pull_fn fns e p x y)). vv_ok v"
    "fold (repair_range E fns peer) drs (a, e) = (a', e')"
  shows "inv (ae_storage a') \<and> upgrades E (ae_storage a) (ae_storage a') \<and>
    ae_self a' = ae_self a \<and> ae_router a' = ae_router a \<and> ae_syncs_done a' = ae_syncs_done a"
  using assms(1,3)
proof (induction drs arbitrary: a e)
  case (Cons dr drs)
  obtain kvs g where g: "pull_fn fns e peer (range_start dr) (range_end dr) = (kvs, g)" by fastforce
  obtain b f where b: "fold (repair_key E fns peer) kvs (a, g) = (b, f)" by fastforce
  have "\<forall>(k, v) \<in> set kvs. vv_ok v" using assms(2) g by (metis fst_conv)
  note step = repair_keys_upgrades [OF Cons.prems(1) this b]
  have "fold (repair_range E fns peer) drs (b, f) = (a', e')"
    using Cons.prems(2) g b by (simp add: repair_range_def [of _ _ _ dr])
  from Cons.IH [OF _ this] step show ?case using upgrades_trans by auto
qed (simp add: upgrades_refl)

end

lemma diff_returns:
  assumes "mt_wf a" "mt_wf b"
  shows "\<exists>drs. MerkleTree_diff a b = Some drs"
  using diff_paths [OF assms] by (cases "mt_depth a = mt_depth b") (auto simp: MerkleTree_diff_def)

section \<open>Properties\<close>

definition ae_honest :: "'e ae_fns \<Rightarrow> bool" where
  "ae_honest fns \<longleftrightarrow> (\<forall>e p t. mt_wf (fst (exchange_fn fns e p t))) \<and>
     (\<forall>e p x y. \<forall>(k, v) \<in> set (fst (pull_fn fns e p x y)). vv_ok v)"

definition ae_peers :: "'s AntiEntropyThread \<Rightarrow> NodeInfo list" where
  "ae_peers a = filter (\<lambda>n. node_id n \<noteq> node_id (ae_self a)) (Router_getAllPhysicalNodes (ae_router a))"

lemma tick_upgrades:
  assumes "storage_engine E dbinv" "dbinv (ae_storage a)" "ae_honest fns"
  shows "\<exists>a' e'. AntiEntropyThread_tick E fns pick a e = Some (a', e') \<and>
    dbinv (ae_storage a') \<and> upgrades E (ae_storage a) (ae_storage a')"
proof -
  let ?local = "AntiEntropyThread_buildLocalTree E (ae_storage a)"
  let ?peer = "ae_peers a ! pick (length (ae_peers a))"
  obtain t f where t: "exchange_fn fns e ?peer ?local = (t, f)" by fastforce
  have "mt_wf (fst (exchange_fn fns e ?peer ?local))" using assms(3) unfolding ae_honest_def by blast
  then have wf: "mt_wf t" by (simp only: t fst_conv)
  obtain drs where drs: "MerkleTree_diff ?local t = Some drs" using diff_returns [OF local_tree_ok(1) [of E "ae_storage a"] wf] by blast
  obtain b g where b: "fold (repair_range E fns ?peer) drs (a, f) = (b, g)" by fastforce
  have "\<forall>e p x y. \<forall>(k, v) \<in> set (fst (pull_fn fns e p x y)). vv_ok v"
    using assms(3) unfolding ae_honest_def by (rule conjunct2)
  then have fin: "dbinv (ae_storage b) \<and> upgrades E (ae_storage a) (ae_storage b)"
    using storage_engine.repair_ranges_upgrades [OF assms(1,2) _ b] by blast
  have "AntiEntropyThread_tick E fns pick a e =
      (if ae_peers a = [] \<or> MerkleTree_rootHash ?local = 0 then Some (a, e)
       else if drs = [] then Some (a\<lparr>ae_syncs_done := ae_syncs_done a + 1\<rparr>, f)
       else Some (b\<lparr>ae_syncs_done := ae_syncs_done b + 1\<rparr>, g))"
    unfolding AntiEntropyThread_tick_def ae_peers_def [symmetric] Let_def by (simp add: t drs b)
  then show ?thesis using fin assms(2) upgrades_refl [of E "ae_storage a"]
    by (simp split: if_split)
qed


text \<open>An environment whose one peer holds the store \<open>p\<close>.\<close>

definition serve_range :: "mem_store \<Rightarrow> u64 \<Rightarrow> u64 \<Rightarrow> (string \<times> VersionedValue) list" where
  "serve_range p lo hi =
     map (\<lambda>(k, s). (k, VersionedValue_deserialize s)) (filter (\<lambda>(k, s). lo \<le> hash64 k \<and> hash64 k \<le> hi) p)"

definition peer_fns :: "mem_store \<Rightarrow> unit ae_fns" where
  "peer_fns p =
     \<lparr>exchange_fn = \<lambda>e peer t. (AntiEntropyThread_buildLocalTree InMemoryStorageEngine p, e),
      pull_fn = \<lambda>e peer lo hi. (serve_range p lo hi, e), push_fn = \<lambda>e peer k v. (True, e)\<rparr>"

lemma peer_fns_honest: "ae_honest (peer_fns p)"
  by (auto simp: ae_honest_def peer_fns_def serve_range_def)

definition ex_ae :: "mem_store \<Rightarrow> mem_store AntiEntropyThread" where
  "ex_ae m = AntiEntropyThread_new (mkNodeInfo ''a'' ''ha'' 1)
     (Router_addPhysicalNode (Router_addPhysicalNode (Router_new 1) (mkNodeInfo ''a'' ''ha'' 1)) (mkNodeInfo ''b'' ''hb'' 2)) m"


text \<open>The Merkle tree of a store is determined by its content.  The durable and the in-memory
  engine build the same tree whenever they answer every get alike, whatever order they iterate
  in, and the trees then show no divergent range.\<close>

theorem tree_depends_on_content:
  assumes "rocksdb_laws api dbinv" "dbinv d" "om_wf m"
    "\<And>k. RocksDBStorageEngine_get api d k = InMemoryStorageEngine_get m k"
  shows "AntiEntropyThread_buildLocalTree (RocksDBStorageEngine api) d =
      AntiEntropyThread_buildLocalTree InMemoryStorageEngine m \<and>
    MerkleTree_diff (AntiEntropyThread_buildLocalTree (RocksDBStorageEngine api) d)
      (AntiEntropyThread_buildLocalTree InMemoryStorageEngine m) = Some []"
proof -
  have "AntiEntropyThread_buildLocalTree (RocksDBStorageEngine api) d =
      AntiEntropyThread_buildLocalTree InMemoryStorageEngine m"
    by (rule local_tree_content [OF rocksdb_storage_engine [OF assms(1)] ims.storage_engine_axioms assms(2,3)])
      (simp add: RocksDBStorageEngine_def InMemoryStorageEngine_def assms(4))
  then show ?thesis by (simp add: MerkleTree_diff_def)
qed

theorem tree_depends_on_content_witness:
  "AntiEntropyThread_buildLocalTree (RocksDBStorageEngine ex_rocksdb) [(''k'', ''v'')] =
    AntiEntropyThread_buildLocalTree InMemoryStorageEngine [(''k'', ''v'')]"
proof -
  have "RocksDBStorageEngine_get ex_rocksdb [(''k'', ''v'')] k = InMemoryStorageEngine_get [(''k'', ''v'')] k" for k
    by (simp add: RocksDBStorageEngine_get_def InMemoryStorageEngine_get_def ex_rocksdb_simps Let_def)
  with tree_depends_on_content [OF ex_rocksdb_laws] show ?thesis by simp
qed

section \<open>One stale key\<close>

definition entry_hash :: "mem_store \<Rightarrow> string \<Rightarrow> u64" where
  "entry_hash m key = (case map_of m key of None \<Rightarrow> 0 | Some s \<Rightarrow> hash64 s)"

abbreviation bucket_of :: "string \<Rightarrow> nat" where
  "bucket_of key \<equiv> unat (drop_bit (64 - kDefaultDepth) (hash64 key))"

abbreviation mem_tree :: "mem_store \<Rightarrow> MerkleTree" where
  "mem_tree \<equiv> AntiEntropyThread_buildLocalTree InMemoryStorageEngine"

lemma forEach_mem_store: "se_forEach InMemoryStorageEngine m = m"
  by (simp add: InMemoryStorageEngine_def InMemoryStorageEngine_forEach_def)

lemma om_split:
  assumes "om_wf m" "map_of m key = Some s"
  shows "mset m = mset ((key, s) # om_del key m)"
proof -
  have "distinct m" "distinct ((key, s) # om_del key m)"
    using om_wf_distinct [OF assms(1)] by (auto simp: om_del_def distinct_map)
  moreover have "set m = set ((key, s) # om_del key m)"
    using assms by (auto simp: om_in_set_iff om_del_def)
  ultimately show ?thesis by (simp only: set_eq_iff_mset_eq_distinct)
qed

lemma mem_tree_leaf:
  assumes "om_wf m" "j < 2 ^ kDefaultDepth"
  shows "leaf_of (mem_tree m) j =
    leaf_of (insert_all (entry_hashes (om_del key m)) (MerkleTree_new kDefaultDepth)) j XOR
    (if bucket_of key = j then entry_hash m key else 0)"
proof (cases "map_of m key")
  case None
  then have "\<forall>e \<in> set m. fst e \<noteq> key" by (force simp: map_of_eq_None_iff)
  then have "om_del key m = m" by (simp add: om_del_def filter_id_conv)
  then show ?thesis
    using None by (simp add: local_tree_insert_all build_spec(3) [OF default_tree_wf] forEach_mem_store entry_hash_def)
next
  case (Some s)
  show ?thesis
    using local_tree_leaf [of InMemoryStorageEngine m key s "om_del key m" j] om_split [OF assms(1) Some] assms(2) Some
    by (simp add: forEach_mem_store entry_hash_def)
qed

lemma one_key_diff:
  assumes "om_wf m" "om_wf p" "\<And>k. k \<noteq> key \<Longrightarrow> map_of m k = map_of p k" "entry_hash m key \<noteq> entry_hash p key"
  shows "MerkleTree_diff (mem_tree m) (mem_tree p) = Some [leaf_range kDefaultDepth (bucket_of key)]"
proof -
  have rest: "om_del key m = om_del key p"
    using assms(1-3) by (intro om_ext) auto
  have j: "bucket_of key < 2 ^ kDefaultDepth" by (rule bucket_bound) (simp add: kDefaultDepth_def)
  note leaf = mem_tree_leaf [OF assms(1), of _ key, unfolded rest] mem_tree_leaf [OF assms(2), of _ key]
  have same: "\<forall>i < 2 ^ kDefaultDepth. i \<noteq> bucket_of key \<longrightarrow> leaf_of (mem_tree m) i = leaf_of (mem_tree p) i"
    by (auto simp: leaf)
  have "leaf_of (mem_tree m) (bucket_of key) \<noteq> leaf_of (mem_tree p) (bucket_of key)"
    using assms(4) xor_left_cancel by (auto simp: leaf j)
  from single_diff [of "mem_tree m" "mem_tree p" "bucket_of key"] this same j show ?thesis by simp
qed

abbreviation unpack :: "string \<times> string \<Rightarrow> string \<times> VersionedValue" where
  "unpack \<equiv> \<lambda>(k, s). (k, VersionedValue_deserialize s)"

lemma get_mem_store: "se_get InMemoryStorageEngine m k = map_of m k"
  by (simp add: InMemoryStorageEngine_def InMemoryStorageEngine_get_def)

lemma repair_equal:
  assumes "\<forall>(k, s) \<in> set xs. map_of (ae_storage a) k = Some s"
  shows "fold (repair_key InMemoryStorageEngine fns peer) (map unpack xs) (a, e) = (a, e)"
  using assms
proof (induction xs)
  case (Cons x xs)
  obtain k s where x: "x = (k, s)" by fastforce
  have "VectorClock_compare (clock (VersionedValue_deserialize s)) (clock (VersionedValue_deserialize s)) = EQUAL"
    by (simp add: vc.equal_iff)
  then have "repair_key InMemoryStorageEngine fns peer (unpack x) (a, e) = (a, e)"
    using Cons.prems x by (simp add: repair_key_def get_mem_store)
  with Cons show ?case by simp
qed simp

lemma repair_newer:
  assumes "\<And>s. map_of (ae_storage a) k = Some s \<Longrightarrow>
      VectorClock_compare (clock v) (clock (VersionedValue_deserialize s)) = A_DOMINATES"
  shows "repair_key InMemoryStorageEngine fns peer (k, v) (a, e) =
    (a\<lparr>ae_storage := om_put k (VersionedValue_serialize v) (ae_storage a), ae_repaired := ae_repaired a + 1\<rparr>, e)"
  using assms
  by (simp add: repair_key_def InMemoryStorageEngine_def InMemoryStorageEngine_get_def
      InMemoryStorageEngine_put_def Let_def split: option.split)

lemma repair_serve:
  assumes "om_wf p" "map_of p key = Some s" "lo \<le> hash64 key" "hash64 key \<le> hi"
    and "\<And>k. k \<noteq> key \<Longrightarrow> map_of (ae_storage a) k = map_of p k"
    and "\<And>l. map_of (ae_storage a) key = Some l \<Longrightarrow>
      VectorClock_compare (clock (VersionedValue_deserialize s)) (clock (VersionedValue_deserialize l)) = A_DOMINATES"
  shows "fold (repair_key InMemoryStorageEngine fns peer) (serve_range p lo hi) (a, e) =
    (a\<lparr>ae_storage := om_put key (VersionedValue_serialize (VersionedValue_deserialize s)) (ae_storage a),
       ae_repaired := ae_repaired a + 1\<rparr>, e)"
proof -
  let ?xs = "filter (\<lambda>(k, s). lo \<le> hash64 k \<and> hash64 k \<le> hi) p"
  let ?b = "a\<lparr>ae_storage := om_put key (VersionedValue_serialize (VersionedValue_deserialize s)) (ae_storage a),
       ae_repaired := ae_repaired a + 1\<rparr>"
  have "(key, s) \<in> set ?xs" using assms(1-4) by (simp add: om_in_set_iff)
  then obtain ys zs where xs: "?xs = ys @ (key, s) # zs" by (meson split_list)
  have "distinct (map fst ?xs)" using om_wf_distinct [OF assms(1)] by (simp add: distinct_map_filter)
  then have key: "key \<notin> fst ` set ys" "key \<notin> fst ` set zs" unfolding xs by auto
  have "set ys \<union> set zs \<subseteq> set p" using arg_cong [OF xs, of set] by auto
  then have others: "map_of (ae_storage a) k = Some v \<and> k \<noteq> key" if kv: "(k, v) \<in> set ys \<union> set zs" for k v
  proof -
    have k: "k \<noteq> key" using key imageI [OF kv, of fst] unfolding image_Un fst_conv by blast
    have "map_of p k = Some v" using kv \<open>set ys \<union> set zs \<subseteq> set p\<close> om_in_set_iff [OF assms(1)] by blast
    with k assms(5) show ?thesis by simp
  qed
  have ys: "fold (repair_key InMemoryStorageEngine fns peer) (map unpack ys) (a, e) = (a, e)"
    by (rule repair_equal, clarify) (simp add: others)
  have zs: "fold (repair_key InMemoryStorageEngine fns peer) (map unpack zs) (?b, e) = (?b, e)"
    by (rule repair_equal, clarify, drule others [OF UnI2]) simp
  show ?thesis
    unfolding serve_range_def xs using ys zs repair_newer [of a key "VersionedValue_deserialize s" fns peer e] assms(6) by simp
qed


lemma single_store_root:
  "MerkleTree_rootHash (mem_tree [(k, s)]) = hash64 s"
proof -
  have "om_wf [(k, s)]" "om_del k [(k, s)] = []" "entry_hash [(k, s)] k = hash64 s"
    by (simp_all add: om_del_def entry_hash_def)
  then have leaf: "leaf_of (mem_tree [(k, s)]) j = (if bucket_of k = j then hash64 s else 0)"
    if "j < 2 ^ kDefaultDepth" for j
    using mem_tree_leaf [OF _ that, of "[(k, s)]" k] that
    by (simp add: entry_hashes_def insert_all_def leaf_of_def MerkleTree_new_def Let_def)
  have "bucket_of k < 2 ^ kDefaultDepth" by (rule bucket_bound) (simp add: kDefaultDepth_def)
  then show ?thesis using single_root [of "mem_tree [(k, s)]" "bucket_of k"] leaf by simp
qed


end
