(* ===== verification/Connection_Pool.thy ===== *)
theory Connection_Pool
  imports Text_Codec
begin

text \<open>
  net/connection\_pool: idle peer connections kept for reuse.  The socket calls (\<open>connect\<close>,
  \<open>close\<close> and one framed round trip) are a record \<open>'e sock\<close> over an environment; a file
  descriptor is an \<open>int\<close>, negative on failure.  The exchange of net/pooled\_replica\_client.cpp
  that uses the pool is here as well.

  Shown: the pool never exceeds its cap and never holds a descriptor twice, hands out the most
  recently returned connection, and no exchange leaks or double-closes a descriptor.
\<close>

record Idle =
  i_fd :: int
  i_returned_at :: int

record ConnectionPool =
  p_max_per_peer :: nat
  p_idle_ttl :: int
  p_idle :: "(string, Idle list) omap"
  p_stopping :: bool
  p_created :: nat
  p_reused :: nat

record 'e sock =
  sk_connect :: "'e \<Rightarrow> string \<Rightarrow> u16 \<Rightarrow> int \<times> 'e"
  sk_close :: "'e \<Rightarrow> int \<Rightarrow> 'e"
  sk_roundTrip :: "'e \<Rightarrow> int \<Rightarrow> string \<Rightarrow> string option \<times> 'e"

section \<open>Operations\<close>

definition ConnectionPool_new :: "nat \<Rightarrow> int \<Rightarrow> ConnectionPool" where
  "ConnectionPool_new max_per_peer idle_ttl_s =
     \<lparr>p_max_per_peer = (if max_per_peer = 0 then 1 else max_per_peer),
      p_idle_ttl = idle_ttl_s * 1000000000, p_idle = [], p_stopping = False,
      p_created = 0, p_reused = 0\<rparr>"

definition keyOf :: "string \<Rightarrow> u16 \<Rightarrow> string" where
  "keyOf h p = h @ '':'' @ dec_word p"

definition conns :: "ConnectionPool \<Rightarrow> string \<Rightarrow> Idle list" where
  "conns pool k = (case map_of (p_idle pool) k of None \<Rightarrow> [] | Some l \<Rightarrow> l)"

definition ConnectionPool_checkout ::
    "'e sock \<Rightarrow> string \<Rightarrow> u16 \<Rightarrow> ConnectionPool \<Rightarrow> 'e \<Rightarrow> int \<times> ConnectionPool \<times> 'e" where
  "ConnectionPool_checkout sk h p pool e =
     (let k = keyOf h p; l = conns pool k;
          reused_fd = (if l \<noteq> [] then i_fd (last l) else - 1);
          pool' = (if l \<noteq> [] then pool\<lparr>p_idle := om_put k (butlast l) (p_idle pool)\<rparr> else pool)
      in if reused_fd \<ge> 0 then (reused_fd, pool'\<lparr>p_reused := p_reused pool' + 1\<rparr>, e)
         else case sk_connect sk e h p of (fd, e) \<Rightarrow>
           (fd, if fd \<ge> 0 then pool'\<lparr>p_created := p_created pool' + 1\<rparr> else pool', e))"

definition ConnectionPool_checkin ::
    "'e sock \<Rightarrow> int \<Rightarrow> string \<Rightarrow> u16 \<Rightarrow> int \<Rightarrow> ConnectionPool \<Rightarrow> 'e \<Rightarrow> ConnectionPool \<times> 'e" where
  "ConnectionPool_checkin sk now h p fd pool e =
     (if fd < 0 then (pool, e)
      else if p_stopping pool then (pool, sk_close sk e fd)
      else let k = keyOf h p; l = conns pool k
           in if length l \<ge> p_max_per_peer pool
              then (pool\<lparr>p_idle := om_put k l (p_idle pool)\<rparr>, sk_close sk e fd)
              else (pool\<lparr>p_idle := om_put k (l @ [\<lparr>i_fd = fd, i_returned_at = now\<rparr>]) (p_idle pool)\<rparr>, e))"

definition ConnectionPool_discard :: "'e sock \<Rightarrow> int \<Rightarrow> 'e \<Rightarrow> 'e" where
  "ConnectionPool_discard sk fd e = (if fd < 0 then e else sk_close sk e fd)"

definition expired :: "int \<Rightarrow> ConnectionPool \<Rightarrow> Idle \<Rightarrow> bool" where
  "expired now pool c \<longleftrightarrow> now - i_returned_at c > p_idle_ttl pool"

definition ConnectionPool_reapExpired ::
    "'e sock \<Rightarrow> int \<Rightarrow> ConnectionPool \<Rightarrow> 'e \<Rightarrow> ConnectionPool \<times> 'e" where
  "ConnectionPool_reapExpired sk now pool e =
     (let to_close = concat (map (\<lambda>kv. map i_fd (filter (expired now pool) (snd kv))) (p_idle pool))
      in (pool\<lparr>p_idle := map (\<lambda>(k, l). (k, filter (\<lambda>c. \<not> expired now pool c) l)) (p_idle pool)\<rparr>,
          fold (\<lambda>fd e. sk_close sk e fd) to_close e))"

definition ConnectionPool_idleCount :: "ConnectionPool \<Rightarrow> nat" where
  "ConnectionPool_idleCount pool = sum_list (map (\<lambda>kv. length (snd kv)) (p_idle pool))"

text \<open>The destructor up to the join of the reaper.\<close>

definition ConnectionPool_shutdown :: "'e sock \<Rightarrow> ConnectionPool \<Rightarrow> 'e \<Rightarrow> ConnectionPool \<times> 'e" where
  "ConnectionPool_shutdown sk pool e =
     (pool\<lparr>p_stopping := True, p_idle := map (\<lambda>(k, l). (k, [])) (p_idle pool)\<rparr>,
      fold (\<lambda>fd e. sk_close sk e fd) (concat (map (\<lambda>kv. map i_fd (snd kv)) (p_idle pool))) e)"

section \<open>The pooled exchange\<close>

fun exchange_attempts ::
    "nat \<Rightarrow> 'e sock \<Rightarrow> int \<Rightarrow> string \<Rightarrow> u16 \<Rightarrow> string \<Rightarrow> ConnectionPool \<Rightarrow> 'e
       \<Rightarrow> string \<times> ConnectionPool \<times> 'e" where
  "exchange_attempts 0 sk now h p request pool e = ([], pool, e)"
| "exchange_attempts (Suc n) sk now h p request pool e =
     (case ConnectionPool_checkout sk h p pool e of (fd, pool, e) \<Rightarrow>
        if fd < 0 then ([], pool, e)
        else case sk_roundTrip sk e fd request of (r, e) \<Rightarrow>
          (case r of
             Some reply \<Rightarrow>
               (case ConnectionPool_checkin sk now h p fd pool e of (pool, e) \<Rightarrow> (reply, pool, e))
           | None \<Rightarrow> exchange_attempts n sk now h p request pool (ConnectionPool_discard sk fd e)))"

definition PooledReplicaClient_exchange ::
    "'e sock \<Rightarrow> int \<Rightarrow> string \<Rightarrow> u16 \<Rightarrow> string \<Rightarrow> ConnectionPool \<Rightarrow> 'e
       \<Rightarrow> string \<times> ConnectionPool \<times> 'e" where
  "PooledReplicaClient_exchange sk now h p request pool e = exchange_attempts 2 sk now h p request pool e"

section \<open>Invariant\<close>

definition pool_fds :: "ConnectionPool \<Rightarrow> int list" where
  "pool_fds pool = concat (map (\<lambda>kv. map i_fd (snd kv)) (p_idle pool))"

definition pool_wf :: "ConnectionPool \<Rightarrow> bool" where
  "pool_wf pool \<longleftrightarrow> om_wf (p_idle pool) \<and>
     (\<forall>kv \<in> set (p_idle pool). length (snd kv) \<le> p_max_per_peer pool) \<and>
     distinct (pool_fds pool) \<and> (\<forall>fd \<in> set (pool_fds pool). 0 \<le> fd)"

text \<open>
  The documented behaviour of the socket calls, with \<open>opened e\<close> the descriptors that are open:
  a successful connect yields a descriptor that was not open, close closes exactly its
  argument, and a round trip opens and closes nothing.
\<close>

definition sockets_ok :: "'e sock \<Rightarrow> ('e \<Rightarrow> int set) \<Rightarrow> bool" where
  "sockets_ok sk opened \<longleftrightarrow>
     (\<forall>e h p fd e'. sk_connect sk e h p = (fd, e') \<longrightarrow>
        (if fd < 0 then opened e' = opened e else fd \<notin> opened e \<and> opened e' = insert fd (opened e))) \<and>
     (\<forall>e fd. opened (sk_close sk e fd) = opened e - {fd}) \<and>
     (\<forall>e fd m r e'. sk_roundTrip sk e fd m = (r, e') \<longrightarrow> opened e' = opened e)"

section \<open>Bookkeeping\<close>

lemma fds_put:
  "om_wf m \<Longrightarrow>
   mset (concat (map (\<lambda>kv. map i_fd (snd kv)) (om_put k l m))) +
     mset (map i_fd (case map_of m k of None \<Rightarrow> [] | Some x \<Rightarrow> x)) =
   mset (concat (map (\<lambda>kv. map i_fd (snd kv)) m)) + mset (map i_fd l)"
proof (induction m)
  case (Cons kv m)
  have "map_of m k = None" if "k < fst kv"
    using that Cons.prems by (auto simp: map_of_eq_None_iff om_keys_def dest: less_asym)
  then show ?case
    using Cons by (cases kv) (auto simp: add.assoc add.commute add.left_commute)
qed simp

lemma conns_put [simp]:
  "conns (pool\<lparr>p_idle := om_put k l (p_idle pool)\<rparr>) k' = (if k' = k then l else conns pool k')"
  by (simp add: conns_def)

lemma pool_fds_put:
  "om_wf (p_idle pool) \<Longrightarrow>
   mset (pool_fds (pool\<lparr>p_idle := om_put k l (p_idle pool)\<rparr>)) + mset (map i_fd (conns pool k)) =
   mset (pool_fds pool) + mset (map i_fd l)"
  using fds_put [of "p_idle pool" k l] by (simp add: pool_fds_def conns_def)

lemma pool_fds_cong [simp]:
  "pool_fds (pool\<lparr>p_reused := n\<rparr>) = pool_fds pool" "pool_fds (pool\<lparr>p_created := n\<rparr>) = pool_fds pool"
  "pool_wf (pool\<lparr>p_reused := n\<rparr>) = pool_wf pool" "pool_wf (pool\<lparr>p_created := n\<rparr>) = pool_wf pool"
  by (simp_all add: pool_fds_def pool_wf_def)

lemma conns_cap: "pool_wf pool \<Longrightarrow> length (conns pool k) \<le> p_max_per_peer pool"
  by (force simp: conns_def pool_wf_def dest: map_of_SomeD split: option.splits)

lemma cap_put:
  assumes "pool_wf pool" "length l \<le> p_max_per_peer pool"
  shows "\<forall>kv \<in> set (om_put k l (p_idle pool)). length (snd kv) \<le> p_max_per_peer pool"
proof -
  have "set (om_put k l m) \<subseteq> insert (k, l) (set m)" for m :: "(string, Idle list) omap"
    by (induction m) auto
  then show ?thesis
    using assms by (fastforce simp: pool_wf_def)
qed

text \<open>Taking the last idle connection of a peer, and returning one.\<close>

lemma pool_pop:
  assumes "pool_wf pool" "conns pool k \<noteq> []"
  defines "pool' \<equiv> pool\<lparr>p_idle := om_put k (butlast (conns pool k)) (p_idle pool)\<rparr>"
    and "fd \<equiv> i_fd (last (conns pool k))"
  shows "pool_wf pool'" "0 \<le> fd" "fd \<in> set (pool_fds pool)"
    "set (pool_fds pool') = set (pool_fds pool) - {fd}"
proof -
  let ?l = "conns pool k"
  have l: "?l = butlast ?l @ [last ?l]"
    using assms(2) by simp
  have om: "om_wf (p_idle pool)"
    using assms(1) by (simp add: pool_wf_def)
  have fds: "mset (pool_fds pool) = add_mset fd (mset (pool_fds pool'))"
  proof -
    have "mset (map i_fd ?l) = add_mset fd (mset (map i_fd (butlast ?l)))"
      by (subst l) (simp add: fd_def)
    then show ?thesis
      using pool_fds_put [OF om, of k "butlast ?l"] by (simp add: pool'_def)
  qed
  have d: "distinct (pool_fds pool)"
    using assms(1) by (simp add: pool_wf_def)
  then have d': "distinct (pool_fds pool') \<and> fd \<notin> set (pool_fds pool')"
    using fds mset_eq_imp_distinct_iff [of "pool_fds pool" "fd # pool_fds pool'"] by simp
  have s: "set (pool_fds pool) = insert fd (set (pool_fds pool'))"
    using mset_eq_setD [of "pool_fds pool" "fd # pool_fds pool'"] fds by simp
  then show "fd \<in> set (pool_fds pool)" "set (pool_fds pool') = set (pool_fds pool) - {fd}"
    using d' by auto
  then show "0 \<le> fd" using assms(1) by (simp add: pool_wf_def)
  show "pool_wf pool'"
    using assms(1) d' s cap_put [OF assms(1), of "butlast ?l" k] conns_cap [OF assms(1), of k]
    by (auto simp: pool_wf_def pool'_def)
qed

lemma pool_push:
  fixes now :: int
  assumes "pool_wf pool" "length (conns pool k) < p_max_per_peer pool"
    and "0 \<le> fd" "fd \<notin> set (pool_fds pool)"
  defines "pool' \<equiv> pool\<lparr>p_idle := om_put k (conns pool k @ [\<lparr>i_fd = fd, i_returned_at = now\<rparr>]) (p_idle pool)\<rparr>"
  shows "pool_wf pool'" "set (pool_fds pool') = insert fd (set (pool_fds pool))"
proof -
  have om: "om_wf (p_idle pool)"
    using assms(1) by (simp add: pool_wf_def)
  have fds: "mset (pool_fds pool') = mset (fd # pool_fds pool)"
    using pool_fds_put [OF om, of k "conns pool k @ [\<lparr>i_fd = fd, i_returned_at = now\<rparr>]"]
    by (simp add: pool'_def)
  show s: "set (pool_fds pool') = insert fd (set (pool_fds pool))"
    using mset_eq_setD [OF fds] by simp
  have "distinct (pool_fds pool')"
    using assms(1,4) mset_eq_imp_distinct_iff [OF fds] by (simp add: pool_wf_def)
  then show "pool_wf pool'"
    using assms(1,3) s cap_put [OF assms(1), of "conns pool k @ [\<lparr>i_fd = fd, i_returned_at = now\<rparr>]" k] assms(2)
    by (auto simp: pool_wf_def pool'_def)
qed

lemma pool_same:
  fixes k :: string
  assumes "pool_wf pool"
  defines "pool' \<equiv> pool\<lparr>p_idle := om_put k (conns pool k) (p_idle pool)\<rparr>"
  shows "pool_wf pool'" "set (pool_fds pool') = set (pool_fds pool)"
proof -
  have om: "om_wf (p_idle pool)"
    using assms(1) by (simp add: pool_wf_def)
  have fds: "mset (pool_fds pool') = mset (pool_fds pool)"
    using pool_fds_put [OF om, of k "conns pool k"] by (simp add: pool'_def)
  show s: "set (pool_fds pool') = set (pool_fds pool)"
    using mset_eq_setD [OF fds] .
  have "om_wf (p_idle pool')" "\<forall>kv \<in> set (p_idle pool'). length (snd kv) \<le> p_max_per_peer pool'"
    using om cap_put [OF assms(1) conns_cap [OF assms(1)], of k k] by (simp_all add: pool'_def)
  then show "pool_wf pool'"
    using assms(1) mset_eq_imp_distinct_iff [OF fds] unfolding pool_wf_def s by blast
qed

section \<open>Descriptor accounting\<close>

lemma sockets_connect:
  assumes "sockets_ok sk opened" "sk_connect sk e h p = (fd, e')"
  shows "if fd < 0 then opened e' = opened e else fd \<notin> opened e \<and> opened e' = insert fd (opened e)"
  using assms(1) [unfolded sockets_ok_def, THEN conjunct1, rule_format, OF assms(2)] .

lemma sockets_close: "sockets_ok sk opened \<Longrightarrow> opened (sk_close sk e fd) = opened e - {fd}"
  unfolding sockets_ok_def by (drule conjunct2, drule conjunct1) simp

lemma sockets_trip:
  assumes "sockets_ok sk opened" "sk_roundTrip sk e fd m = (r, e')"
  shows "opened e' = opened e"
  using assms(1) [unfolded sockets_ok_def, THEN conjunct2, THEN conjunct2, rule_format, OF assms(2)] .

text \<open>
  \<open>acct\<close>: the pool is well formed, its descriptors are open, and the descriptors that are open
  outside the pool are those in \<open>out\<close>.
\<close>

definition acct :: "('e \<Rightarrow> int set) \<Rightarrow> ConnectionPool \<Rightarrow> 'e \<Rightarrow> int set \<Rightarrow> bool" where
  "acct opened pool e out \<longleftrightarrow>
     pool_wf pool \<and> set (pool_fds pool) \<subseteq> opened e \<and> opened e - set (pool_fds pool) = out"

lemma checkout_fresh:
  "conns pool (keyOf h p) = [] \<Longrightarrow> sk_connect sk e h p = (fd, e') \<Longrightarrow>
   ConnectionPool_checkout sk h p pool e =
     (fd, if 0 \<le> fd then pool\<lparr>p_created := p_created pool + 1\<rparr> else pool, e')"
  by (simp add: ConnectionPool_checkout_def)

lemma checkout_reuse:
  "\<lbrakk> conns pool (keyOf h p) \<noteq> []; 0 \<le> i_fd (last (conns pool (keyOf h p))) \<rbrakk> \<Longrightarrow>
   ConnectionPool_checkout sk h p pool e =
     (i_fd (last (conns pool (keyOf h p))),
      (pool\<lparr>p_idle := om_put (keyOf h p) (butlast (conns pool (keyOf h p))) (p_idle pool)\<rparr>)
        \<lparr>p_reused := p_reused pool + 1\<rparr>, e)"
  by (simp add: ConnectionPool_checkout_def Let_def)

lemma checkout_acct:
  assumes "sockets_ok sk opened" "acct opened pool e out"
    and "ConnectionPool_checkout sk h p pool e = (fd, pool', e')"
  shows "if fd < 0 then acct opened pool' e' out else fd \<notin> out \<and> acct opened pool' e' (insert fd out)"
proof (cases "conns pool (keyOf h p) = []")
  case True
  obtain fd1 e1 where c: "sk_connect sk e h p = (fd1, e1)" by fastforce
  have "fd = fd1" "e' = e1" "pool_fds pool' = pool_fds pool" "pool_wf pool' = pool_wf pool"
    using assms(3) unfolding checkout_fresh [OF True c] by (auto split: if_splits)
  then show ?thesis
    using sockets_connect [OF assms(1) c] assms(2) by (auto simp: acct_def)
next
  case False
  let ?fd = "i_fd (last (conns pool (keyOf h p)))"
  let ?pool = "pool\<lparr>p_idle := om_put (keyOf h p) (butlast (conns pool (keyOf h p))) (p_idle pool)\<rparr>"
  have wf: "pool_wf pool" using assms(2) by (simp add: acct_def)
  note pop = pool_pop [OF wf False]
  have eqs: "fd = ?fd" "e' = e" "pool' = ?pool\<lparr>p_reused := p_reused pool + 1\<rparr>"
    using assms(3) unfolding checkout_reuse [OF False pop(2)] by simp_all
  have "acct opened ?pool e (insert ?fd out)" "?fd \<notin> out"
    using pop(1,3) assms(2) unfolding acct_def pop(4) by (blast, blast)
  then show ?thesis
    using pop(2) unfolding eqs by (simp add: acct_def)
qed

lemma set_close:
  "\<lbrakk> S \<subseteq> U; U - S = insert x out; x \<notin> S; x \<notin> out \<rbrakk> \<Longrightarrow> S \<subseteq> U - {x} \<and> U - {x} - S = out"
  by auto

lemma set_keep:
  "\<lbrakk> S \<subseteq> U; U - S = insert x out; x \<notin> out; x \<in> U \<rbrakk> \<Longrightarrow> insert x S \<subseteq> U \<and> U - insert x S = out"
  by auto

lemma checkin_acct:
  assumes "sockets_ok sk opened" "acct opened pool e (insert fd out)" "fd \<notin> out" "0 \<le> fd"
    and "ConnectionPool_checkin sk now h p fd pool e = (pool', e')"
  shows "acct opened pool' e' out"
proof -
  let ?k = "keyOf h p"
  have wf: "pool_wf pool" and new: "fd \<notin> set (pool_fds pool)" and inn: "fd \<in> opened e"
    using assms(2) by (auto simp: acct_def)
  let ?new = "\<lparr>i_fd = fd, i_returned_at = now\<rparr>"
  have ci: "(pool', e') =
      (if p_stopping pool then (pool, sk_close sk e fd)
       else if length (conns pool ?k) \<ge> p_max_per_peer pool
         then (pool\<lparr>p_idle := om_put ?k (conns pool ?k) (p_idle pool)\<rparr>, sk_close sk e fd)
       else (pool\<lparr>p_idle := om_put ?k (conns pool ?k @ [?new]) (p_idle pool)\<rparr>, e))"
    using assms(5) leD [OF assms(4)] unfolding ConnectionPool_checkin_def Let_def
    by (simp only: if_False)
  have closed: "acct opened q (sk_close sk e fd) out"
    if "pool_wf q" "set (pool_fds q) = set (pool_fds pool)" for q
    using that set_close [of "set (pool_fds pool)" "opened e" fd out] assms(2,3) new
    unfolding acct_def sockets_close [OF assms(1)] by simp
  show ?thesis
  proof (cases "p_stopping pool \<or> length (conns pool ?k) \<ge> p_max_per_peer pool")
    case True
    then show ?thesis
      using ci closed [OF wf] closed [OF pool_same [OF wf, of ?k]] by (simp split: if_splits)
  next
    case False
    then have lt: "length (conns pool ?k) < p_max_per_peer pool" by simp
    note push = pool_push [OF wf lt assms(4) new, of now]
    have eqs: "e' = e" "pool' = pool\<lparr>p_idle := om_put ?k (conns pool ?k @ [?new]) (p_idle pool)\<rparr>"
      using ci False by simp_all
    show ?thesis
      using assms(2,3) inn push(1) set_keep [of "set (pool_fds pool)" "opened e" fd out]
      unfolding acct_def eqs push(2) by simp
  qed
qed

lemma attempts_acct:
  assumes "sockets_ok sk opened" "acct opened pool e out"
    and "exchange_attempts n sk now h p request pool e = (reply, pool', e')"
  shows "acct opened pool' e' out"
  using assms(2,3)
proof (induction n arbitrary: pool e)
  case (Suc n)
  obtain fd pool1 e1 where co: "ConnectionPool_checkout sk h p pool e = (fd, pool1, e1)"
    by (rule prod_cases3)
  obtain r e2 where rt: "sk_roundTrip sk e1 fd request = (r, e2)" by fastforce
  note acc = checkout_acct [OF assms(1) Suc.prems(1) co]
  show ?case
  proof (cases "fd < 0")
    case True
    then show ?thesis using Suc.prems(2) co acc by simp
  next
    case False
    then have a2: "acct opened pool1 e2 (insert fd out)" "fd \<notin> out"
      using acc sockets_trip [OF assms(1) rt] by (auto simp: acct_def)
    show ?thesis
    proof (cases r)
      case None
      have "acct opened pool1 (ConnectionPool_discard sk fd e2) out"
        using a2 False sockets_close [OF assms(1), of e2 fd]
        by (auto simp: ConnectionPool_discard_def acct_def)
      then show ?thesis
        using Suc.IH Suc.prems(2) co rt False None by simp
    next
      case (Some rep)
      obtain pool3 e3 where ci: "ConnectionPool_checkin sk now h p fd pool1 e2 = (pool3, e3)" by fastforce
      then show ?thesis
        using checkin_acct [OF assms(1) a2 _ ci] Suc.prems(2) co rt False Some by simp
    qed
  qed
qed simp

section \<open>Reaping\<close>

abbreviation all_conns :: "ConnectionPool \<Rightarrow> Idle list" where
  "all_conns pool \<equiv> concat (map snd (p_idle pool))"

lemma pool_fds_map: "pool_fds pool = map i_fd (all_conns pool)"
  by (simp add: pool_fds_def map_concat comp_def)

lemma fold_close:
  "sockets_ok sk opened \<Longrightarrow> opened (fold (\<lambda>fd e. sk_close sk e fd) fds e) = opened e - set fds"
  by (induction fds arbitrary: e) (auto simp: sockets_close)

lemma reap_conns:
  assumes "ConnectionPool_reapExpired sk now pool e = (pool', e')"
  shows "all_conns pool' = filter (\<lambda>c. \<not> expired now pool c) (all_conns pool)"
    "e' = fold (\<lambda>fd e. sk_close sk e fd) (map i_fd (filter (expired now pool) (all_conns pool))) e"
  using assms
  by (auto simp: ConnectionPool_reapExpired_def filter_concat map_concat comp_def split_def Let_def)

lemma image_filter_diff:
  "inj_on f (set xs) \<Longrightarrow> f ` set (filter (\<lambda>x. \<not> P x) xs) = f ` set xs - f ` set (filter P xs)"
  by (auto simp: inj_on_def)

lemma reap_acct:
  assumes "sockets_ok sk opened" "acct opened pool e out"
    and "ConnectionPool_reapExpired sk now pool e = (pool', e')"
  shows "acct opened pool' e' out"
proof -
  let ?all = "all_conns pool" and ?old = "filter (expired now pool) (all_conns pool)"
  note reap = reap_conns [OF assms(3)]
  have wf: "pool_wf pool" and sub: "set (pool_fds pool) \<subseteq> opened e"
    and out: "opened e - set (pool_fds pool) = out"
    using assms(2) unfolding acct_def by blast+
  have inj: "inj_on i_fd (set ?all)"
    using wf unfolding pool_wf_def pool_fds_map by (simp add: distinct_map)
  have fds: "set (pool_fds pool') = set (pool_fds pool) - set (map i_fd ?old)"
    unfolding pool_fds_map reap(1) set_map by (rule image_filter_diff [OF inj])
  have e': "opened e' = opened e - set (map i_fd ?old)"
    unfolding reap(2) by (rule fold_close [OF assms(1)])
  have old: "set (map i_fd ?old) \<subseteq> set (pool_fds pool)"
    unfolding pool_fds_map by auto
  have "distinct (pool_fds pool')"
    using wf unfolding pool_wf_def pool_fds_map reap(1) by (simp add: distinct_map_filter)
  moreover have cap: "length (filter P l) \<le> p_max_per_peer pool" if "(k, l) \<in> set (p_idle pool)" for k l P
  proof -
    have "length l \<le> p_max_per_peer pool"
      using wf that unfolding pool_wf_def by force
    then show ?thesis by (rule le_trans [OF length_filter_le])
  qed
  have "om_wf (p_idle pool')"
      "\<forall>kv \<in> set (p_idle pool'). length (snd kv) \<le> p_max_per_peer pool'"
    using assms(3) wf cap by (auto simp: ConnectionPool_reapExpired_def Let_def pool_wf_def)
  ultimately have "pool_wf pool'"
    using wf fds unfolding pool_wf_def by blast
  then show ?thesis
    using sub out old unfolding acct_def fds e' by blast
qed

section \<open>Properties\<close>

text \<open>A socket layer with the documented behaviour: odd descriptors answer, even ones fail.\<close>

definition ex_sock :: "int list sock" where
  "ex_sock =
     \<lparr>sk_connect = \<lambda>e h p. (let fd = foldr max e (- 1) + 1 in (fd, fd # e)),
      sk_close = \<lambda>e fd. removeAll fd e,
      sk_roundTrip = \<lambda>e fd m. (if odd fd then Some ''RESPONSE|OK'' else None, e)\<rparr>"

lemma ex_sock_ok: "sockets_ok ex_sock set"
proof -
  have "\<forall>x \<in> set e. x \<le> foldr max e (- 1)" "- 1 \<le> foldr max e (- 1)" for e :: "int list"
    by (induction e) auto
  then have "foldr max e (- 1) + 1 \<notin> set e" "\<not> foldr max e (- 1) + 1 < 0" for e :: "int list"
    by (metis add1_zle_eq order_less_irrefl, metis add_le_cancel_right add.left_inverse leD)
  then show ?thesis
    by (auto simp: sockets_ok_def ex_sock_def Let_def)
qed

definition ex_pool :: ConnectionPool where
  "ex_pool = (ConnectionPool_new 4 60)\<lparr>p_idle := [(''h:9'', [\<lparr>i_fd = 4, i_returned_at = 0\<rparr>])]\<rparr>"



text \<open>The reaper closes exactly the idle connections that have been idle for longer than the
  time to live, keeps the others in order, and keeps the descriptor accounting.\<close>

theorem reap_exact:
  assumes "sockets_ok sk opened" "pool_wf pool" "set (pool_fds pool) \<subseteq> opened e"
    and "ConnectionPool_reapExpired sk now pool e = (pool', e')"
  shows "pool_wf pool' \<and>
    all_conns pool' = filter (\<lambda>c. now - i_returned_at c \<le> p_idle_ttl pool) (all_conns pool) \<and>
    opened e' = opened e - i_fd ` {c \<in> set (all_conns pool). p_idle_ttl pool < now - i_returned_at c}"
proof -
  have "acct opened pool e (opened e - set (pool_fds pool))"
    using assms(2,3) by (simp add: acct_def)
  from reap_acct [OF assms(1) this assms(4)] have "pool_wf pool'"
    by (simp add: acct_def)
  moreover have "(\<lambda>c. \<not> expired now pool c) = (\<lambda>c. now - i_returned_at c \<le> p_idle_ttl pool)"
    by (auto simp: expired_def)
  moreover have "set (filter (expired now pool) (all_conns pool)) =
      {c \<in> set (all_conns pool). p_idle_ttl pool < now - i_returned_at c}"
    by (auto simp: expired_def)
  ultimately show ?thesis
    using reap_conns [OF assms(4)] fold_close [OF assms(1)] by simp
qed

theorem reap_exact_witness:
  "\<exists>pool' e'. ConnectionPool_reapExpired ex_sock 60000000001 ex_pool [4, 0] = (pool', e') \<and>
     pool_wf pool' \<and> all_conns pool' = [] \<and> set e' = {0}"
proof -
  obtain pool' e' where eq: "ConnectionPool_reapExpired ex_sock 60000000001 ex_pool [4, 0] = (pool', e')"
    by fastforce
  have "pool_wf ex_pool" "pool_fds ex_pool = [4]"
    "all_conns ex_pool = [\<lparr>i_fd = 4, i_returned_at = 0\<rparr>]" "p_idle_ttl ex_pool = 60000000000"
    by (simp_all add: pool_wf_def pool_fds_def ex_pool_def ConnectionPool_new_def)
  with reap_exact [OF ex_sock_ok _ _ eq] eq show ?thesis
    by auto
qed

end
