(* ===== verification/Background.thy ===== *)
theory Background
  imports Gossip Hints Anti_Entropy Connection_Pool
begin

text \<open>
  The background threads: gossip (gossip\_thread.cpp), hint handoff (handoff\_thread.cpp),
  anti-entropy (antientropy\_thread.cpp) and the reaper of the connection pool
  (connection\_pool.cpp).  Each is an object with a flag and a \<open>std::thread\<close>; its owner calls
  \<open>start\<close> and \<open>stop\<close>, the thread runs its loop, and the two interleave at the reads and writes of
  the flag.  A \<open>stop\<close> is two steps of the owner: it clears the flag, then it joins.

  Shown: \<open>start\<close> never assigns to a joinable thread, after \<open>stop\<close> no round runs any more, and a
  pending \<open>stop\<close> returns after at most three steps of the loop whatever the interval.
\<close>

section \<open>The loops\<close>

datatype loop_pc = L_none | L_head | L_pause nat | L_test | L_body | L_done

datatype loop_kind = Periodic | Sliced int | Reaper

record ('i, 's) looper =
  lp_kind :: loop_kind
  lp_body :: "'i \<Rightarrow> 's \<Rightarrow> 's option"
  lp_clear :: "'s \<Rightarrow> 's"

definition GossipThread_run :: "'e net \<Rightarrow> (unit, GossipThread \<times> 'e) looper" where
  "GossipThread_run net =
     \<lparr>lp_kind = Periodic, lp_body = (\<lambda>_ (g, e). Some (GossipThread_tick net g e)), lp_clear = id\<rparr>"

definition HandoffThread_run :: "'e deliver_fn \<Rightarrow> (int, HandoffThread \<times> 'e) looper" where
  "HandoffThread_run deliver =
     \<lparr>lp_kind = Periodic, lp_body = (\<lambda>now (ht, e). Some (HandoffThread_run_once now deliver ht e)),
      lp_clear = id\<rparr>"

definition AntiEntropyThread_run ::
    "'s StorageEngine \<Rightarrow> 'e ae_fns \<Rightarrow> int \<Rightarrow> (nat \<Rightarrow> nat, 's AntiEntropyThread \<times> 'e) looper" where
  "AntiEntropyThread_run E fns interval =
     \<lparr>lp_kind = Sliced interval, lp_body = (\<lambda>pick (a, e). AntiEntropyThread_tick E fns pick a e),
      lp_clear = id\<rparr>"

definition ConnectionPool_reaperLoop :: "'e sock \<Rightarrow> (int, ConnectionPool \<times> 'e) looper" where
  "ConnectionPool_reaperLoop sk =
     \<lparr>lp_kind = Reaper, lp_body = (\<lambda>now (pool, e). Some (ConnectionPool_reapExpired sk now pool e)),
      lp_clear = (\<lambda>(pool, e). ConnectionPool_shutdown sk pool e)\<rparr>"

text \<open>
  Where a loop goes next, given the flag.  The periodic loops run a round and sleep; the sliced
  loop first sleeps its interval in one-second slices, reading the flag before each, and reads it
  once more before the round; the reaper waits once and reads the flag when it wakes.
\<close>

fun loop_next :: "loop_kind \<Rightarrow> bool \<Rightarrow> loop_pc \<Rightarrow> loop_pc" where
  "loop_next Periodic running L_head = (if running then L_body else L_done)"
| "loop_next Periodic running L_body = L_pause 1"
| "loop_next Periodic running (L_pause n) = L_head"
| "loop_next (Sliced interval) running L_head = (if running then L_pause (nat interval) else L_done)"
| "loop_next (Sliced interval) running (L_pause 0) = L_test"
| "loop_next (Sliced interval) running (L_pause (Suc n)) = (if running then L_pause n else L_test)"
| "loop_next (Sliced interval) running L_test = (if running then L_body else L_done)"
| "loop_next (Sliced interval) running L_body = L_head"
| "loop_next Reaper running L_head = (if running then L_pause 1 else L_done)"
| "loop_next Reaper running (L_pause n) = L_test"
| "loop_next Reaper running L_test = (if running then L_body else L_done)"
| "loop_next Reaper running L_body = L_head"
| "loop_next k running pc = pc"

section \<open>The object and its owner\<close>

datatype owner = Owner_free | Owner_joining

record 's background =
  bg_running :: bool
  bg_pc :: loop_pc
  bg_owner :: owner
  bg_rounds :: nat
  bg_state :: 's

definition background_new :: "'s \<Rightarrow> 's background" where
  "background_new s = \<lparr>bg_running = False, bg_pc = L_none, bg_owner = Owner_free, bg_rounds = 0, bg_state = s\<rparr>"

text \<open>\<open>Blocked\<close>: the step cannot be taken now.  \<open>Terminated\<close>: \<open>std::terminate\<close> is called.\<close>

datatype 's outcome = Next "'s background" | Blocked | Terminated

definition joinable :: "'s background \<Rightarrow> bool" where
  "joinable b \<longleftrightarrow> bg_pc b \<noteq> L_none"

definition background_start :: "'s background \<Rightarrow> 's outcome" where
  "background_start b =
     (if bg_running b then Next b
      else if joinable b then Terminated
      else Next (b\<lparr>bg_running := True, bg_pc := L_head\<rparr>))"

definition stop_clear :: "('i, 's) looper \<Rightarrow> 's background \<Rightarrow> 's outcome" where
  "stop_clear L b =
     Next (b\<lparr>bg_running := False, bg_owner := Owner_joining, bg_state := lp_clear L (bg_state b)\<rparr>)"

definition stop_join :: "'s background \<Rightarrow> 's outcome" where
  "stop_join b =
     (if joinable b \<and> bg_pc b \<noteq> L_done then Blocked
      else Next (b\<lparr>bg_pc := L_none, bg_owner := Owner_free\<rparr>))"

definition loop_step :: "('i, 's) looper \<Rightarrow> 'i \<Rightarrow> 's background \<Rightarrow> 's outcome" where
  "loop_step L i b =
     (if bg_pc b \<in> {L_none, L_done} then Blocked
      else let b' = b\<lparr>bg_pc := loop_next (lp_kind L) (bg_running b) (bg_pc b)\<rparr>
           in if bg_pc b = L_body
              then (case lp_body L i (bg_state b) of
                      None \<Rightarrow> Terminated
                    | Some s \<Rightarrow> Next (b'\<lparr>bg_state := s, bg_rounds := bg_rounds b + 1\<rparr>))
              else Next b')"

datatype 'i bg_event = Ev_start | Ev_clear | Ev_join | Ev_loop 'i

fun bg_do :: "('i, 's) looper \<Rightarrow> 'i bg_event \<Rightarrow> 's background \<Rightarrow> 's outcome" where
  "bg_do L Ev_start b = (if bg_owner b = Owner_free then background_start b else Blocked)"
| "bg_do L Ev_clear b = (if bg_owner b = Owner_free then stop_clear L b else Blocked)"
| "bg_do L Ev_join b = (if bg_owner b = Owner_joining then stop_join b else Blocked)"
| "bg_do L (Ev_loop i) b = loop_step L i b"

fun bg_runs :: "('i, 's) looper \<Rightarrow> 'i bg_event list \<Rightarrow> 's background \<Rightarrow> 's outcome" where
  "bg_runs L [] b = Next b"
| "bg_runs L (ev # evs) b = (case bg_do L ev b of Next b' \<Rightarrow> bg_runs L evs b' | r \<Rightarrow> r)"

section \<open>Invariant\<close>

text \<open>While nobody is joining, the thread exists exactly when the flag is set.\<close>

definition bg_wf :: "loop_kind \<Rightarrow> 's background \<Rightarrow> bool" where
  "bg_wf k b \<longleftrightarrow>
     (bg_owner b = Owner_free \<longrightarrow> (bg_running b \<longleftrightarrow> joinable b)) \<and>
     (bg_owner b = Owner_joining \<longrightarrow> \<not> bg_running b) \<and>
     (bg_running b \<longrightarrow> bg_pc b \<noteq> L_done) \<and> (k = Periodic \<longrightarrow> bg_pc b \<noteq> L_test)"

lemma bg_wf_new: "bg_wf k (background_new s)"
  by (simp add: bg_wf_def background_new_def joinable_def)

lemma loop_next_alive:
  "pc \<noteq> L_none \<Longrightarrow> loop_next k running pc \<noteq> L_none"
  "pc \<noteq> L_done \<Longrightarrow> running \<Longrightarrow> loop_next k running pc \<noteq> L_done"
  "pc \<noteq> L_test \<Longrightarrow> loop_next Periodic running pc \<noteq> L_test"
  by (cases "(k, running, pc)" rule: loop_next.cases; simp)+

lemma loop_step_wf: "bg_wf (lp_kind L) b \<Longrightarrow> loop_step L i b = Next b' \<Longrightarrow> bg_wf (lp_kind L) b'"
  using loop_next_alive [of "bg_pc b"]
  by (auto simp: loop_step_def bg_wf_def joinable_def Let_def split: if_splits option.splits)

lemma bg_do_wf:
  assumes "bg_wf (lp_kind L) b" "bg_do L ev b = Next b'"
  shows "bg_wf (lp_kind L) b'"
proof (cases ev)
  case (Ev_loop i)
  with assms show ?thesis by (simp add: loop_step_wf)
next
  case Ev_start
  with assms show ?thesis by (auto simp: background_start_def bg_wf_def joinable_def split: if_splits)
next
  case Ev_clear
  with assms show ?thesis by (auto simp: stop_clear_def bg_wf_def split: if_splits)
next
  case Ev_join
  with assms show ?thesis by (auto simp: stop_join_def bg_wf_def joinable_def split: if_splits)
qed

lemma bg_runs_wf: "bg_wf (lp_kind L) b \<Longrightarrow> bg_runs L evs b = Next b' \<Longrightarrow> bg_wf (lp_kind L) b'"
  by (induction evs arbitrary: b) (auto split: outcome.splits intro: bg_do_wf)

definition body_total :: "('i, 's) looper \<Rightarrow> bool" where
  "body_total L \<longleftrightarrow> (\<forall>i s. lp_body L i s \<noteq> None)"

lemma bg_do_not_terminated:
  assumes "bg_wf (lp_kind L) b" "body_total L"
  shows "bg_do L ev b \<noteq> Terminated"
proof (cases ev)
  case (Ev_loop i)
  obtain s where "lp_body L i (bg_state b) = Some s" using assms(2) by (auto simp: body_total_def)
  with Ev_loop show ?thesis by (simp add: loop_step_def Let_def)
next
  case Ev_start
  with assms(1) show ?thesis by (auto simp: background_start_def bg_wf_def)
qed (auto simp: stop_clear_def stop_join_def)

lemma body_total_loops:
  "body_total (GossipThread_run net)" "body_total (HandoffThread_run deliver)"
  "body_total (ConnectionPool_reaperLoop sk)"
  by (auto simp: body_total_def GossipThread_run_def HandoffThread_run_def ConnectionPool_reaperLoop_def)

section \<open>Starting and stopping\<close>

text \<open>No sequence of steps makes \<open>start\<close> assign to a joinable thread.\<close>

lemma start_never_terminates:
  "body_total L \<Longrightarrow> bg_wf (lp_kind L) b \<Longrightarrow> bg_runs L evs b \<noteq> Terminated"
proof (induction evs arbitrary: b)
  case (Cons ev evs)
  then show ?case using bg_do_not_terminated [of L b ev] bg_do_wf [of L b ev]
    by (auto split: outcome.splits)
qed simp

text \<open>Once \<open>stop\<close> has returned no round runs until the next \<open>start\<close>.\<close>

lemma stopped_loop_is_dead:
  assumes "bg_runs L evs (background_new s) = Next b" "bg_owner b = Owner_free" "\<not> bg_running b"
  shows "loop_step L i b = Blocked"
  using bg_runs_wf [OF bg_wf_new assms(1)] assms(2,3)
  by (simp add: bg_wf_def joinable_def loop_step_def)

fun loop_left :: "loop_kind \<Rightarrow> loop_pc \<Rightarrow> nat" where
  "loop_left k L_none = 0"
| "loop_left k L_done = 0"
| "loop_left k L_head = 1"
| "loop_left k L_test = 1"
| "loop_left k (L_pause n) = 2"
| "loop_left Periodic L_body = 3"
| "loop_left k L_body = 2"

lemma loop_left_bound: "loop_left k pc \<le> 3"
  by (cases "(k, pc)" rule: loop_left.cases) simp_all

lemma loop_left_next:
  "pc \<noteq> L_none \<Longrightarrow> pc \<noteq> L_done \<Longrightarrow> \<not> (k = Periodic \<and> pc = L_test) \<Longrightarrow>
   Suc (loop_left k (loop_next k False pc)) = loop_left k pc"
  by (cases "(k, False, pc)" rule: loop_next.cases) simp_all

lemma loop_left_0: "loop_left k pc = 0 \<longleftrightarrow> pc \<in> {L_none, L_done}"
  by (cases "(k, pc)" rule: loop_left.cases) simp_all

text \<open>The number of rounds still to come once the flag is clear.\<close>

definition rounds_left :: "loop_pc \<Rightarrow> nat" where
  "rounds_left pc = (if pc = L_body then 1 else 0)"

lemma rounds_left_next: "rounds_left (loop_next k False pc) = (if pc = L_body then 0 else rounds_left pc)"
  by (cases "(k, False, pc)" rule: loop_next.cases) (simp_all add: rounds_left_def)

lemma pending_stop_drains:
  assumes "bg_wf (lp_kind L) b" "bg_owner b = Owner_joining" "body_total L"
    and "length is = loop_left (lp_kind L) (bg_pc b)"
  shows "\<exists>b'. bg_runs L (map Ev_loop is @ [Ev_join]) b = Next b' \<and> \<not> joinable b' \<and> \<not> bg_running b' \<and>
    bg_owner b' = Owner_free \<and> bg_rounds b' = bg_rounds b + rounds_left (bg_pc b)"
  using assms
proof (induction "is" arbitrary: b)
  case Nil
  then have "bg_pc b \<in> {L_none, L_done}" using loop_left_0 [of "lp_kind L" "bg_pc b"] by simp
  with Nil show ?case by (auto simp: stop_join_def joinable_def bg_wf_def rounds_left_def)
next
  case (Cons i "is")
  from Cons.prems have nr: "\<not> bg_running b" and pc: "bg_pc b \<notin> {L_none, L_done}"
    and t: "\<not> (lp_kind L = Periodic \<and> bg_pc b = L_test)"
    using loop_left_0 [of "lp_kind L" "bg_pc b"] by (auto simp: bg_wf_def)
  obtain s where s: "lp_body L i (bg_state b) = Some s"
    using Cons.prems(3) by (auto simp: body_total_def)
  obtain b1 where b1: "loop_step L i b = Next b1" "bg_owner b1 = Owner_joining"
    "bg_pc b1 = loop_next (lp_kind L) False (bg_pc b)"
    "bg_rounds b1 = bg_rounds b + rounds_left (bg_pc b)"
    using pc nr s Cons.prems(2) by (cases "bg_pc b = L_body") (simp_all add: loop_step_def rounds_left_def Let_def)
  have "length is = loop_left (lp_kind L) (bg_pc b1)"
    using loop_left_next [of "bg_pc b" "lp_kind L"] pc t Cons.prems(4) b1(3) by simp
  from Cons.IH [OF loop_step_wf [OF Cons.prems(1) b1(1)] b1(2) Cons.prems(3) this]
  show ?case using b1 rounds_left_next [of "lp_kind L" "bg_pc b"]
    by (auto simp: rounds_left_def split: if_splits)
qed

text \<open>C19: a pending \<open>stop\<close> of a background thread returns.  Whatever starts, stops and loop steps came
  before, at most three further steps of the loop - whatever the polling interval - let the join
  return, with at most one more round run, the flag clear and no thread left.\<close>

theorem stop_returns:
  assumes "body_total L" "bg_runs L evs (background_new s) = Next b" "bg_owner b = Owner_joining"
  shows "\<exists>n \<le> 3. \<forall>is. length is = n \<longrightarrow>
    (\<exists>b'. bg_runs L (map Ev_loop is @ [Ev_join]) b = Next b' \<and> \<not> joinable b' \<and> \<not> bg_running b' \<and>
       bg_owner b' = Owner_free \<and> bg_rounds b' \<le> bg_rounds b + 1)"
proof (intro exI [of _ "loop_left (lp_kind L) (bg_pc b)"] conjI allI impI loop_left_bound)
  fix is' :: "'a list" assume n: "length is' = loop_left (lp_kind L) (bg_pc b)"
  have "rounds_left (bg_pc b) \<le> 1" by (simp add: rounds_left_def)
  with pending_stop_drains [OF bg_runs_wf [OF bg_wf_new assms(2)] assms(3,1) n]
  show "\<exists>b'. bg_runs L (map Ev_loop is' @ [Ev_join]) b = Next b' \<and> \<not> joinable b' \<and> \<not> bg_running b' \<and>
       bg_owner b' = Owner_free \<and> bg_rounds b' \<le> bg_rounds b + 1" by fastforce
qed

definition ex_reaper :: "(int, ConnectionPool \<times> unit) looper" where
  "ex_reaper = ConnectionPool_reaperLoop
     \<lparr>sk_connect = (\<lambda>e h p. (- 1, e)), sk_close = (\<lambda>e fd. e), sk_roundTrip = (\<lambda>e fd m. (None, e))\<rparr>"

theorem stop_returns_witness:
  "\<exists>b. bg_runs ex_reaper [Ev_start, Ev_loop 0, Ev_loop 0, Ev_loop 0, Ev_clear] (background_new (ConnectionPool_new 2 30, ())) = Next b \<and>
     bg_pc b = L_body \<and>
     (\<exists>n \<le> 3. \<forall>is. length is = n \<longrightarrow>
       (\<exists>b'. bg_runs ex_reaper (map Ev_loop is @ [Ev_join]) b = Next b' \<and> \<not> joinable b'))"
proof -
  obtain b where b: "bg_runs ex_reaper [Ev_start, Ev_loop 0, Ev_loop 0, Ev_loop 0, Ev_clear]
      (background_new (ConnectionPool_new 2 30, ())) = Next b" "bg_pc b = L_body" "bg_owner b = Owner_joining"
    by (simp add: ex_reaper_def ConnectionPool_reaperLoop_def background_new_def background_start_def
        joinable_def loop_step_def stop_clear_def)
  moreover have "body_total ex_reaper" unfolding ex_reaper_def by (rule body_total_loops)
  ultimately show ?thesis using stop_returns [of ex_reaper, OF _ b(1,3)] by blast
qed

end
