(* ===== verification/Node.thy ===== *)
theory Node
  imports Cluster Gossip
begin

text \<open>
  node.h and node.cpp: the protocol edge.  A request is a \<open>|\<close>-separated payload; each handler
  is a function from the fields to the reply (the empty list where the code writes none), the
  node and the environment.  The router is shared by pointer between the node, its coordinator
  and the gossip thread; the model keeps it in the coordinator and hands it to the gossip
  thread and back around each gossip call.

  What the handlers reach outside the node - the replica client, the one-shot connection that
  forwards a request, the gossip network, the clocks and the scheduling of the fan-out - is the
  record \<open>world\<close>.  Log lines are not modelled.
\<close>

record 'e world =
  wd_client :: "'e ReplicaClient"
  wd_send :: "'e \<Rightarrow> string \<Rightarrow> u16 \<Rightarrow> string \<Rightarrow> string \<times> 'e"
  wd_net :: "'e net"
  wd_fan :: fanout
  wd_now :: int
  wd_now_ms :: u64

record 's Node =
  n_info :: NodeInfo
  n_cfg :: QuorumConfig
  n_coordinator :: "'s Coordinator"
  n_gossip :: "GossipThread option"

section \<open>Construction and helpers\<close>

definition Coordinator_new ::
    "NodeInfo \<Rightarrow> Router \<Rightarrow> 's StorageEngine \<Rightarrow> 's \<Rightarrow> InMemoryMetrics \<Rightarrow> QuorumConfig \<Rightarrow> 's Coordinator" where
  "Coordinator_new me router E st metrics cfg =
     \<lparr>c_self = me, c_router = router, c_engine = E, c_storage = st, c_metrics = metrics,
      c_defaults = cfg, c_hint_store = None, c_is_alive = None\<rparr>"

definition Node_new :: "NodeInfo \<Rightarrow> Router \<Rightarrow> 's StorageEngine \<Rightarrow> 's \<Rightarrow> QuorumConfig \<Rightarrow> 's Node" where
  "Node_new me router E st cfg =
     \<lparr>n_info = me, n_cfg = cfg,
      n_coordinator = Coordinator_new me router E st InMemoryMetrics_new cfg, n_gossip = None\<rparr>"

definition toInt :: "string list \<Rightarrow> nat \<Rightarrow> int \<Rightarrow> int" where
  "toInt f i def =
     (if i \<ge> length f \<or> f ! i = [] then def
      else case stoi (f ! i) of None \<Rightarrow> def | Some n \<Rightarrow> n)"

definition effN :: "'s Node \<Rightarrow> int \<Rightarrow> int" where
  "effN n requested = (if requested > 0 then requested else qc_N (n_cfg n))"

definition effW :: "'s Node \<Rightarrow> int \<Rightarrow> int" where
  "effW n requested = (if requested > 0 then requested else qc_W (n_cfg n))"

definition effR :: "'s Node \<Rightarrow> int \<Rightarrow> int" where
  "effR n requested = (if requested > 0 then requested else qc_R (n_cfg n))"

definition Node_setGossipThread :: "GossipThread \<Rightarrow> 's Node \<Rightarrow> 's Node" where
  "Node_setGossipThread g n = n\<lparr>n_gossip := Some g\<rparr>"

definition Node_setHintStore :: "HintStore \<Rightarrow> 's Node \<Rightarrow> 's Node" where
  "Node_setHintStore hs n = n\<lparr>n_coordinator := (n_coordinator n)\<lparr>c_hint_store := Some hs\<rparr>\<rparr>"

definition Node_setLivenessCheck :: "(string \<Rightarrow> bool) \<Rightarrow> 's Node \<Rightarrow> 's Node" where
  "Node_setLivenessCheck fn n = n\<lparr>n_coordinator := (n_coordinator n)\<lparr>c_is_alive := Some fn\<rparr>\<rparr>"

text \<open>The gossip thread with the shared router, and the node after a gossip call.\<close>

definition share_router :: "'s Node \<Rightarrow> GossipThread \<Rightarrow> GossipThread" where
  "share_router n g = g\<lparr>g_router := c_router (n_coordinator n)\<rparr>"

definition take_gossip :: "GossipThread \<Rightarrow> 's Node \<Rightarrow> 's Node" where
  "take_gossip g n =
     n\<lparr>n_gossip := Some g, n_coordinator := (n_coordinator n)\<lparr>c_router := g_router g\<rparr>\<rparr>"

definition ok_reply :: "PutResult \<Rightarrow> string" where
  "ok_reply pr =
     (if pr_ok pr then ''RESPONSE|OK|'' @ VectorClock_serialize (pr_clock pr)
      else ''RESPONSE|ERROR|'' @ pr_error pr)"

section \<open>Handlers\<close>

type_synonym ('s, 'e) handled = "(string list \<times> 's Node \<times> 'e) option"

text \<open>A request for another primary is sent on verbatim and its reply relayed.\<close>

definition forward :: "'e world \<Rightarrow> NodeInfo \<Rightarrow> string \<Rightarrow> 's Node \<Rightarrow> 'e \<Rightarrow> ('s, 'e) handled" where
  "forward wd primary rawPayload n e =
     (case wd_send wd e (host primary) (port primary) rawPayload of (resp, e) \<Rightarrow>
        Some ([if resp \<noteq> [] then resp else ''RESPONSE|ERROR|forward_failed''], n, e))"

definition Node_handlePut :: "'e world \<Rightarrow> string list \<Rightarrow> string \<Rightarrow> 's Node \<Rightarrow> 'e \<Rightarrow> ('s, 'e) handled" where
  "Node_handlePut wd f rawPayload n e =
     (let key = field f 1; c = n_coordinator n
      in case Router_findOwners (c_router c) key 1 of
           None \<Rightarrow> None
         | Some [] \<Rightarrow> Some ([''RESPONSE|ERROR|no_nodes_in_ring''], n, e)
         | Some (primary # _) \<Rightarrow>
             if node_id primary \<noteq> node_id (n_info n) then forward wd primary rawPayload n e
             else case Coordinator_coordinatePut (wd_client wd) (wd_fan wd) (wd_now wd) (wd_now_ms wd) key
                    (decode (field f 2)) (VectorClock_parse (field f 7))
                    (effN n (toInt f 4 0)) (effW n (toInt f 5 0)) c e of
                    None \<Rightarrow> None
                  | Some (pr, c, e) \<Rightarrow> Some ([ok_reply pr], n\<lparr>n_coordinator := c\<rparr>, e))"

definition value_text :: "VersionedValue \<Rightarrow> string" where
  "value_text v = ''|'' @ encode (data v) @ ''|'' @ VectorClock_serialize (clock v)"

definition get_reply :: "GetResult \<Rightarrow> string" where
  "get_reply gr =
     (case gr_status gr of
        OK \<Rightarrow> ''RESPONSE|OK'' @ value_text (hd (gr_values gr))
      | SIBLINGS \<Rightarrow> ''RESPONSE|SIBLINGS|'' @ dec_nat (length (gr_values gr)) @
                    concat (map value_text (gr_values gr))
      | NOTFOUND \<Rightarrow> ''RESPONSE|NOTFOUND''
      | ERROR \<Rightarrow> ''RESPONSE|ERROR|'' @ gr_error gr)"

definition Node_handleGet :: "'e world \<Rightarrow> string list \<Rightarrow> 's Node \<Rightarrow> 'e \<Rightarrow> ('s, 'e) handled" where
  "Node_handleGet wd f n e =
     (case Coordinator_coordinateGet (wd_client wd) (wd_fan wd) (field f 1)
             (effN n (toInt f 3 0)) (effR n (toInt f 4 0)) (n_coordinator n) e of
        None \<Rightarrow> None
      | Some (gr, c, e) \<Rightarrow> Some ([get_reply gr], n\<lparr>n_coordinator := c\<rparr>, e))"

definition Node_handleDelete :: "'e world \<Rightarrow> string list \<Rightarrow> string \<Rightarrow> 's Node \<Rightarrow> 'e \<Rightarrow> ('s, 'e) handled" where
  "Node_handleDelete wd f rawPayload n e =
     (let key = field f 1; c = n_coordinator n
      in case Router_findOwners (c_router c) key 1 of
           None \<Rightarrow> None
         | Some [] \<Rightarrow> Some ([''RESPONSE|ERROR|no_nodes_in_ring''], n, e)
         | Some (primary # _) \<Rightarrow>
             if node_id primary \<noteq> node_id (n_info n) then forward wd primary rawPayload n e
             else case Coordinator_coordinateDelete (wd_client wd) (wd_fan wd) (wd_now wd) (wd_now_ms wd) key
                    (VectorClock_parse (field f 5)) (effN n (toInt f 3 0)) (effW n (toInt f 4 0)) c e of
                    None \<Rightarrow> None
                  | Some (pr, c, e) \<Rightarrow> Some ([ok_reply pr], n\<lparr>n_coordinator := c\<rparr>, e))"

definition Node_handleReplicate :: "string list \<Rightarrow> 's Node \<Rightarrow> string \<times> 's Node" where
  "Node_handleReplicate f n =
     (let c = n_coordinator n
      in case handleReplicate (c_engine c) (c_storage c) f of
           (reply, st) \<Rightarrow> (reply, n\<lparr>n_coordinator := c\<lparr>c_storage := st\<rparr>\<rparr>))"

definition Node_handleReadReplica :: "string list \<Rightarrow> 's Node \<Rightarrow> string" where
  "Node_handleReadReplica f n = handleReadReplica (c_engine (n_coordinator n)) (c_storage (n_coordinator n)) f"

definition ring_line :: "NodeInfo \<Rightarrow> string" where
  "ring_line i = node_id i @ ''|'' @ host i @ ''|'' @ dec_word (port i) @ [CHR 0x0A]"

definition Node_handleRingQuery :: "'s Node \<Rightarrow> string" where
  "Node_handleRingQuery n =
     (let ns = Router_getAllPhysicalNodes (c_router (n_coordinator n))
      in ''RING'' @ [CHR 0x0A] @ dec_nat (length ns) @ [CHR 0x0A] @ concat (map ring_line ns))"

definition Node_handleLeave :: "string list \<Rightarrow> 's Node \<Rightarrow> string \<times> 's Node" where
  "Node_handleLeave f n =
     (let i = field f 1
      in if i = [] then (''RESPONSE|ERROR|missing_node_id'', n)
         else case n_gossip n of
                None \<Rightarrow> (''RESPONSE|ERROR|gossip_disabled'', n)
              | Some g \<Rightarrow>
                  (case GossipThread_requestLeave (share_router n g) i of (ok, g) \<Rightarrow>
                     (if ok then ''RESPONSE|OK|left'' else ''RESPONSE|ERROR|unknown_node'', take_gossip g n)))"

definition Node_handleGossip :: "'e world \<Rightarrow> string \<Rightarrow> 's Node \<Rightarrow> 'e \<Rightarrow> string list \<times> 's Node \<times> 'e" where
  "Node_handleGossip wd payload n e =
     (case n_gossip n of
        None \<Rightarrow> ([], n, e)
      | Some g \<Rightarrow>
          (case GossipThread_handleMessage (wd_net wd) payload (share_router n g) e of (resp, g, e) \<Rightarrow>
             (if resp \<noteq> [] then [resp] else [], take_gossip g n, e)))"

text \<open>The in-memory metrics ignore the latency that the dispatcher observes.\<close>

definition count_request :: "Op \<Rightarrow> 's Node \<Rightarrow> 's Node" where
  "count_request op n =
     n\<lparr>n_coordinator := (n_coordinator n)\<lparr>c_metrics :=
        InMemoryMetrics_incRequest op (c_metrics (n_coordinator n))\<rparr>\<rparr>"

definition Node_handleRequest :: "'e world \<Rightarrow> string \<Rightarrow> 's Node \<Rightarrow> 'e \<Rightarrow> ('s, 'e) handled" where
  "Node_handleRequest wd payload n e =
     (let f = splitAll payload (CHR ''|''); type = field f 0
      in if type = [] then Some ([], n, e)
         else if type = ''PUT'' then Node_handlePut wd f payload (count_request Op.Put n) e
         else if type = ''GET'' then Node_handleGet wd f (count_request Op.Get n) e
         else if type = ''DELETE'' then Node_handleDelete wd f payload (count_request Op.Delete n) e
         else if type = ''REPLICATE'' then
           case Node_handleReplicate f n of (reply, n) \<Rightarrow> Some ([reply], n, e)
         else if type = ''READ'' then Some ([Node_handleReadReplica f n], n, e)
         else if type = ''RING'' then Some ([Node_handleRingQuery n], n, e)
         else if type = ''LEAVE'' then
           case Node_handleLeave f n of (reply, n) \<Rightarrow> Some ([reply], n, e)
         else if type \<in> {''SWIM_PING'', ''SWIM_PING_REQ'', ''SWIM_ACK'', ''SWIM_JOIN'', ''SWIM_SYNC'', ''SWIM_SYNC_ACK''}
         then Some (Node_handleGossip wd payload n e)
         else Some ([''RESPONSE|ERROR|unknown_command''], n, e))"

section \<open>What a request leaves alone\<close>

lemma repair_router:
  "Coordinator_repairAsync rc p key v c e = (c', e') \<Longrightarrow> c_router c' = c_router c"
  by (auto simp: Coordinator_repairAsync_def Let_def split: if_splits)

lemma repair_all_router:
  assumes "repair_all rc key best rs c e = (c', e')"
  shows "c_router c' = c_router c"
proof -
  have "c_router (fst (fold (\<lambda>r (c, e). if is_stale best r then Coordinator_repairAsync rc (r_peer r) key best c e
      else (c, e)) rs (c, e))) = c_router c" for c e
  proof (induction rs arbitrary: c e)
    case (Cons r rs)
    obtain c1 e1 where s: "(if is_stale best r then Coordinator_repairAsync rc (r_peer r) key best c e else (c, e)) = (c1, e1)"
      by fastforce
    then have "c_router c1 = c_router c" using repair_router by (auto split: if_splits)
    with Cons [of c1 e1] s show ?case by simp
  qed simp
  from this [of c e] assms show ?thesis by (simp add: repair_all_def)
qed

lemma get_router:
  assumes "Coordinator_coordinateGet rc fo key N R c e = Some (gr, c', e')"
  shows "c_router c' = c_router c"
  using assms repair_all_router
  by (fastforce simp: Coordinator_coordinateGet_def Let_def split: option.splits if_splits prod.splits)

lemma writeQuorum_router:
  assumes "Coordinator_writeQuorum rc fo now key vv N W op c e = Some (pr, c', e')"
  shows "c_router c' = c_router c"
proof -
  obtain owners where o: "Router_findOwners (c_router c) key N = Some owners"
    using assms by (auto simp: Coordinator_writeQuorum_def split: option.splits)
  obtain c1 n rs where plan: "write_plan now key vv owners c = (c1, n, rs)"
    by (rule prod_cases3)
  obtain oks e1 where sent: "send_writes rc key vv (fo_order fo rs) e = (oks, e1)"
    by fastforce
  show ?thesis
  proof (cases "owners = []")
    case True
    then show ?thesis using assms o by (auto simp: Coordinator_writeQuorum_def)
  next
    case False
    from writeQuorum_cases [OF assms o False plan sent] write_plan_spec(1) [OF plan]
    show ?thesis by (simp add: same_setup_def)
  qed
qed

abbreviation same_membership :: "'s Node \<Rightarrow> 's Node \<Rightarrow> bool" where
  "same_membership n n' \<equiv> n_gossip n' = n_gossip n \<and> c_router (n_coordinator n') = c_router (n_coordinator n)"

lemma put_membership:
  "Node_handlePut wd f raw n e = Some (rs, n', e') \<Longrightarrow> same_membership n n'"
  by (auto simp: Node_handlePut_def forward_def Let_def Coordinator_coordinatePut_def
      split: option.splits list.splits if_splits prod.splits dest!: writeQuorum_router)

lemma delete_membership:
  "Node_handleDelete wd f raw n e = Some (rs, n', e') \<Longrightarrow> same_membership n n'"
  by (auto simp: Node_handleDelete_def forward_def Let_def Coordinator_coordinateDelete_def
      split: option.splits list.splits if_splits prod.splits dest!: writeQuorum_router)

lemma get_membership:
  "Node_handleGet wd f n e = Some (rs, n', e') \<Longrightarrow> same_membership n n'"
  by (auto simp: Node_handleGet_def split: option.splits dest!: get_router)

lemma replicate_membership:
  "Node_handleReplicate f n = (r, n') \<Longrightarrow> same_membership n n'"
  by (auto simp: Node_handleReplicate_def Let_def split: prod.splits)

lemma count_membership [simp]: "same_membership n (count_request op n)"
  by (simp add: count_request_def)

text \<open>A request changes the membership only by one operation of the gossip thread.\<close>

lemma leave_step:
  assumes "Node_handleLeave f n = (r, n')"
  shows "same_membership n n' \<or> (\<exists>g g'. n_gossip n = Some g \<and> gossip_op net (share_router n g) g' \<and> n' = take_gossip g' n)"
  using assms gossip_op.leave
  by (fastforce simp: Node_handleLeave_def Let_def split: if_splits option.splits prod.splits)

lemma gossip_message_step:
  assumes "Node_handleGossip wd payload n e = (rs, n', e')"
  shows "same_membership n n' \<or>
    (\<exists>g g'. n_gossip n = Some g \<and> gossip_op (wd_net wd) (share_router n g) g' \<and> n' = take_gossip g' n)"
  using assms gossip_op.message
  by (fastforce simp: Node_handleGossip_def split: option.splits prod.splits)

lemma handleRequest_step:
  assumes "Node_handleRequest wd payload n e = Some (rs, n', e')"
  shows "same_membership n n' \<or>
    (\<exists>g g'. n_gossip n = Some g \<and> gossip_op (wd_net wd) (share_router n g) g' \<and> n' = take_gossip g' n)"
proof -
  let ?f = "splitAll payload (CHR ''|'')"
  let ?t = "field ?f 0"
  consider "n' = n" | op where "Node_handlePut wd ?f payload (count_request op n) e = Some (rs, n', e')"
    | op where "Node_handleGet wd ?f (count_request op n) e = Some (rs, n', e')"
    | op where "Node_handleDelete wd ?f payload (count_request op n) e = Some (rs, n', e')"
    | r where "Node_handleReplicate ?f n = (r, n')" | r where "Node_handleLeave ?f n = (r, n')"
    | "Node_handleGossip wd payload n e = (rs, n', e')"
    using assms unfolding Node_handleRequest_def Let_def by (auto split: if_splits prod.splits)
  then show ?thesis
  proof cases
    case (2 op) from put_membership [OF this] show ?thesis by (simp add: count_request_def)
  next
    case (3 op) from get_membership [OF this] show ?thesis by (simp add: count_request_def)
  next
    case (4 op) from delete_membership [OF this] show ?thesis by (simp add: count_request_def)
  next
    case (5 r) from replicate_membership [OF this] show ?thesis by simp
  next
    case (6 r) then show ?thesis by (rule leave_step)
  next
    case 7 then show ?thesis by (rule gossip_message_step)
  qed simp
qed

section \<open>Sequences of requests\<close>

inductive node_req :: "'e world set \<Rightarrow> 's Node \<Rightarrow> 's Node \<Rightarrow> bool" for wds where
  request: "\<lbrakk> wd \<in> wds; Node_handleRequest wd payload n e = Some (rs, n', e') \<rbrakk> \<Longrightarrow> node_req wds n n'"

definition node_wf :: "'s Node \<Rightarrow> bool" where
  "node_wf n \<longleftrightarrow> (case n_gossip n of None \<Rightarrow> True | Some g \<Rightarrow> gossip_wf (share_router n g))"

definition retired :: "string \<Rightarrow> 's Node \<Rightarrow> bool" where
  "retired i n \<longleftrightarrow> (case n_gossip n of
     None \<Rightarrow> False
   | Some g \<Rightarrow> gossip_wf (share_router n g) \<and> Swim_stateOf (g_swim g) i = Some MemberState.Left)"

lemma share_take [simp]: "share_router (take_gossip g n) g = g"
  by (simp add: share_router_def take_gossip_def)

lemma take_gossip_gossip [simp]: "n_gossip (take_gossip g n) = Some g"
  by (simp add: take_gossip_def)

lemma share_same: "c_router (n_coordinator n') = c_router (n_coordinator n) \<Longrightarrow> share_router n' = share_router n"
  by (simp add: share_router_def fun_eq_iff)

lemma share_swim [simp]: "g_swim (share_router n g) = g_swim g"
  by (simp add: share_router_def)

lemma retired_req:
  assumes "node_req wds n n'" "retired i n"
  shows "retired i n'"
  using assms(1)
proof cases
  case (request wd payload e rs e')
  from handleRequest_step [OF request(2)] show ?thesis
  proof
    assume "same_membership n n'"
    then show ?thesis using assms(2) share_same [of n' n]
      by (auto simp: retired_def split: option.splits)
  next
    assume "\<exists>g g'. n_gossip n = Some g \<and> gossip_op (wd_net wd) (share_router n g) g' \<and> n' = take_gossip g' n"
    then obtain g g' where g: "n_gossip n = Some g" "gossip_op (wd_net wd) (share_router n g) g'"
      "n' = take_gossip g' n" by blast
    have st: "gsteps (share_router n g) g'" using g(2) by (rule gossip_op_steps)
    have r: "gossip_wf (share_router n g)" "Swim_stateOf (g_swim (share_router n g)) i = Some MemberState.Left"
      using assms(2) g(1) by (simp_all add: retired_def)
    have "gossip_wf g'" using gsteps_wf [OF st r(1)] .
    moreover have "Swim_stateOf (g_swim g') i = Some MemberState.Left"
      using left_stays [OF gsteps_le [OF st r(1)] r(2)] .
    ultimately show ?thesis by (simp add: retired_def g(3))
  qed
qed

lemma retired_reqs: "(node_req wds)\<^sup>*\<^sup>* n n' \<Longrightarrow> retired i n \<Longrightarrow> retired i n'"
  by (induction rule: rtranclp_induct) (auto dest: retired_req)

lemma retired_ring: "retired i n \<Longrightarrow> i \<notin> om_keys (nodes (c_router (n_coordinator n)))"
  using left_not_in_ring [of "share_router n g" i for g]
  by (force simp: retired_def share_router_def split: option.splits)

lemma leave_retires:
  assumes "node_wf n" "Node_handleLeave f n = (''RESPONSE|OK|left'', n')"
  shows "retired (field f 1) n'"
proof -
  obtain g g' where g: "n_gossip n = Some g" "GossipThread_requestLeave (share_router n g) (field f 1) = (True, g')"
    "n' = take_gossip g' n"
    using assms(2) by (auto simp: Node_handleLeave_def Let_def split: if_splits option.splits prod.splits)
  have "gossip_wf (share_router n g)" using assms(1) g(1) by (simp add: node_wf_def)
  then have "gossip_wf g'" using gsteps_wf [OF requestLeave_steps [OF g(2)]] by blast
  with requestLeave_left [OF g(2)] show ?thesis
    by (simp add: retired_def g(3))
qed

section \<open>Properties\<close>

text \<open>C9: an accepted LEAVE request removes a node for good.  When the operator's request is
  answered \<open>RESPONSE|OK|left\<close>, then after any further sequence of requests of any kind - joins,
  gossip, client traffic - the node is not in the ring of the node that accepted it.\<close>

theorem leave_request_permanent:
  assumes "node_wf n" "key_ok i"
    and "Node_handleRequest wd (''LEAVE|'' @ i) n e = Some ([''RESPONSE|OK|left''], n1, e1)"
    and "(node_req wds)\<^sup>*\<^sup>* n1 n2"
  shows "i \<notin> om_keys (nodes (c_router (n_coordinator n2)))"
proof -
  have f: "splitAll (''LEAVE|'' @ i) (CHR ''|'') = [''LEAVE'', i]"
    using splitAll_join [of "[''LEAVE'', i]" "CHR ''|''"] assms(2) by (simp add: key_ok_def)
  have "Node_handleLeave [''LEAVE'', i] n = (''RESPONSE|OK|left'', n1)"
    using assms(3) unfolding Node_handleRequest_def f by (auto simp: Let_def split: prod.splits)
  from leave_retires [OF assms(1) this] retired_reqs [OF assms(4)] retired_ring show ?thesis by fastforce
qed

definition ex_node :: "mem_store Node" where
  "ex_node = \<lparr>n_info = ex_n1, n_cfg = \<lparr>qc_N = 3, qc_W = 2, qc_R = 2, max_clock_entries = 20\<rparr>,
     n_coordinator = Coordinator_new ex_n1 ex_router InMemoryStorageEngine [] InMemoryMetrics_new
       \<lparr>qc_N = 3, qc_W = 2, qc_R = 2, max_clock_entries = 20\<rparr>,
     n_gossip = Some ex_a\<rparr>"

definition ex_world :: "unit world" where
  "ex_world = \<lparr>wd_client = ex_client True, wd_send = (\<lambda>e h p m. (''RESPONSE|OK|x'', e)), wd_net = silent_net,
     wd_fan = ex_order, wd_now = 0, wd_now_ms = 7\<rparr>"

theorem leave_request_permanent_witness:
  "\<exists>n1 n2 e. Node_handleRequest ex_world (''LEAVE|'' @ ''n2'') ex_node () = Some ([''RESPONSE|OK|left''], n1, ()) \<and>
     Node_handleRequest ex_world ''SWIM_JOIN|n2|h|1|9|'' n1 () = Some ([''SWIM_ACK|n1|n2|L:n2::0:0''], n2, e) \<and>
     ''n2'' \<notin> om_keys (nodes (c_router (n_coordinator n2)))"
proof -
  have "case Node_handleRequest ex_world (''LEAVE|'' @ ''n2'') ex_node () of
      None \<Rightarrow> False
    | Some (rs, n1, _) \<Rightarrow> rs = [''RESPONSE|OK|left''] \<and>
        (case Node_handleRequest ex_world ''SWIM_JOIN|n2|h|1|9|'' n1 () of
           None \<Rightarrow> False | Some (rs, _, _) \<Rightarrow> rs = [''SWIM_ACK|n1|n2|L:n2::0:0''])"
    by code_simp
  then obtain n1 n2 e where r:
    "Node_handleRequest ex_world (''LEAVE|'' @ ''n2'') ex_node () = Some ([''RESPONSE|OK|left''], n1, ())"
    "Node_handleRequest ex_world ''SWIM_JOIN|n2|h|1|9|'' n1 () = Some ([''SWIM_ACK|n1|n2|L:n2::0:0''], n2, e)"
    by (auto split: option.splits)
  have wf: "node_wf ex_node"
    using ex_gossip_wf(1)
    by (simp add: node_wf_def ex_node_def share_router_def Coordinator_new_def ex_gossip_defs)
  have "key_ok ''n2''" by code_simp
  moreover have "(node_req {ex_world})\<^sup>*\<^sup>* n1 n2"
    by (rule r_into_rtranclp, rule node_req.request [OF _ r(2)]) simp
  ultimately show ?thesis using leave_request_permanent [OF wf _ r(1)] r by blast
qed



text \<open>The client's request line for a put, as the comment above \<open>handlePut\<close> gives it.\<close>

definition put_request :: "string \<Rightarrow> string \<Rightarrow> string \<Rightarrow> nat \<Rightarrow> nat \<Rightarrow> nat \<Rightarrow> VectorClock \<Rightarrow> string" where
  "put_request key value origin N W R context =
     join (CHR ''|'') [''PUT'', key, encode value, origin, dec_nat N, dec_nat W, dec_nat R,
       VectorClock_serialize context]"

lemma dec_nat_clean: "CHR ''|'' \<notin> set (dec_nat k)"
  using dec_nat_digits is_digit_no_delim by blast

lemma toInt_dec_nat: "\<lbrakk> i < length f; f ! i = dec_nat k; k < 2 ^ 31 \<rbrakk> \<Longrightarrow> toInt f i d = int k"
  by (simp add: toInt_def stoi_def Let_def)

text \<open>C29: a PUT at the primary owner does what the client asked.  The request text is taken apart
  without loss: the value, the causal context and the quorum sizes reach the coordinator exactly
  (zero selects the configured default); on success the reply carries the new clock, in a form
  from which the client reads back that clock.\<close>

theorem put_request_end_to_end:
  assumes "key_ok key" "key_ok origin" "vc_wf context" "vc_clean context" "N < 2 ^ 31" "W < 2 ^ 31"
    and "Router_findOwners (c_router (n_coordinator n)) key 1 = Some (primary # os)"
    and "node_id primary = node_id (n_info n)"
    and "Coordinator_coordinatePut (wd_client wd) (wd_fan wd) (wd_now wd) (wd_now_ms wd) key value context
      (if 0 < N then int N else qc_N (n_cfg n)) (if 0 < W then int W else qc_W (n_cfg n))
      (n_coordinator (count_request Op.Put n)) e = Some (pr, c', e')"
  shows "Node_handleRequest wd (put_request key value origin N W R context) n e =
      Some ([ok_reply pr], n\<lparr>n_coordinator := c'\<rparr>, e') \<and>
    (pr_ok pr \<and> vc_wf (pr_clock pr) \<and> vc_clean (pr_clock pr) \<longrightarrow>
       VectorClock_parse (field (splitAll (ok_reply pr) (CHR ''|'')) 2) = pr_clock pr)"
proof -
  let ?fs = "[''PUT'', key, encode value, origin, dec_nat N, dec_nat W, dec_nat R, VectorClock_serialize context]"
  let ?n = "count_request Op.Put n"
  have f: "splitAll (put_request key value origin N W R context) (CHR ''|'') = ?fs"
    unfolding put_request_def using assms(1,2,4) dec_nat_clean
    by (intro splitAll_join) (auto simp: key_ok_def)
  have N: "effN ?n (toInt ?fs 4 0) = (if 0 < N then int N else qc_N (n_cfg n))"
    using toInt_dec_nat [of 4 ?fs N] assms(5) by (simp add: effN_def count_request_def)
  have W: "effW ?n (toInt ?fs 5 0) = (if 0 < W then int W else qc_W (n_cfg n))"
    using toInt_dec_nat [of 5 ?fs W] assms(6) by (simp add: effW_def count_request_def)
  have ctx: "VectorClock_parse (VectorClock_serialize context) = context"
    using assms(3,4) by (rule parse_serialize)
  have "Node_handlePut wd ?fs (put_request key value origin N W R context) ?n e =
      Some ([ok_reply pr], ?n\<lparr>n_coordinator := c'\<rparr>, e')"
    using assms(7-9) N W ctx by (simp add: Node_handlePut_def count_request_def)
  then have "Node_handleRequest wd (put_request key value origin N W R context) n e =
      Some ([ok_reply pr], n\<lparr>n_coordinator := c'\<rparr>, e')"
    unfolding Node_handleRequest_def f by (simp add: count_request_def)
  moreover have "VectorClock_parse (field (splitAll (ok_reply pr) (CHR ''|'')) 2) = pr_clock pr"
    if "pr_ok pr" "vc_wf (pr_clock pr)" "vc_clean (pr_clock pr)"
    using that splitAll_join [of "[''RESPONSE'', ''OK'', VectorClock_serialize (pr_clock pr)]" "CHR ''|''"]
    by (simp add: ok_reply_def parse_serialize)
  ultimately show ?thesis by blast
qed

definition ex_primary :: "mem_store Node" where
  "ex_primary = ex_node\<lparr>n_info := mkNodeInfo ''a'' ''h'' 1, n_coordinator := ex_writer None\<rparr>"

theorem put_request_end_to_end_witness:
  "\<exists>pr c'. Node_handleRequest ex_world (put_request ''k'' ''v'' ''gw'' 3 0 2 (clock ex_new)) ex_primary () =
     Some ([ok_reply pr], ex_primary\<lparr>n_coordinator := c'\<rparr>, ())"
proof -
  let ?put = "\<lambda>N W. Coordinator_coordinatePut (wd_client ex_world) (wd_fan ex_world) (wd_now ex_world)
      (wd_now_ms ex_world) ''k'' ''v'' (clock ex_new) N W (n_coordinator (count_request Op.Put ex_primary)) ()"
  have o: "Router_findOwners (c_router (n_coordinator ex_primary)) ''k'' 1 = Some [mkNodeInfo ''a'' ''h'' 1]"
    by code_simp
  have "c_router (n_coordinator (count_request Op.Put ex_primary)) = ex_router3"
    by (simp add: count_request_def ex_primary_def ex_writer_def)
  then have "?put N W \<noteq> None" for N W
    using findOwners_pref [OF ex_router3_ok(1)]
    by (simp add: Coordinator_coordinatePut_def writeQuorum_returns)
  then obtain pr c' e' where w: "?put (if 0 < (3::nat) then int 3 else qc_N (n_cfg ex_primary))
      (if 0 < (0::nat) then int 0 else qc_W (n_cfg ex_primary)) = Some (pr, c', e')"
    by (metis not_Some_eq prod_cases3)
  have "key_ok ''k''" "key_ok ''gw''" by code_simp+
  moreover have "vc_wf (clock ex_new)" "vc_clean (clock ex_new)"
    using ex_versions(2) by (simp_all add: vv_ok_def)
  moreover have "node_id (mkNodeInfo ''a'' ''h'' 1) = node_id (n_info ex_primary)"
    by (simp add: ex_primary_def mkNodeInfo_def)
  ultimately show ?thesis using put_request_end_to_end [OF _ _ _ _ _ _ o _ w] by fastforce
qed

text \<open>What a client reads from the pairs of a reply.\<close>

fun read_pairs :: "string list \<Rightarrow> (string \<times> VectorClock) list" where
  "read_pairs (d # c # fs) = (decode d, VectorClock_parse c) # read_pairs fs"
| "read_pairs _ = []"

definition pair_fields :: "VersionedValue list \<Rightarrow> string list" where
  "pair_fields vs = concat (map (\<lambda>v. [encode (data v), VectorClock_serialize (clock v)]) vs)"

lemma read_pair_fields:
  "\<forall>v \<in> set vs. vv_ok v \<Longrightarrow> read_pairs (pair_fields vs) = map (\<lambda>v. (data v, clock v)) vs"
  by (induction vs) (simp_all add: pair_fields_def vv_ok_def parse_serialize)

lemma value_texts_join:
  "x @ concat (map value_text vs) = join (CHR ''|'') (x # pair_fields vs)"
proof (induction vs arbitrary: x)
  case (Cons v vs)
  show ?case using Cons [of "VectorClock_serialize (clock v)"]
    by (simp add: pair_fields_def value_text_def)
qed (simp add: pair_fields_def)

text \<open>C30: a GET reply carries every version.  For a successful read - one version or siblings - the
  reply splits into the status, the number of siblings, and fields from which the client decodes
  the data and the clock of each returned version, in order.\<close>

theorem get_reply_roundtrip:
  assumes "\<forall>v \<in> set (gr_values gr). vv_ok v"
    and "gr_status gr = SIBLINGS \<or> gr_status gr = OK \<and> length (gr_values gr) = 1"
  shows "\<exists>fs. splitAll (get_reply gr) (CHR ''|'') =
      (if gr_status gr = OK then [''RESPONSE'', ''OK'']
       else [''RESPONSE'', ''SIBLINGS'', dec_nat (length (gr_values gr))]) @ fs \<and>
    read_pairs fs = map (\<lambda>v. (data v, clock v)) (gr_values gr)"
proof -
  let ?vs = "gr_values gr"
  let ?h = "if gr_status gr = OK then [''RESPONSE'', ''OK'']
       else [''RESPONSE'', ''SIBLINGS'', dec_nat (length ?vs)]"
  have vals: "\<exists>v. ?vs = [v]" if "gr_status gr = OK"
    using assms(2) that by (auto simp: length_Suc_conv)
  have "get_reply gr = join (CHR ''|'') (?h @ pair_fields ?vs)"
    using assms(2) vals value_texts_join [of "dec_nat (length ?vs)" ?vs] value_texts_join [of "''OK''" ?vs]
    by (auto simp: get_reply_def)
  moreover have "\<forall>x \<in> set (?h @ pair_fields ?vs). CHR ''|'' \<notin> set x"
    using assms(1) dec_nat_clean by (auto simp: pair_fields_def vv_ok_def)
  ultimately have "splitAll (get_reply gr) (CHR ''|'') = ?h @ pair_fields ?vs"
    by (simp add: splitAll_join)
  with read_pair_fields [OF assms(1)] show ?thesis by blast
qed

theorem get_reply_roundtrip_witness:
  "\<exists>fs. splitAll (get_reply \<lparr>gr_status = SIBLINGS, gr_values = [ex_new, ex_old], gr_error = []\<rparr>) (CHR ''|'') =
      [''RESPONSE'', ''SIBLINGS'', dec_nat 2] @ fs \<and>
    read_pairs fs = [(''y'', clock ex_new), (''x'', clock ex_old)]"
  using get_reply_roundtrip [of "\<lparr>gr_status = SIBLINGS, gr_values = [ex_new, ex_old], gr_error = []\<rparr>"] ex_versions(1,2)
  by (simp add: ex_new_def ex_old_def numeral_2_eq_2)

end
