(* ===== verification/Framing.thy ===== *)
theory Framing
  imports Text_Codec
begin

text \<open>
  net/framing: length-prefixed frames over a socket.  What \<open>read\<close> will return is a list of
  events - a chunk of bytes that has arrived, an interrupted call, an error - that ends with
  the peer's close; a chunk larger than the request is returned in pieces.  What \<open>write\<close> will
  do is a schedule of short writes, interruptions and errors, after which the kernel takes
  everything.

  Shown: a frame that was sent completely is received exactly, however the network splits it
  and however often the calls are interrupted, and what follows it stays in the stream.
\<close>

datatype rd = Chunk string | RdIntr | RdErr

datatype rd_result = Got string | Eof | Intr | Err

datatype wr = Wrote nat | WrIntr | WrErr

section \<open>System calls\<close>

fun read_fd :: "nat \<Rightarrow> rd list \<Rightarrow> rd_result \<times> rd list" where
  "read_fd n [] = (Eof, [])"
| "read_fd n (RdIntr # s) = (Intr, s)"
| "read_fd n (RdErr # s) = (Err, s)"
| "read_fd n (Chunk bs # s) =
     (if bs = [] then read_fd n s
      else (Got (take n bs), if length bs \<le> n then s else Chunk (drop n bs) # s))"

fun pending :: "rd list \<Rightarrow> nat" where
  "pending [] = 0"
| "pending (Chunk bs # s) = Suc (length bs + pending s)"
| "pending (_ # s) = Suc (pending s)"

lemma read_fd_pending:
  "\<lbrakk> read_fd n s = (r, s'); r \<noteq> Eof; 0 < n \<rbrakk> \<Longrightarrow> pending s' < pending s"
  by (induction n s rule: read_fd.induct) (auto split: if_splits)

section \<open>framing.cpp\<close>

definition kMaxFrame :: nat where
  "kMaxFrame = 16 * 1024 * 1024"

fun writeAll :: "string \<Rightarrow> wr list \<Rightarrow> bool \<times> string \<times> wr list" where
  "writeAll [] ws = (True, [], ws)"
| "writeAll (c # cs) [] = (True, c # cs, [])"
| "writeAll (c # cs) (WrIntr # ws) = writeAll (c # cs) ws"
| "writeAll (c # cs) (WrErr # ws) = (False, [], ws)"
| "writeAll (c # cs) (Wrote k # ws) =
     (if k = 0 then (False, [], ws)
      else case writeAll (drop k (c # cs)) ws of (ok, out, ws) \<Rightarrow> (ok, take k (c # cs) @ out, ws))"

function readAll :: "nat \<Rightarrow> string \<Rightarrow> rd list \<Rightarrow> string option \<times> rd list" where
  "readAll len got s =
     (if length got < len then
        case read_fd (len - length got) s of
          (Intr, s) \<Rightarrow> readAll len got s
        | (Err, s) \<Rightarrow> (None, s)
        | (Eof, s) \<Rightarrow> (None, s)
        | (Got bs, s) \<Rightarrow> readAll len (got @ bs) s
      else (Some got, s))"
  by pat_completeness auto
termination
  by (relation "measure (\<lambda>(len, got, s). pending s)") (auto dest!: read_fd_pending [OF sym])

declare readAll.simps [simp del]

text \<open>The length line, read a byte at a time; \<^const>\<open>None\<close> where \<open>recvFramed\<close> gives up.\<close>

function read_header :: "string \<Rightarrow> rd list \<Rightarrow> string option \<times> rd list" where
  "read_header lenStr s =
     (case read_fd 1 s of
        (Intr, s) \<Rightarrow> read_header lenStr s
      | (Err, s) \<Rightarrow> (None, s)
      | (Eof, s) \<Rightarrow> (None, s)
      | (Got bs, s) \<Rightarrow>
          let c = hd bs
          in if c = CHR 0x0A then (Some lenStr, s)
             else if \<not> is_digit c then (None, s)
             else if length (lenStr @ [c]) > 20 then (None, s)
             else read_header (lenStr @ [c]) s)"
  by pat_completeness auto
termination
  by (relation "measure (\<lambda>(lenStr, s). pending s)") (auto dest!: read_fd_pending [OF sym])

declare read_header.simps [simp del]

text \<open>\<open>strtoull\<close> saturates at \<open>2 ^ 64 - 1\<close>.\<close>

definition recvFramed :: "rd list \<Rightarrow> string option \<times> rd list" where
  "recvFramed s =
     (case read_header [] s of
        (None, s) \<Rightarrow> (None, s)
      | (Some lenStr, s) \<Rightarrow>
          if lenStr = [] then (None, s)
          else let len = min (dec_value lenStr) (2 ^ 64 - 1)
               in if len > kMaxFrame then (None, s)
                  else if len = 0 then (Some [], s)
                  else readAll len [] s)"

definition sendFramed :: "string \<Rightarrow> wr list \<Rightarrow> bool \<times> string \<times> wr list" where
  "sendFramed payload ws =
     (case writeAll (dec_nat (length payload) @ [CHR 0x0A]) ws of (ok, out, ws) \<Rightarrow>
        if \<not> ok then (False, out, ws)
        else case writeAll payload ws of (ok, out', ws) \<Rightarrow> (ok, out @ out', ws))"

section \<open>The byte stream\<close>

definition frame :: "string \<Rightarrow> string" where
  "frame payload = dec_nat (length payload) @ CHR 0x0A # payload"

fun stream_bytes :: "rd list \<Rightarrow> string" where
  "stream_bytes [] = []"
| "stream_bytes (Chunk bs # s) = bs @ stream_bytes s"
| "stream_bytes (_ # s) = stream_bytes s"

definition no_error :: "rd list \<Rightarrow> bool" where
  "no_error s \<longleftrightarrow> RdErr \<notin> set s"

lemma read_fd_cases:
  assumes "no_error s" "0 < n" "stream_bytes s \<noteq> []" "read_fd n s = (r, s')"
  shows "no_error s' \<and> (r = Intr \<and> stream_bytes s' = stream_bytes s \<or>
    (\<exists>bs. r = Got bs \<and> bs \<noteq> [] \<and> length bs \<le> n \<and> stream_bytes s = bs @ stream_bytes s'))"
  using assms
  by (induction n s rule: read_fd.induct) (auto simp: no_error_def split: if_splits)

lemma readAll_exact:
  assumes "no_error s" "stream_bytes s = bs @ rest" "len = length got + length bs"
  shows "\<exists>s'. readAll len got s = (Some (got @ bs), s') \<and> stream_bytes s' = rest \<and> no_error s'"
  using assms
proof (induction len got s arbitrary: bs rule: readAll.induct)
  case (1 len got s)
  show ?case
  proof (cases "bs = []")
    case True
    then show ?thesis using "1.prems" by (simp add: readAll.simps [of "length got" got s])
  next
    case False
    then have lt: "length got < len" and pos: "0 < len - length got" and ne: "stream_bytes s \<noteq> []"
      using "1.prems" by auto
    obtain r s1 where rd: "read_fd (len - length got) s = (r, s1)" by fastforce
    from read_fd_cases [OF "1.prems"(1) pos ne rd] show ?thesis
    proof (elim conjE disjE exE)
      assume intr: "no_error s1" "r = Intr" "stream_bytes s1 = stream_bytes s"
      have "\<exists>s'. readAll len got s1 = (Some (got @ bs), s') \<and> stream_bytes s' = rest \<and> no_error s'"
        using "1.IH"(2) [OF lt rd [symmetric] intr(2)] "1.prems" intr by simp
      then show ?thesis
        using lt rd intr(2) by (simp add: readAll.simps [of len got s])
    next
      fix cs assume ne1: "no_error s1" "r = Got cs" "cs \<noteq> []" "length cs \<le> len - length got"
        and bytes: "stream_bytes s = cs @ stream_bytes s1"
      have "cs = take (length cs) bs"
        using bytes "1.prems"(2,3) ne1(4) by (metis append_eq_append_conv_if take_all_iff add_diff_cancel_left' append_eq_conv_conj)
      then obtain ds where bs: "bs = cs @ ds"
        by (metis append_take_drop_id)
      have "\<exists>s'. readAll len (got @ cs) s1 = (Some ((got @ cs) @ ds), s') \<and> stream_bytes s' = rest \<and> no_error s'"
        using "1.IH"(1) [OF lt rd [symmetric] ne1(2)] ne1(1) bytes "1.prems"(2,3) bs by simp
      then show ?thesis
        using lt rd ne1(2) bs by (simp add: readAll.simps [of len got s])
    qed
  qed
qed

lemma read_header_exact:
  assumes "no_error s" "stream_bytes s = ds @ CHR 0x0A # rest" "\<forall>c \<in> set ds. is_digit c"
    and "length lenStr + length ds \<le> 20"
  shows "\<exists>s'. read_header lenStr s = (Some (lenStr @ ds), s') \<and> stream_bytes s' = rest \<and> no_error s'"
  using assms
proof (induction lenStr s arbitrary: ds rule: read_header.induct)
  case (1 lenStr s)
  have ne: "stream_bytes s \<noteq> []" using "1.prems"(2) by simp
  obtain r s1 where rd: "read_fd 1 s = (r, s1)" by fastforce
  from read_fd_cases [OF "1.prems"(1) zero_less_one ne rd] show ?case
  proof (elim conjE disjE exE)
    assume intr: "no_error s1" "r = Intr" "stream_bytes s1 = stream_bytes s"
    have "\<exists>s'. read_header lenStr s1 = (Some (lenStr @ ds), s') \<and> stream_bytes s' = rest \<and> no_error s'"
      using "1.IH"(2) [OF rd [symmetric] intr(2)] "1.prems" intr by simp
    then show ?thesis
      using rd intr(2) by (simp add: read_header.simps [of lenStr s])
  next
    fix bs assume got: "no_error s1" "r = Got bs" "bs \<noteq> []" "length bs \<le> 1"
      and bytes: "stream_bytes s = bs @ stream_bytes s1"
    then obtain c where c: "bs = [c]" by (cases bs) auto
    show ?thesis
    proof (cases ds)
      case Nil
      then show ?thesis
        using c got bytes "1.prems"(2) rd by (simp add: read_header.simps [of lenStr s])
    next
      case (Cons d es)
      then have d: "d = c" "stream_bytes s1 = es @ CHR 0x0A # rest" "is_digit c" "c \<noteq> CHR 0x0A"
        using c bytes "1.prems"(2,3) is_digit_no_delim by auto
      have "\<exists>s'. read_header (lenStr @ [c]) s1 = (Some ((lenStr @ [c]) @ es), s') \<and>
          stream_bytes s' = rest \<and> no_error s'"
        using "1.IH"(1) [OF rd [symmetric] got(2) refl] d c "1.prems"(3,4) Cons got(1) by simp
      then show ?thesis
        using rd got(2) c d Cons "1.prems"(4) by (simp add: read_header.simps [of lenStr s])
    qed
  qed
qed

lemma length_dec_nat: "n < 10 ^ Suc k \<Longrightarrow> length (dec_nat n) \<le> Suc k"
proof (induction k arbitrary: n)
  case 0
  then show ?case by (subst dec_nat.simps) simp
next
  case (Suc k)
  show ?case
  proof (cases "n < 10")
    case False
    have "n div 10 < 10 ^ Suc k"
      using Suc.prems by (simp add: less_mult_imp_div_less)
    then show ?thesis
      using False Suc.IH by (subst dec_nat.simps) simp
  qed (subst dec_nat.simps, simp)
qed

lemma writeAll_complete: "writeAll data ws = (True, out, ws') \<Longrightarrow> out = data"
  by (induction data ws arbitrary: out rule: writeAll.induct)
    (auto split: if_splits prod.splits)

text \<open>Whatever the stream holds, a payload that is returned respects the frame limit.\<close>

lemma recvFramed_bounds:
  assumes "recvFramed s = (Some out, s')"
  shows "length out \<le> kMaxFrame"
proof -
  have exact: "readAll len got s = (Some out, s') \<Longrightarrow> length got \<le> len \<Longrightarrow> length out = len" for len got s
  proof (induction len got s rule: readAll.induct)
    case (1 len got s)
    have chunk: "length bs \<le> len - length got" if "read_fd (len - length got) s = (Got bs, s1)" for bs s1
      using that by (induction "len - length got" s rule: read_fd.induct) (auto split: if_splits)
    show ?case
      using "1.prems" "1.IH" chunk
      by (subst (asm) readAll.simps) (force split: if_splits prod.splits rd_result.splits)
  qed
  show ?thesis
    using assms exact
    by (auto simp: recvFramed_def Let_def split: prod.splits option.splits if_splits)
qed

lemma send_complete: "sendFramed payload ws = (True, out, ws') \<Longrightarrow> out = frame payload"
  by (auto simp: sendFramed_def frame_def split: prod.splits if_splits dest!: writeAll_complete)

text \<open>A socket whose writes make progress and do not fail takes the whole frame.\<close>

definition no_write_error :: "wr list \<Rightarrow> bool" where
  "no_write_error ws \<longleftrightarrow> WrErr \<notin> set ws \<and> Wrote 0 \<notin> set ws"

lemma writeAll_ok:
  "no_write_error ws \<Longrightarrow> \<exists>ws'. writeAll bs ws = (True, bs, ws') \<and> no_write_error ws'"
proof (induction bs ws rule: writeAll.induct)
  case (5 c cs k ws)
  then have "k \<noteq> 0" "no_write_error ws" by (auto simp: no_write_error_def)
  with 5 show ?case by fastforce
qed (auto simp: no_write_error_def)

lemma send_frame:
  assumes "no_write_error ws"
  shows "\<exists>ws'. sendFramed payload ws = (True, frame payload, ws') \<and> no_write_error ws'"
proof -
  obtain ws1 where 1: "writeAll (dec_nat (length payload) @ [CHR 0x0A]) ws =
      (True, dec_nat (length payload) @ [CHR 0x0A], ws1)" "no_write_error ws1"
    using writeAll_ok [OF assms] by blast
  with writeAll_ok [OF this(2), of payload] show ?thesis by (auto simp: sendFramed_def frame_def)
qed

lemma recv_frame:
  assumes "length payload \<le> kMaxFrame" "stream_bytes s = frame payload @ rest" "no_error s"
  shows "\<exists>s'. recvFramed s = (Some payload, s') \<and> stream_bytes s' = rest \<and> no_error s'"
proof -
  let ?h = "dec_nat (length payload)"
  have bytes: "stream_bytes s = ?h @ CHR 0x0A # payload @ rest"
    using assms(2) by (simp add: frame_def)
  have "length payload < 10 ^ Suc 19"
    using assms(1) by (simp add: kMaxFrame_def)
  then have "length ?h \<le> 20"
    using length_dec_nat [of "length payload" 19] by simp
  then obtain s1 where h: "read_header [] s = (Some ?h, s1)" "stream_bytes s1 = payload @ rest" "no_error s1"
    using read_header_exact [OF assms(3) bytes, of "[]"] dec_nat_digits by auto
  have len: "min (length payload) (2 ^ 64 - 1) = length payload" "\<not> length payload > kMaxFrame"
    using assms(1) by (simp_all add: kMaxFrame_def)
  show ?thesis
  proof (cases "payload = []")
    case True
    then show ?thesis using h len by (simp add: recvFramed_def)
  next
    case False
    then show ?thesis
      using readAll_exact [OF h(3,2), of "length payload" "[]"] h(1) len by (simp add: recvFramed_def)
  qed
qed

section \<open>Properties\<close>

text \<open>C36: framing is exact.  If \<open>sendFramed\<close> reports success, the bytes it wrote are the frame of the
  payload; and a receiver whose stream starts with those bytes - split at any points, with any
  number of interrupted calls - gets exactly the payload and leaves exactly what follows,
  for every payload up to the frame limit.\<close>

theorem framing_roundtrip:
  assumes "sendFramed payload ws = (True, out, ws')" "length payload \<le> kMaxFrame"
    and "stream_bytes s = out @ rest" "no_error s"
  shows "\<exists>s'. recvFramed s = (Some payload, s') \<and> stream_bytes s' = rest \<and> no_error s'"
  using assms send_complete [OF assms(1)] recv_frame by simp

theorem framing_roundtrip_witness:
  "\<exists>s'. recvFramed [RdIntr, Chunk ''5'', Chunk (CHR 0x0A # ''he''), RdIntr, Chunk ''llo7''] = (Some ''hello'', s') \<and>
     stream_bytes s' = ''7''"
proof -
  have "sendFramed ''hello'' [Wrote 1, WrIntr, Wrote 3] = (True, ''5'' @ CHR 0x0A # ''hello'', [])"
    by code_simp
  from framing_roundtrip [OF this, of "[RdIntr, Chunk ''5'', Chunk (CHR 0x0A # ''he''), RdIntr, Chunk ''llo7'']" "''7''"]
  show ?thesis
    by (auto simp: kMaxFrame_def no_error_def)
qed

end
