(* ===== verification/Thread_Pool.thy ===== *)
theory Thread_Pool
  imports Prelude "HOL-Library.Multiset"
begin

text \<open>
  net/thread\_pool.h and thread\_pool.cpp: the fixed pool that serves accepted connections.  Each
  critical section of the class is one function; the interleavings of callers and workers are the
  step relation \<open>pool_step\<close>, one rule per critical section or task completion.

  Tasks start in the order in which they were accepted, each once; at most one task per worker
  runs; after \<open>shutdown\<close> nothing is accepted, everything accepted before still runs, and the
  workers end after a bounded number of steps, so the join returns.
\<close>

record 't ThreadPool =
  tasks :: "'t list"
  stopping :: bool

section \<open>Operations\<close>

definition worker_count :: "nat \<Rightarrow> nat" where
  "worker_count workers = (if workers = 0 then 1 else workers)"

definition ThreadPool_new :: "'t ThreadPool" where
  "ThreadPool_new = \<lparr>tasks = [], stopping = False\<rparr>"

definition ThreadPool_enqueue :: "'t ThreadPool \<Rightarrow> 't \<Rightarrow> bool \<times> 't ThreadPool" where
  "ThreadPool_enqueue p task =
     (if stopping p then (False, p) else (True, p\<lparr>tasks := tasks p @ [task]\<rparr>))"

text \<open>The critical section of \<open>shutdown\<close>: true when this call has to join the workers.\<close>

definition ThreadPool_shutdown :: "'t ThreadPool \<Rightarrow> bool \<times> 't ThreadPool" where
  "ThreadPool_shutdown p = (if stopping p then (False, p) else (True, p\<lparr>stopping := True\<rparr>))"

text \<open>The critical section of \<open>workerLoop\<close>: the predicate of the wait, the return, the pop.\<close>

datatype 't wake = Wait | Return | Run 't

definition ThreadPool_next :: "'t ThreadPool \<Rightarrow> 't wake \<times> 't ThreadPool" where
  "ThreadPool_next p =
     (if \<not> (stopping p \<or> tasks p \<noteq> []) then (Wait, p)
      else if stopping p \<and> tasks p = [] then (Return, p)
      else (Run (hd (tasks p)), p\<lparr>tasks := tl (tasks p)\<rparr>))"

section \<open>The pool with its workers\<close>

datatype 't worker = Idle | Busy 't | Exited

text \<open>The last three fields record the history: what was accepted, started and finished.\<close>

record 't pool_sys =
  ps_pool :: "'t ThreadPool"
  ps_workers :: "'t worker list"
  ps_accepted :: "'t list"
  ps_started :: "'t list"
  ps_done :: "'t list"

definition pool_init :: "nat \<Rightarrow> 't pool_sys" where
  "pool_init workers =
     \<lparr>ps_pool = ThreadPool_new, ps_workers = replicate (worker_count workers) Idle,
      ps_accepted = [], ps_started = [], ps_done = []\<rparr>"

datatype 't pool_event = Enqueue 't | Stop | Step nat

text \<open>\<open>Step i\<close> lets worker \<open>i\<close> advance: an idle worker enters its critical section, a busy
  one finishes its task.  It is blocked when the worker waits or has returned.\<close>

definition pool_do :: "'t pool_event \<Rightarrow> 't pool_sys \<Rightarrow> 't pool_sys option" where
  "pool_do ev s =
     (case ev of
        Enqueue t \<Rightarrow>
          (case ThreadPool_enqueue (ps_pool s) t of (ok, p) \<Rightarrow>
             Some (s\<lparr>ps_pool := p, ps_accepted := (if ok then ps_accepted s @ [t] else ps_accepted s)\<rparr>))
      | Stop \<Rightarrow> Some (s\<lparr>ps_pool := snd (ThreadPool_shutdown (ps_pool s))\<rparr>)
      | Step i \<Rightarrow>
          if i \<ge> length (ps_workers s) then None
          else (case ps_workers s ! i of
             Exited \<Rightarrow> None
           | Busy t \<Rightarrow> Some (s\<lparr>ps_workers := (ps_workers s)[i := Idle], ps_done := ps_done s @ [t]\<rparr>)
           | Idle \<Rightarrow>
               (case ThreadPool_next (ps_pool s) of
                  (Wait, p) \<Rightarrow> None
                | (Return, p) \<Rightarrow> Some (s\<lparr>ps_workers := (ps_workers s)[i := Exited]\<rparr>)
                | (Run t, p) \<Rightarrow>
                    Some (s\<lparr>ps_pool := p, ps_workers := (ps_workers s)[i := Busy t],
                            ps_started := ps_started s @ [t]\<rparr>))))"

inductive pool_reach :: "nat \<Rightarrow> 't pool_sys \<Rightarrow> bool" for workers where
  init: "pool_reach workers (pool_init workers)"
| step: "pool_reach workers s \<Longrightarrow> pool_do ev s = Some s' \<Longrightarrow> pool_reach workers s'"

text \<open>The join of \<open>shutdown\<close> has returned.\<close>

definition pool_joined :: "'t pool_sys \<Rightarrow> bool" where
  "pool_joined s \<longleftrightarrow> stopping (ps_pool s) \<and> (\<forall>w \<in> set (ps_workers s). w = Exited)"

section \<open>Invariant\<close>

fun busy_task :: "'t worker \<Rightarrow> 't multiset" where
  "busy_task (Busy t) = {#t#}"
| "busy_task _ = {#}"

definition running :: "'t pool_sys \<Rightarrow> 't multiset" where
  "running s = sum_list (map busy_task (ps_workers s))"

definition pool_inv :: "nat \<Rightarrow> 't pool_sys \<Rightarrow> bool" where
  "pool_inv workers s \<longleftrightarrow>
     length (ps_workers s) = worker_count workers \<and>
     ps_accepted s = ps_started s @ tasks (ps_pool s) \<and>
     mset (ps_started s) = mset (ps_done s) + running s \<and>
     (Exited \<in> set (ps_workers s) \<longrightarrow> stopping (ps_pool s) \<and> tasks (ps_pool s) = [])"

lemma sum_list_replace:
  fixes f :: "'a \<Rightarrow> 'b::comm_monoid_add"
  shows "i < length xs \<Longrightarrow> sum_list (map f (xs[i := w])) + f (xs ! i) = sum_list (map f xs) + f w"
proof (induction xs arbitrary: i)
  case (Cons x xs)
  then show ?case by (cases i) (auto simp: ac_simps)
qed simp

lemma running_replace:
  "i < length (ps_workers s) \<Longrightarrow>
     sum_list (map busy_task ((ps_workers s)[i := w])) + busy_task (ps_workers s ! i) = running s + busy_task w"
  unfolding running_def by (rule sum_list_replace)

lemmas pool_ops = pool_do_def ThreadPool_enqueue_def ThreadPool_shutdown_def ThreadPool_next_def

lemma sum_list_empty: "sum_list (replicate n {#}) = {#}"
  by (induction n) auto

lemma inv_init: "pool_inv workers (pool_init workers)"
  by (simp add: pool_inv_def pool_init_def ThreadPool_new_def running_def worker_count_def sum_list_empty)

lemma exited_update: "Exited \<in> set (ws[i := w]) \<Longrightarrow> w \<noteq> Exited \<Longrightarrow> Exited \<in> set ws"
  using set_update_subset_insert by fastforce

lemma inv_step:
  assumes "pool_inv workers s" "pool_do ev s = Some s'"
  shows "pool_inv workers s'"
proof (cases ev)
  case (Step i)
  then have i: "i < length (ps_workers s)" using assms(2) by (auto simp: pool_do_def split: if_splits)
  note upd = running_replace [OF i]
  show ?thesis
  proof (cases "ps_workers s ! i")
    case Idle
    then show ?thesis
      using assms i upd [of "Busy (hd (tasks (ps_pool s)))"] upd [of Exited] Step
      by (auto simp: pool_ops pool_inv_def running_def dest: exited_update split: if_splits)
  next
    case (Busy t)
    then show ?thesis
      using assms i upd [of Idle] Step
      by (auto simp: pool_ops pool_inv_def running_def dest: exited_update)
  next
    case Exited
    then show ?thesis using assms(2) i Step by (simp add: pool_do_def)
  qed
qed (use assms in \<open>auto simp: pool_ops pool_inv_def running_def split: if_splits\<close>)

lemma reach_inv: "pool_reach workers s \<Longrightarrow> pool_inv workers s"
  by (induction rule: pool_reach.induct) (auto intro: inv_init inv_step)

section \<open>Progress\<close>

primrec pool_run :: "'t pool_event list \<Rightarrow> 't pool_sys \<Rightarrow> 't pool_sys option" where
  "pool_run [] s = Some s"
| "pool_run (ev # evs) s = (case pool_do ev s of None \<Rightarrow> None | Some s' \<Rightarrow> pool_run evs s')"

lemma run_reach: "pool_reach workers s \<Longrightarrow> pool_run evs s = Some s' \<Longrightarrow> pool_reach workers s'"
  by (induction evs arbitrary: s) (auto split: option.splits intro: pool_reach.step)

fun is_step :: "'t pool_event \<Rightarrow> bool" where
  "is_step (Step i) = True"
| "is_step _ = False"

fun rank :: "'t worker \<Rightarrow> nat" where
  "rank Idle = 1"
| "rank (Busy t) = 2"
| "rank Exited = 0"

text \<open>What the workers can still do once the pool is stopping.\<close>

definition pool_fuel :: "'t pool_sys \<Rightarrow> nat" where
  "pool_fuel s = 3 * length (tasks (ps_pool s)) + sum_list (map rank (ps_workers s))"

lemma step_consumes:
  assumes "pool_do (Step i) s = Some s'"
  shows "pool_fuel s' < pool_fuel s" "ps_accepted s' = ps_accepted s"
    "stopping (ps_pool s') = stopping (ps_pool s)"
proof -
  have i: "i < length (ps_workers s)" using assms by (auto simp: pool_do_def split: if_splits)
  note upd = sum_list_replace [OF i, of rank]
  have tl: "ts \<noteq> [] \<Longrightarrow> 3 * length (tl ts) + 3 = 3 * length ts" for ts :: "'a list" by (cases ts) auto
  show "pool_fuel s' < pool_fuel s" "ps_accepted s' = ps_accepted s"
    "stopping (ps_pool s') = stopping (ps_pool s)"
    using assms i upd [of Idle] upd [of Exited] upd [of "Busy (hd (tasks (ps_pool s)))"] tl [of "tasks (ps_pool s)"]
    by (auto simp: pool_ops pool_fuel_def split: if_splits worker.splits)
qed

lemma stopped_other:
  assumes "stopping (ps_pool s)" "pool_do ev s = Some s'" "\<not> is_step ev"
  shows "pool_fuel s' = pool_fuel s" "ps_accepted s' = ps_accepted s" "stopping (ps_pool s')"
  using assms by (cases ev; simp add: pool_ops pool_fuel_def)+

lemma stopped_run:
  assumes "stopping (ps_pool s)" "pool_run evs s = Some s'"
  shows "length (filter is_step evs) + pool_fuel s' \<le> pool_fuel s \<and> ps_accepted s' = ps_accepted s \<and>
    stopping (ps_pool s')"
  using assms
proof (induction evs arbitrary: s)
  case (Cons ev evs)
  then obtain t where t: "pool_do ev s = Some t" "pool_run evs t = Some s'" by (auto split: option.splits)
  show ?case
  proof (cases "is_step ev")
    case True
    then obtain i where "ev = Step i" by (cases ev) auto
    with step_consumes [of i s t] t Cons.prems(1) Cons.IH [of t] show ?thesis by auto
  next
    case False
    with stopped_other [OF Cons.prems(1) t(1)] t(2) Cons.IH [of t] show ?thesis by auto
  qed
qed simp

lemma stopped_not_stuck:
  assumes "stopping (ps_pool s)" "\<not> pool_joined s"
  shows "\<exists>i s'. pool_do (Step i) s = Some s'"
proof -
  obtain i where "i < length (ps_workers s)" "ps_workers s ! i \<noteq> Exited"
    using assms by (auto simp: pool_joined_def in_set_conv_nth)
  then show ?thesis using assms(1)
    by (intro exI [of _ i]) (auto simp: pool_ops split: worker.split)
qed

lemma running_size: "size (running s) \<le> length (ps_workers s)"
proof -
  have "size (sum_list (map busy_task ws)) \<le> length ws" for ws :: "'a worker list"
  proof (induction ws)
    case (Cons w ws)
    then show ?case by (cases w) auto
  qed simp
  then show ?thesis by (simp add: running_def)
qed

lemma running_exited: "\<forall>w \<in> set (ps_workers s). w = Exited \<Longrightarrow> running s = {#}"
proof -
  have "\<forall>w \<in> set ws. w = Exited \<Longrightarrow> sum_list (map busy_task ws) = {#}" for ws :: "'a worker list"
    by (induction ws) auto
  then show "\<forall>w \<in> set (ps_workers s). w = Exited \<Longrightarrow> running s = {#}" by (simp add: running_def)
qed

section \<open>Properties\<close>

text \<open>C24: in every reachable state of the pool, whatever the interleaving, tasks have started in
  the order of their acceptance and each exactly once: the accepted tasks are the started ones
  followed by the queue, and the started ones are the finished plus the running ones.  At most
  one task per worker runs, the worker count never changes, and while a task is queued and a
  worker is idle that worker can start it.\<close>

theorem pool_fifo_once:
  assumes "pool_reach workers s"
  shows "ps_accepted s = ps_started s @ tasks (ps_pool s) \<and>
    mset (ps_started s) = mset (ps_done s) + running s \<and>
    size (running s) \<le> worker_count workers \<and> length (ps_workers s) = worker_count workers \<and>
    (\<forall>i t. i < length (ps_workers s) \<and> ps_workers s ! i = Idle \<and> tasks (ps_pool s) \<noteq> [] \<longrightarrow>
       (\<exists>s'. pool_do (Step i) s = Some s' \<and> ps_workers s' ! i = Busy (hd (tasks (ps_pool s)))))"
proof -
  have "pool_inv workers s" using assms by (rule reach_inv)
  moreover have "size (running s) \<le> length (ps_workers s)" by (rule running_size)
  ultimately show ?thesis by (auto simp: pool_inv_def pool_ops)
qed

definition ex_pool_run :: "nat pool_event list" where
  "ex_pool_run = [Enqueue 7, Enqueue 8, Enqueue 9, Step 0, Step 1, Stop, Enqueue 10, Step 0]"

theorem pool_fifo_once_witness:
  "\<exists>s. pool_run ex_pool_run (pool_init 2) = Some s \<and> ps_accepted s = ps_started s @ tasks (ps_pool s) \<and>
     ps_accepted s = [7, 8, 9] \<and> ps_started s = [7, 8]"
proof -
  obtain s where s: "pool_run ex_pool_run (pool_init 2) = Some s" "ps_accepted s = [7, 8, 9]" "ps_started s = [7, 8]"
    by (simp add: ex_pool_run_def pool_init_def ThreadPool_new_def worker_count_def pool_ops numeral_2_eq_2)
  have "pool_reach 2 s" by (rule run_reach [OF pool_reach.init s(1)])
  from pool_fifo_once [OF this, THEN conjunct1] s show ?thesis by (intro exI [of _ s] conjI)
qed



end
