(* ===== verification/Tcp_Connect.thy ===== *)
theory Tcp_Connect
  imports Text_Codec "HOL-Library.Signed_Division"
begin

text \<open>
  net/tcp\_connect.cpp: opening a connection with a bounded wait.  The system calls are a record of
  functions over the state of the system; what they do to descriptors, descriptor flags, socket
  timeouts and address lists is the hypothesis \<open>sys_laws\<close>, stated over a view of that state.

  Shown: \<open>dial\<close> frees what it resolved, leaves no descriptor behind when it fails, and otherwise
  returns one new descriptor in blocking mode with both timeouts set.
\<close>

unbundle bit_operations_syntax

section \<open>System calls\<close>

record timeval =
  tv_sec :: int
  tv_usec :: int

datatype connect_result = Connected | InProgress | Refused

datatype timeout_option = SO_RCVTIMEO | SO_SNDTIMEO

record ('e, 'a) sys =
  sys_getaddrinfo :: "'e \<Rightarrow> string \<Rightarrow> string \<Rightarrow> 'a option \<times> 'e"
  sys_freeaddrinfo :: "'e \<Rightarrow> 'a \<Rightarrow> 'e"
  sys_socket :: "'e \<Rightarrow> int \<times> 'e"
  sys_getfl :: "'e \<Rightarrow> int \<Rightarrow> u32"
  sys_setfl :: "'e \<Rightarrow> int \<Rightarrow> u32 \<Rightarrow> 'e"
  sys_connect :: "'e \<Rightarrow> int \<Rightarrow> 'a \<Rightarrow> connect_result \<times> 'e"
  sys_select :: "'e \<Rightarrow> int \<Rightarrow> timeval \<Rightarrow> int \<times> 'e"
  sys_so_error :: "'e \<Rightarrow> int \<Rightarrow> int \<times> int \<times> 'e"
  sys_set_timeout :: "'e \<Rightarrow> int \<Rightarrow> timeout_option \<Rightarrow> timeval \<Rightarrow> 'e"
  sys_close :: "'e \<Rightarrow> int \<Rightarrow> 'e"

definition O_NONBLOCK :: u32 where
  "O_NONBLOCK = 0x800"

section \<open>Connecting\<close>

text \<open>Division and remainder of \<open>int\<close> round towards zero.\<close>

definition millis_tv :: "int \<Rightarrow> timeval" where
  "millis_tv ms = \<lparr>tv_sec = ms sdiv 1000, tv_usec = (ms smod 1000) * 1000\<rparr>"

definition connectWithTimeout :: "('e, 'a) sys \<Rightarrow> int \<Rightarrow> 'a \<Rightarrow> int \<Rightarrow> 'e \<Rightarrow> bool \<times> 'e" where
  "connectWithTimeout sys sock addr timeout_ms e =
     (let flags = sys_getfl sys e sock;
          e = sys_setfl sys e sock (flags OR O_NONBLOCK)
      in case sys_connect sys e sock addr of
           (Connected, e) \<Rightarrow> (True, sys_setfl sys e sock flags)
         | (Refused, e) \<Rightarrow> (False, e)
         | (InProgress, e) \<Rightarrow>
             (case sys_select sys e sock (millis_tv timeout_ms) of (rc, e) \<Rightarrow>
                if rc \<le> 0 then (False, e)
                else case sys_so_error sys e sock of (rc, soErr, e) \<Rightarrow>
                  if rc < 0 \<or> soErr \<noteq> 0 then (False, e)
                  else (True, sys_setfl sys e sock flags)))"

text \<open>\<open>to_string\<close> of an \<open>int\<close>\<close>

definition dec_int :: "int \<Rightarrow> string" where
  "dec_int i = (if i < 0 then CHR ''-'' # dec_nat (nat (- i)) else dec_nat (nat i))"

definition dial :: "('e, 'a) sys \<Rightarrow> string \<Rightarrow> int \<Rightarrow> int \<Rightarrow> int \<Rightarrow> 'e \<Rightarrow> int \<times> 'e" where
  "dial sys host port timeout_ms io_timeout_ms e =
     (case sys_getaddrinfo sys e host (dec_int port) of
        (None, e) \<Rightarrow> (-1, e)
      | (Some res, e) \<Rightarrow>
          (case sys_socket sys e of (sock, e) \<Rightarrow>
             if sock < 0 then (-1, sys_freeaddrinfo sys e res)
             else case connectWithTimeout sys sock res timeout_ms e of (ok, e) \<Rightarrow>
               if \<not> ok then (-1, sys_close sys (sys_freeaddrinfo sys e res) sock)
               else let e = sys_freeaddrinfo sys e res;
                        tv = millis_tv io_timeout_ms;
                        e = sys_set_timeout sys e sock SO_RCVTIMEO tv;
                        e = sys_set_timeout sys e sock SO_SNDTIMEO tv
                    in (sock, e)))"

section \<open>What the system calls do\<close>

text \<open>
  The open descriptors, their status flags, the socket timeouts and the number of address lists
  that have been allocated and not freed.
\<close>

record kview =
  kv_open :: "int set"
  kv_flags :: "int \<Rightarrow> u32"
  kv_timeout :: "int \<Rightarrow> timeout_option \<Rightarrow> timeval"
  kv_infos :: int

definition resolve_laws :: "('e, 'a) sys \<Rightarrow> ('e \<Rightarrow> kview) \<Rightarrow> bool" where
  "resolve_laws sys view \<longleftrightarrow>
     (\<forall>e h p e'. sys_getaddrinfo sys e h p = (None, e') \<longrightarrow> view e' = view e) \<and>
     (\<forall>e h p a e'. sys_getaddrinfo sys e h p = (Some a, e') \<longrightarrow> view e' = (view e)\<lparr>kv_infos := kv_infos (view e) + 1\<rparr>) \<and>
     (\<forall>e a. view (sys_freeaddrinfo sys e a) = (view e)\<lparr>kv_infos := kv_infos (view e) - 1\<rparr>)"

definition descriptor_laws :: "('e, 'a) sys \<Rightarrow> ('e \<Rightarrow> kview) \<Rightarrow> bool" where
  "descriptor_laws sys view \<longleftrightarrow>
     (\<forall>e fd e'. sys_socket sys e = (fd, e') \<and> fd < 0 \<longrightarrow> view e' = view e) \<and>
     (\<forall>e fd e'. sys_socket sys e = (fd, e') \<and> fd \<ge> 0 \<longrightarrow>
        fd \<notin> kv_open (view e) \<and> kv_flags (view e') fd AND O_NONBLOCK = 0 \<and>
        kv_open (view e') = insert fd (kv_open (view e)) \<and> kv_infos (view e') = kv_infos (view e)) \<and>
     (\<forall>e fd. sys_getfl sys e fd = kv_flags (view e) fd) \<and>
     (\<forall>e fd f. view (sys_setfl sys e fd f) = (view e)\<lparr>kv_flags := (kv_flags (view e))(fd := f)\<rparr>) \<and>
     (\<forall>e fd. view (sys_close sys e fd) = (view e)\<lparr>kv_open := kv_open (view e) - {fd}\<rparr>)"

definition socket_laws :: "('e, 'a) sys \<Rightarrow> ('e \<Rightarrow> kview) \<Rightarrow> bool" where
  "socket_laws sys view \<longleftrightarrow>
     (\<forall>e fd a. view (snd (sys_connect sys e fd a)) = view e) \<and>
     (\<forall>e fd tv. view (snd (sys_select sys e fd tv)) = view e) \<and>
     (\<forall>e fd. view (snd (snd (sys_so_error sys e fd))) = view e) \<and>
     (\<forall>e fd opt tv. view (sys_set_timeout sys e fd opt tv) =
        (view e)\<lparr>kv_timeout := (kv_timeout (view e))(fd := (kv_timeout (view e) fd)(opt := tv))\<rparr>)"

definition sys_laws :: "('e, 'a) sys \<Rightarrow> ('e \<Rightarrow> kview) \<Rightarrow> bool" where
  "sys_laws sys view \<longleftrightarrow> resolve_laws sys view \<and> descriptor_laws sys view \<and> socket_laws sys view"

definition set_timeouts :: "('e, 'a) sys \<Rightarrow> 'e \<Rightarrow> int \<Rightarrow> timeval \<Rightarrow> 'e" where
  "set_timeouts sys e fd tv = sys_set_timeout sys (sys_set_timeout sys e fd SO_RCVTIMEO tv) fd SO_SNDTIMEO tv"

lemma set_timeouts_view:
  assumes "sys_laws sys view"
  shows "kv_open (view (set_timeouts sys e fd tv)) = kv_open (view e)"
    "kv_infos (view (set_timeouts sys e fd tv)) = kv_infos (view e)"
    "kv_flags (view (set_timeouts sys e fd tv)) = kv_flags (view e)"
    "kv_timeout (view (set_timeouts sys e fd tv)) fd opt = tv"
proof -
  have v: "view (set_timeouts sys e fd tv) =
      (view e)\<lparr>kv_timeout := (kv_timeout (view e))(fd := (kv_timeout (view e) fd)(SO_RCVTIMEO := tv, SO_SNDTIMEO := tv))\<rparr>"
    using assms by (simp add: set_timeouts_def sys_laws_def socket_laws_def)
  show "kv_open (view (set_timeouts sys e fd tv)) = kv_open (view e)"
    "kv_infos (view (set_timeouts sys e fd tv)) = kv_infos (view e)"
    "kv_flags (view (set_timeouts sys e fd tv)) = kv_flags (view e)"
    "kv_timeout (view (set_timeouts sys e fd tv)) fd opt = tv"
    by (simp_all add: v) (cases opt; simp)
qed

lemma connect_view:
  assumes "sys_laws sys view" "connectWithTimeout sys sock addr t e = (ok, e')"
  shows "kv_open (view e') = kv_open (view e) \<and> kv_infos (view e') = kv_infos (view e) \<and>
    (ok \<longrightarrow> view e' = view e)"
proof -
  let ?e1 = "sys_setfl sys e sock (sys_getfl sys e sock OR O_NONBLOCK)"
  let ?w = "(view e)\<lparr>kv_flags := (kv_flags (view e))(sock := kv_flags (view e) sock OR O_NONBLOCK)\<rparr>"
  have d: "descriptor_laws sys view" and s: "socket_laws sys view" using assms(1) by (simp_all add: sys_laws_def)
  have 1: "view ?e1 = ?w" using d by (simp add: descriptor_laws_def)
  have set: "view (sys_setfl sys x sock (sys_getfl sys e sock)) = view e" if "view x = ?w" for x
    using d that by (simp add: descriptor_laws_def)
  have c: "view (snd (sys_connect sys ?e1 sock addr)) = ?w" using s 1 by (simp add: socket_laws_def)
  have sel: "view (snd (sys_select sys x sock tv)) = view x" for x tv using s by (simp add: socket_laws_def)
  have err: "view (snd (snd (sys_so_error sys x sock))) = view x" for x using s by (simp add: socket_laws_def)
  obtain r e2 where r: "sys_connect sys ?e1 sock addr = (r, e2)" by fastforce
  then have e2: "view e2 = ?w" using c by simp
  obtain rc e3 where sl: "sys_select sys e2 sock (millis_tv t) = (rc, e3)" by fastforce
  then have e3: "view e3 = ?w" using sel [of e2 "millis_tv t"] e2 by simp
  obtain rc' se e4 where so: "sys_so_error sys e3 sock = (rc', se, e4)" by (rule prod_cases3)
  then have e4: "view e4 = ?w" using err [of e3] e3 by simp
  have "view e' = ?w \<and> \<not> ok \<or> view e' = view e"
    using assms(2) r sl so set [OF e2] set [OF e4] e2 e3 e4
    by (cases r) (auto simp: connectWithTimeout_def Let_def split: if_splits)
  then show ?thesis by auto
qed

section \<open>Properties\<close>

text \<open>A system with nothing but a table of descriptors; connecting takes one round of \<open>select\<close>.\<close>

definition ex_sys :: "(kview, unit) sys" where
  "ex_sys =
     \<lparr>sys_getaddrinfo = (\<lambda>e h p. if h = ''nowhere'' then (None, e) else (Some (), e\<lparr>kv_infos := kv_infos e + 1\<rparr>)),
      sys_freeaddrinfo = (\<lambda>e a. e\<lparr>kv_infos := kv_infos e - 1\<rparr>),
      sys_socket = (\<lambda>e. if 3 \<in> kv_open e then (-1, e)
        else (3, e\<lparr>kv_open := insert 3 (kv_open e), kv_flags := (kv_flags e)(3 := 2)\<rparr>)),
      sys_getfl = kv_flags, sys_setfl = (\<lambda>e fd f. e\<lparr>kv_flags := (kv_flags e)(fd := f)\<rparr>),
      sys_connect = (\<lambda>e fd a. (InProgress, e)), sys_select = (\<lambda>e fd tv. (if tv_sec tv > 0 then 1 else 0, e)),
      sys_so_error = (\<lambda>e fd. (0, 0, e)),
      sys_set_timeout = (\<lambda>e fd opt tv. e\<lparr>kv_timeout := (kv_timeout e)(fd := (kv_timeout e fd)(opt := tv))\<rparr>),
      sys_close = (\<lambda>e fd. e\<lparr>kv_open := kv_open e - {fd}\<rparr>)\<rparr>"

definition ex_kernel :: kview where
  "ex_kernel = \<lparr>kv_open = {0, 1, 2}, kv_flags = (\<lambda>_. 0), kv_timeout = (\<lambda>_ _. millis_tv 0), kv_infos = 0\<rparr>"

lemma ex_sys_laws: "sys_laws ex_sys id"
  by (auto simp: sys_laws_def resolve_laws_def descriptor_laws_def socket_laws_def ex_sys_def O_NONBLOCK_def
      split: if_splits)

text \<open>C17: dialling frees every address list that it resolved.  When it fails it returns -1 and the
  set of open descriptors is as before; otherwise it returns one descriptor that was not open,
  back in blocking mode and with the send and receive timeouts that were asked for.\<close>

theorem dial_leaks_nothing:
  assumes laws: "sys_laws sys view" and run: "dial sys host port timeout_ms io_timeout_ms e = (fd, e')"
  shows "kv_infos (view e') = kv_infos (view e) \<and>
    (if fd < 0 then fd = -1 \<and> kv_open (view e') = kv_open (view e)
     else fd \<notin> kv_open (view e) \<and> kv_open (view e') = insert fd (kv_open (view e)) \<and>
       kv_flags (view e') fd AND O_NONBLOCK = 0 \<and>
       (\<forall>opt. kv_timeout (view e') fd opt = millis_tv io_timeout_ms))"
proof (cases "fst (sys_getaddrinfo sys e host (dec_int port))")
  case None
  then show ?thesis
    using run laws by (cases "sys_getaddrinfo sys e host (dec_int port)") (auto simp: dial_def sys_laws_def resolve_laws_def)
next
  case (Some res)
  obtain e1 where g: "sys_getaddrinfo sys e host (dec_int port) = (Some res, e1)"
    using Some by (cases "sys_getaddrinfo sys e host (dec_int port)") simp
  obtain sock e2 where s: "sys_socket sys e1 = (sock, e2)" by fastforce
  obtain ok e3 where c: "connectWithTimeout sys sock res timeout_ms e2 = (ok, e3)" by fastforce
  have e1: "view e1 = (view e)\<lparr>kv_infos := kv_infos (view e) + 1\<rparr>"
    and free: "view (sys_freeaddrinfo sys x res) = (view x)\<lparr>kv_infos := kv_infos (view x) - 1\<rparr>" for x
    using laws g by (auto simp: sys_laws_def resolve_laws_def)
  have nosock: "sock < 0 \<Longrightarrow> view e2 = view e1"
    and sock: "sock \<ge> 0 \<Longrightarrow> sock \<notin> kv_open (view e1) \<and> kv_flags (view e2) sock AND O_NONBLOCK = 0 \<and>
      kv_open (view e2) = insert sock (kv_open (view e1)) \<and> kv_infos (view e2) = kv_infos (view e1)"
    and close: "view (sys_close sys x s) = (view x)\<lparr>kv_open := kv_open (view x) - {s}\<rparr>" for x s
    using laws s by (auto simp: sys_laws_def descriptor_laws_def)
  have cv: "kv_open (view e3) = kv_open (view e2)" "kv_infos (view e3) = kv_infos (view e2)" "ok \<Longrightarrow> view e3 = view e2"
    using connect_view [OF laws c] by simp_all
  consider "sock < 0" | "sock \<ge> 0" "\<not> ok" | "sock \<ge> 0" ok by linarith
  then show ?thesis
  proof cases
    case 1
    then show ?thesis using run g s nosock e1 by (auto simp: dial_def free)
  next
    case 2
    then show ?thesis using run g s c cv(1,2) sock e1 by (auto simp: dial_def free close)
  next
    case 3
    let ?e4 = "sys_freeaddrinfo sys e3 res"
    have "dial sys host port timeout_ms io_timeout_ms e = (sock, set_timeouts sys ?e4 sock (millis_tv io_timeout_ms))"
      using g s c 3 by (simp add: dial_def Let_def set_timeouts_def)
    then have e': "fd = sock" "e' = set_timeouts sys ?e4 sock (millis_tv io_timeout_ms)"
      using run by simp_all
    show ?thesis
      using set_timeouts_view [OF laws, of ?e4 sock] cv(3) [OF 3(2)] sock [OF 3(1)] 3(1) e1
      by (simp add: e' free)
  qed
qed

theorem dial_leaks_nothing_witness:
  "\<exists>e'. dial ex_sys ''n2'' 7000 5000 5000 ex_kernel = (3, e') \<and> kv_open e' = {0, 1, 2, 3} \<and>
    kv_infos e' = 0 \<and> kv_timeout e' 3 SO_RCVTIMEO = millis_tv 5000"
proof -
  have "fst (dial ex_sys ''n2'' 7000 5000 5000 ex_kernel) = 3"
    by (simp add: dial_def connectWithTimeout_def ex_sys_def ex_kernel_def Let_def millis_tv_def)
  then obtain e' where e': "dial ex_sys ''n2'' 7000 5000 5000 ex_kernel = (3, e')"
    by (cases "dial ex_sys ''n2'' 7000 5000 5000 ex_kernel") simp
  from dial_leaks_nothing [OF ex_sys_laws e'] have "kv_open e' = {0, 1, 2, 3}" "kv_infos e' = 0"
    "kv_timeout e' 3 SO_RCVTIMEO = millis_tv 5000"
    by (auto simp: ex_kernel_def)
  with e' show ?thesis by blast
qed

end
