(* ===== verification/Tcp.thy ===== *)
theory Tcp
  imports Node Framing Thread_Pool Tcp_Connect
begin

text \<open>
  net/tcp\_server.cpp and net/tcp\_client.cpp: the loop that serves framed requests on an accepted
  connection, the dispatch of accepted connections to the worker pool, and the one-shot client.
  A connection is what \<open>read\<close> will return, the schedule of its writes, the bytes written so far
  and the number of calls of \<open>close\<close>.  Listening, accepting and connecting are system calls:
  an accepted descriptor and the result of the dial are arguments.

  The server answers pipelined requests in order, one after the other, whatever the segmentation;
  it stops at the end of the stream or at the first malformed header and closes once.  Put
  together with the client, a one-shot exchange returns exactly the node's reply.
\<close>

unbundle bit_operations_syntax

record conn =
  cn_in :: "rd list"
  cn_writes :: "wr list"
  cn_out :: string
  cn_closed :: nat

section \<open>Server\<close>

text \<open>The helper \<open>reply\<close> of node.cpp ignores whether the frame could be written.\<close>

definition reply_fd :: "conn \<Rightarrow> string \<Rightarrow> conn" where
  "reply_fd c payload =
     (case sendFramed payload (cn_writes c) of (ok, out, ws) \<Rightarrow>
        c\<lparr>cn_out := cn_out c @ out, cn_writes := ws\<rparr>)"

definition close_fd :: "conn \<Rightarrow> conn" where
  "close_fd c = c\<lparr>cn_closed := Suc (cn_closed c)\<rparr>"

lemma readAll_pending: "readAll len got s = (r, s') \<Longrightarrow> pending s' \<le> pending s"
proof (induction len got s rule: readAll.induct)
  case (1 len got s)
  obtain x t where x: "read_fd (len - length got) s = (x, t)" by fastforce
  show ?case
  proof (cases "length got < len")
    case True
    have "pending t \<le> pending s"
    proof (cases "x = Eof")
      case True
      then show ?thesis using x
        by (induction "len - length got" s rule: read_fd.induct) (auto split: if_splits)
    next
      case False
      then show ?thesis using read_fd_pending [OF x] True by simp
    qed
    then show ?thesis
      using "1.prems" "1.IH" True x
      by (subst (asm) readAll.simps) (auto split: rd_result.splits)
  next
    case False
    then show ?thesis using "1.prems" by (simp add: readAll.simps [of len got s])
  qed
qed

lemma read_header_pending: "read_header l s = (Some h, s') \<Longrightarrow> pending s' < pending s"
proof (induction l s rule: read_header.induct)
  case (1 l s)
  obtain x t where x: "read_fd 1 s = (x, t)" by fastforce
  then have "x \<noteq> Eof \<Longrightarrow> pending t < pending s" using read_fd_pending by force
  then show ?case
    using "1.prems" "1.IH" x
    by (subst (asm) read_header.simps) (force simp: Let_def split: rd_result.splits if_splits)
qed

lemma recvFramed_pending: "recvFramed s = (Some payload, s') \<Longrightarrow> pending s' < pending s"
  by (force simp: recvFramed_def Let_def split: prod.splits option.splits if_splits
      dest: read_header_pending readAll_pending)

lemma replies_in: "cn_in (foldl reply_fd c rs) = cn_in c"
  by (induction rs arbitrary: c) (auto simp: reply_fd_def split: prod.splits)

text \<open>The loop of \<open>handleConnection\<close>; \<open>wd k\<close> is the surroundings of the node at request \<open>k\<close>.\<close>

function serve_requests ::
    "(nat \<Rightarrow> 'e world) \<Rightarrow> nat \<Rightarrow> conn \<Rightarrow> 's Node \<Rightarrow> 'e \<Rightarrow> (conn \<times> 's Node \<times> 'e) option" where
  "serve_requests wd k c n e =
     (case recvFramed (cn_in c) of
        (None, s) \<Rightarrow> Some (c\<lparr>cn_in := s\<rparr>, n, e)
      | (Some payload, s) \<Rightarrow>
          (case Node_handleRequest (wd k) payload n e of
             None \<Rightarrow> None
           | Some (replies, n, e) \<Rightarrow> serve_requests wd (Suc k) (foldl reply_fd (c\<lparr>cn_in := s\<rparr>) replies) n e))"
  by pat_completeness auto

termination
  by (relation "measure (\<lambda>(wd, k, c, n, e). pending (cn_in c))")
    (auto simp: replies_in dest!: recvFramed_pending [OF sym])

declare serve_requests.simps [simp del]

definition TCPServer_handleConnection ::
    "(nat \<Rightarrow> 'e world) \<Rightarrow> conn \<Rightarrow> 's Node \<Rightarrow> 'e \<Rightarrow> (conn \<times> 's Node \<times> 'e) option" where
  "TCPServer_handleConnection wd client_fd n e =
     (case serve_requests wd 0 client_fd n e of
        None \<Rightarrow> None
      | Some (c, n, e) \<Rightarrow> Some (close_fd c, n, e))"

text \<open>An accepted connection becomes a task of the pool, or is closed when the pool is stopping.\<close>

definition TCPServer_dispatch :: "conn ThreadPool \<Rightarrow> conn \<Rightarrow> conn option \<times> conn ThreadPool" where
  "TCPServer_dispatch pool fd =
     (case ThreadPool_enqueue pool fd of (ok, pool) \<Rightarrow> (if ok then None else Some (close_fd fd), pool))"

text \<open>The loop of \<open>start\<close> over what \<open>accept\<close> returns; a failed \<open>accept\<close> is skipped.  The first
  component lists the connections that were closed at once.\<close>

fun accept_loop :: "conn option list \<Rightarrow> conn ThreadPool \<Rightarrow> conn list \<times> conn ThreadPool" where
  "accept_loop [] pool = ([], pool)"
| "accept_loop (None # rs) pool = accept_loop rs pool"
| "accept_loop (Some fd # rs) pool =
     (case TCPServer_dispatch pool fd of (rej, pool) \<Rightarrow>
        (case accept_loop rs pool of (shut, pool) \<Rightarrow>
           (case rej of None \<Rightarrow> shut | Some c \<Rightarrow> c # shut, pool)))"

text \<open>The part of \<open>start\<close> before the loop.  Every failure ends the process.\<close>

datatype server_exit = SocketFailed | SetsockoptFailed | BindFailed | ListenFailed

record 'e listen_sys =
  ls_socket :: "'e \<Rightarrow> int \<times> 'e"
  ls_setsockopt :: "'e \<Rightarrow> int \<Rightarrow> u32 \<Rightarrow> int \<times> 'e"
  ls_bind :: "'e \<Rightarrow> int \<Rightarrow> string \<Rightarrow> u16 \<Rightarrow> int \<times> 'e"
  ls_listen :: "'e \<Rightarrow> int \<Rightarrow> nat \<Rightarrow> int \<times> 'e"

definition SO_REUSEADDR :: u32 where
  "SO_REUSEADDR = 2"

definition SO_REUSEPORT :: u32 where
  "SO_REUSEPORT = 15"

record TCPServer =
  ts_host :: string
  ts_port :: int
  ts_idle_timeout_ms :: int
  ts_pool :: "conn ThreadPool"

definition TCPServer_new :: "string \<Rightarrow> int \<Rightarrow> int \<Rightarrow> TCPServer" where
  "TCPServer_new h p idle =
     \<lparr>ts_host = h, ts_port = p, ts_idle_timeout_ms = idle, ts_pool = ThreadPool_new\<rparr>"

definition TCPServer_listen :: "'e listen_sys \<Rightarrow> TCPServer \<Rightarrow> 'e \<Rightarrow> (server_exit + int) \<times> 'e" where
  "TCPServer_listen ls srv e =
     (case ls_socket ls e of (server_fd, e) \<Rightarrow>
        if server_fd = 0 then (Inl SocketFailed, e)
        else case ls_setsockopt ls e server_fd (SO_REUSEADDR OR SO_REUSEPORT) of (rc, e) \<Rightarrow>
          if rc \<noteq> 0 then (Inl SetsockoptFailed, e)
          else case ls_bind ls e server_fd (ts_host srv) (word_of_int (ts_port srv)) of (rc, e) \<Rightarrow>
            if rc < 0 then (Inl BindFailed, e)
            else case ls_listen ls e server_fd 1024 of (rc, e) \<Rightarrow>
              if rc < 0 then (Inl ListenFailed, e) else (Inr server_fd, e))"

definition TCPServer_start ::
    "'e listen_sys \<Rightarrow> conn option list \<Rightarrow> TCPServer \<Rightarrow> 'e \<Rightarrow> (server_exit + conn list \<times> TCPServer) \<times> 'e" where
  "TCPServer_start ls accepted srv e =
     (case TCPServer_listen ls srv e of
        (Inl err, e) \<Rightarrow> (Inl err, e)
      | (Inr server_fd, e) \<Rightarrow>
          (case accept_loop accepted (ts_pool srv) of (shut, pool) \<Rightarrow>
             (Inr (shut, srv\<lparr>ts_pool := pool\<rparr>), e)))"

section \<open>Client\<close>

text \<open>A dialled socket: the schedule of its writes, and what it will read after it has written
  some bytes.\<close>

record client_sock =
  cs_writes :: "wr list"
  cs_reads :: "string \<Rightarrow> rd list"

record 'e dialer =
  dl_dial :: "'e \<Rightarrow> string \<Rightarrow> u16 \<Rightarrow> client_sock option \<times> 'e"
  dl_close :: "'e \<Rightarrow> 'e"

definition TCPClient_sendAndReceiveFramed ::
    "'e dialer \<Rightarrow> 'e \<Rightarrow> string \<Rightarrow> u16 \<Rightarrow> string \<Rightarrow> string \<times> 'e" where
  "TCPClient_sendAndReceiveFramed dl e h p payload =
     (case dl_dial dl e h p of
        (None, e) \<Rightarrow> ([], e)
      | (Some sock, e) \<Rightarrow>
          (case sendFramed payload (cs_writes sock) of (ok, out, ws) \<Rightarrow>
             if \<not> ok then ([], dl_close dl e)
             else case recvFramed (cs_reads sock out) of
               (None, s) \<Rightarrow> ([], dl_close dl e)
             | (Some reply, s) \<Rightarrow> (reply, dl_close dl e)))"

section \<open>Serving a stream\<close>

text \<open>The reference: the requests handled one after the other, with all replies in order.\<close>

fun handle_all ::
    "(nat \<Rightarrow> 'e world) \<Rightarrow> nat \<Rightarrow> string list \<Rightarrow> 's Node \<Rightarrow> 'e \<Rightarrow> (string list \<times> 's Node \<times> 'e) option" where
  "handle_all wd k [] n e = Some ([], n, e)"
| "handle_all wd k (p # ps) n e =
     (case Node_handleRequest (wd k) p n e of
        None \<Rightarrow> None
      | Some (replies, n, e) \<Rightarrow>
          (case handle_all wd (Suc k) ps n e of
             None \<Rightarrow> None
           | Some (rs, n, e) \<Rightarrow> Some (replies @ rs, n, e)))"

text \<open>What ends the loop: nothing, or a byte that no length starts with.\<close>

definition bad_tail :: "string \<Rightarrow> bool" where
  "bad_tail bs \<longleftrightarrow> bs = [] \<or> \<not> is_digit (hd bs)"

lemma read_fd_end: "no_error s \<Longrightarrow> stream_bytes s = [] \<Longrightarrow> read_fd n s = (r, s') \<Longrightarrow>
    r = Eof \<or> r = Intr \<and> no_error s' \<and> stream_bytes s' = []"
  by (induction n s rule: read_fd.induct) (auto simp: no_error_def split: if_splits)

lemma header_bad:
  assumes "no_error s" "bad_tail (stream_bytes s)"
  shows "fst (read_header [] s) = None \<or> fst (read_header [] s) = Some []"
  using assms
proof (induction "[] :: string" s rule: read_header.induct)
  case (1 s)
  obtain r t where r: "read_fd 1 s = (r, t)" by fastforce
  note eq = read_header.simps [of "[]" s, unfolded r prod.case]
  show ?case
  proof (cases "stream_bytes s = []")
    case True
    from read_fd_end [OF "1.prems"(1) True r] "1.hyps"(2) [OF r [symmetric]] show ?thesis
      unfolding eq by (auto simp: bad_tail_def)
  next
    case False
    from read_fd_cases [OF "1.prems"(1) zero_less_one False r]
    consider "r = Intr" "no_error t" "stream_bytes t = stream_bytes s"
      | c where "r = Got [c]" "stream_bytes s = c # stream_bytes t"
      by (auto simp: length_Suc_conv le_Suc_eq)
    then show ?thesis
    proof cases
      case 1
      with "1.hyps"(2) [OF r [symmetric]] "1.prems"(2) show ?thesis
        unfolding eq by simp
    next
      case (2 c)
      then have "\<not> is_digit c" using "1.prems"(2) by (simp add: bad_tail_def)
      then show ?thesis unfolding eq by (simp add: 2 Let_def)
    qed
  qed
qed

lemma recv_bad:
  assumes "no_error s" "bad_tail (stream_bytes s)"
  shows "fst (recvFramed s) = None"
  using header_bad [OF assms] by (auto simp: recvFramed_def split: prod.split option.split)

lemma replies_out:
  assumes "no_write_error (cn_writes c)"
  shows "cn_out (foldl reply_fd c rs) = cn_out c @ concat (map frame rs) \<and>
    no_write_error (cn_writes (foldl reply_fd c rs)) \<and> cn_closed (foldl reply_fd c rs) = cn_closed c"
  using assms
proof (induction rs arbitrary: c)
  case (Cons r rs)
  obtain ws where "sendFramed r (cn_writes c) = (True, frame r, ws)" "no_write_error ws"
    using send_frame [OF Cons.prems] by blast
  with Cons.IH [of "reply_fd c r"] show ?case by (simp add: reply_fd_def)
qed simp

lemma serve_in_order:
  assumes "no_error (cn_in c)" "no_write_error (cn_writes c)"
    and "stream_bytes (cn_in c) = concat (map frame ps) @ tail" "bad_tail tail"
    and "\<forall>p \<in> set ps. length p \<le> kMaxFrame" "handle_all wd k ps n e = Some (rs, n', e')"
  shows "\<exists>c'. serve_requests wd k c n e = Some (c', n', e') \<and>
    cn_out c' = cn_out c @ concat (map frame rs) \<and> cn_closed c' = cn_closed c"
  using assms
proof (induction ps arbitrary: c k n e rs)
  case Nil
  then have "fst (recvFramed (cn_in c)) = None" by (simp add: recv_bad)
  then obtain s where "recvFramed (cn_in c) = (None, s)" by (metis prod.collapse)
  with Nil.prems(6) show ?case by (simp add: serve_requests.simps [of wd k])
next
  case (Cons p ps)
  from recv_frame [of p "cn_in c" "concat (map frame ps) @ tail"] Cons.prems(1,3,5)
  obtain s where s: "recvFramed (cn_in c) = (Some p, s)" "stream_bytes s = concat (map frame ps) @ tail" "no_error s"
    by auto
  from Cons.prems(6) obtain replies n1 e1 rs1 where
    h: "Node_handleRequest (wd k) p n e = Some (replies, n1, e1)"
    "handle_all wd (Suc k) ps n1 e1 = Some (rs1, n', e')" "rs = replies @ rs1"
    by (auto split: option.splits)
  let ?c = "foldl reply_fd (c\<lparr>cn_in := s\<rparr>) replies"
  have c: "cn_in ?c = s" by (simp add: replies_in)
  note out = replies_out [of "c\<lparr>cn_in := s\<rparr>" replies]
  have "\<exists>c'. serve_requests wd (Suc k) ?c n1 e1 = Some (c', n', e') \<and>
      cn_out c' = cn_out ?c @ concat (map frame rs1) \<and> cn_closed c' = cn_closed ?c"
    using Cons.IH [of ?c "Suc k" n1 e1 rs1] c s(2,3) out Cons.prems(2,4,5) h(2) by simp
  then show ?case
    using s(1) h(1,3) out Cons.prems(2) by (auto simp: serve_requests.simps [of wd k])
qed

section \<open>Properties\<close>

text \<open>C16: a connection is served in order and closed once.  If the client's bytes are a sequence of
  framed requests - split by the network at any points, with any number of interrupted calls -
  followed by the end of the stream or by a byte that starts no length, and the writes make
  progress, then the node handles exactly these requests, one after the other; the bytes sent
  back are the frames of the replies in that order; and the descriptor is closed once.\<close>

theorem connection_served_in_order:
  assumes "no_error (cn_in c)" "no_write_error (cn_writes c)"
    and "stream_bytes (cn_in c) = concat (map frame ps) @ tail" "bad_tail tail"
    and "\<forall>p \<in> set ps. length p \<le> kMaxFrame" "handle_all wd 0 ps n e = Some (rs, n', e')"
  shows "\<exists>c'. TCPServer_handleConnection wd c n e = Some (c', n', e') \<and>
    cn_out c' = cn_out c @ concat (map frame rs) \<and> cn_closed c' = Suc (cn_closed c)"
  using serve_in_order [OF assms] by (auto simp: TCPServer_handleConnection_def close_fd_def)

definition ex_conn :: conn where
  "ex_conn = \<lparr>cn_in = [Chunk ''5'', RdIntr, Chunk (CHR 0x0A # ''RIN''), Chunk ''G|3'', Chunk (CHR 0x0A # ''FOOx'')],
     cn_writes = [Wrote 1, WrIntr, Wrote 3], cn_out = [], cn_closed = 0\<rparr>"

theorem connection_served_in_order_witness:
  "\<exists>c'. TCPServer_handleConnection (\<lambda>_. ex_world) ex_conn ex_node () = Some (c', ex_node, ()) \<and>
    cn_out c' = frame (Node_handleRingQuery ex_node) @ frame ''RESPONSE|ERROR|unknown_command'' \<and> cn_closed c' = 1"
proof -
  have f: "stream_bytes (cn_in ex_conn) = concat (map frame [''RING|'', ''FOO'']) @ ''x''" "bad_tail ''x''"
    by code_simp+
  have s: "splitAll ''RING|'' (CHR ''|'') = [''RING'', []]" "splitAll ''FOO'' (CHR ''|'') = [''FOO'']"
    by code_simp+
  have "handle_all (\<lambda>_. ex_world) 0 [''RING|'', ''FOO''] ex_node () =
      Some ([Node_handleRingQuery ex_node, ''RESPONSE|ERROR|unknown_command''], ex_node, ())"
    by (simp add: Node_handleRequest_def s field_def Let_def)
  from connection_served_in_order [OF _ _ f _ this] show ?thesis
    by (simp add: ex_conn_def no_error_def no_write_error_def kMaxFrame_def)
qed

text \<open>A one-shot exchange with a node returns exactly its reply.  The client's frame reaches the
  server in any segmentation, the server's bytes reach the client in any segmentation; then the
  client's result is the reply that the node's handler produced for this payload, the node is
  left in the handler's state, the server closes its descriptor once and the client its own.\<close>

theorem one_shot_exchange:
  assumes "dl_dial dl e h p = (Some sock, e1)" "no_write_error (cs_writes sock)"
    and "no_error (cn_in c)" "no_write_error (cn_writes c)" "cn_out c = []"
    and "stream_bytes (cn_in c) = frame payload" "length payload \<le> kMaxFrame"
    and "Node_handleRequest (wd 0) payload n e2 = Some ([reply], n', e3)" "length reply \<le> kMaxFrame"
    and "\<And>c' n'' e''. TCPServer_handleConnection wd c n e2 = Some (c', n'', e'') \<Longrightarrow>
      no_error (cs_reads sock (frame payload)) \<and> stream_bytes (cs_reads sock (frame payload)) = cn_out c'"
  shows "TCPClient_sendAndReceiveFramed dl e h p payload = (reply, dl_close dl e1) \<and>
    (\<exists>c'. TCPServer_handleConnection wd c n e2 = Some (c', n', e3) \<and> cn_closed c' = Suc (cn_closed c))"
proof -
  have "\<exists>c'. serve_requests wd 0 c n e2 = Some (c', n', e3) \<and>
      cn_out c' = cn_out c @ concat (map frame [reply]) \<and> cn_closed c' = cn_closed c"
    using assms(3-8) by (intro serve_in_order [where ps = "[payload]" and tail = "[]"]) (simp_all add: bad_tail_def)
  then obtain c' where c': "TCPServer_handleConnection wd c n e2 = Some (close_fd c', n', e3)"
    "cn_out c' = frame reply" "cn_closed c' = cn_closed c"
    using assms(5) by (auto simp: TCPServer_handleConnection_def)
  then have "no_error (cs_reads sock (frame payload))" "stream_bytes (cs_reads sock (frame payload)) = frame reply @ []"
    using assms(10) [OF c'(1)] by (simp_all add: close_fd_def)
  with recv_frame [OF assms(9)] obtain s where "recvFramed (cs_reads sock (frame payload)) = (Some reply, s)" by blast
  moreover obtain ws where "sendFramed payload (cs_writes sock) = (True, frame payload, ws)"
    using send_frame [OF assms(2)] by blast
  ultimately show ?thesis using assms(1) c' by (simp add: TCPClient_sendAndReceiveFramed_def close_fd_def)
qed

definition ex_dialer :: "nat dialer" where
  "ex_dialer = \<lparr>dl_dial = \<lambda>e h p. (Some \<lparr>cs_writes = [Wrote 2], cs_reads =
     (\<lambda>out. [Chunk (take 7 (frame ''RESPONSE|ERROR|unknown_command'')), RdIntr,
             Chunk (drop 7 (frame ''RESPONSE|ERROR|unknown_command''))])\<rparr>, Suc e), dl_close = \<lambda>e. e - 1\<rparr>"

theorem one_shot_exchange_witness:
  "TCPClient_sendAndReceiveFramed ex_dialer 0 ''h'' 1 ''FOO'' = (''RESPONSE|ERROR|unknown_command'', 0)"
proof -
  let ?c = "\<lparr>cn_in = [Chunk (frame ''FOO'')], cn_writes = [], cn_out = [], cn_closed = 0\<rparr>"
  have s: "splitAll ''FOO'' (CHR ''|'') = [''FOO'']" by code_simp
  have h: "Node_handleRequest ex_world ''FOO'' ex_node () = Some ([''RESPONSE|ERROR|unknown_command''], ex_node, ())"
    by (simp add: Node_handleRequest_def s field_def Let_def)
  have served: "cn_out c' = frame ''RESPONSE|ERROR|unknown_command''"
    if "TCPServer_handleConnection (\<lambda>_. ex_world) ?c ex_node () = Some (c', n, e)" for c' n e
    using that serve_in_order [of ?c "[''FOO'']" "[]" "\<lambda>_. ex_world" 0 ex_node "()"] h
    by (auto simp: TCPServer_handleConnection_def no_error_def no_write_error_def bad_tail_def kMaxFrame_def close_fd_def)
  have d: "dl_dial ex_dialer 0 ''h'' 1 = (Some (the (fst (dl_dial ex_dialer 0 ''h'' 1))), 1)"
    by (simp add: ex_dialer_def)
  have "TCPClient_sendAndReceiveFramed ex_dialer 0 ''h'' 1 ''FOO'' =
      (''RESPONSE|ERROR|unknown_command'', dl_close ex_dialer 1) \<and>
    (\<exists>c'. TCPServer_handleConnection (\<lambda>_. ex_world) ?c ex_node () = Some (c', ex_node, ()) \<and>
       cn_closed c' = Suc (cn_closed ?c))"
    by (rule one_shot_exchange [OF d _ _ _ _ _ _ h])
      (use served in \<open>simp_all add: ex_dialer_def no_error_def no_write_error_def kMaxFrame_def\<close>)
  then show ?thesis by (simp add: ex_dialer_def)
qed

section \<open>Accepting connections\<close>

text \<open>Every accepted connection is queued for a worker, in order; a stopping pool closes each once.\<close>

lemma accept_loop_dispatches:
  "accept_loop rs pool =
     (if stopping pool then (map close_fd (map the (filter (\<lambda>r. r \<noteq> None) rs)), pool)
      else ([], pool\<lparr>tasks := tasks pool @ map the (filter (\<lambda>r. r \<noteq> None) rs)\<rparr>))"
  by (induction rs pool rule: accept_loop.induct)
    (auto simp: TCPServer_dispatch_def ThreadPool_enqueue_def split: option.split)

text \<open>The two option numbers are combined with a bitwise or, which is the number of the second.\<close>

lemma reuse_option_is_reuseport: "SO_REUSEADDR OR SO_REUSEPORT = SO_REUSEPORT"
  by (simp add: SO_REUSEADDR_def SO_REUSEPORT_def)

text \<open>A failing \<open>socket\<close> returns -1, which passes the check against 0.\<close>

lemma failed_socket_not_detected:
  assumes "ls_socket ls e = (-1, e1)" "ls_setsockopt ls e1 (-1) (SO_REUSEADDR OR SO_REUSEPORT) = (-1, e2)"
  shows "TCPServer_listen ls srv e = (Inl SetsockoptFailed, e2)"
  using assms by (simp add: TCPServer_listen_def)

end
