(* ===== verification/Process.thy ===== *)
theory Process
  imports Tcp Anti_Entropy
begin

text \<open>
  main.cpp: reading the configuration from the environment, wiring the components, and the
  callbacks that connect them.  The environment variables are a function; an uncaught exception
  of \<open>stoi\<close> ends the process and is the value \<open>UncaughtStoi\<close>.

  The running process is a record of the node (whose coordinator holds the router, the store,
  the metrics and the hint store that main.cpp shares by pointer), the handoff thread and the
  anti-entropy thread.  Its steps are a request, a gossip tick, a handoff pass and an anti-entropy
  round, each followed by the member-change callbacks that main.cpp registered.

  Shown: a process with an unusable node id starts nothing; in every reachable state hints are
  kept only for nodes of the ring, so none for a node that has left, and the ring gauge is the
  size of the ring; a delivered hint is stored by the recovered node.
\<close>

type_synonym environ = "string \<Rightarrow> string option"

section \<open>Configuration\<close>

definition getenv_str :: "environ \<Rightarrow> string \<Rightarrow> string \<Rightarrow> string" where
  "getenv_str env var default_val = (case env var of None \<Rightarrow> default_val | Some val \<Rightarrow> val)"

definition trim_spaces :: "string \<Rightarrow> string" where
  "trim_spaces token =
     rev (dropWhile (\<lambda>c. c = CHR '' '') (rev (dropWhile (\<lambda>c. c = CHR '' '') token)))"

definition split_csv :: "string \<Rightarrow> string list" where
  "split_csv s =
     (if s = [] then []
      else map trim_spaces (filter (\<lambda>token. \<exists>c \<in> set token. c \<noteq> CHR '' '') (getline_all s (CHR '',''))))"

datatype engine_choice = RocksDB string | InMemory

definition makeStorage :: "bool \<Rightarrow> environ \<Rightarrow> string \<Rightarrow> engine_choice" where
  "makeStorage have_rocksdb env i =
     (if have_rocksdb \<and> getenv_str env ''STORAGE_ENGINE'' ''rocksdb'' \<noteq> ''memory''
      then RocksDB (getenv_str env ''DATA_DIR'' (''/data/'' @ i)) else InMemory)"

datatype metrics_choice = PrometheusBackend string | InMemoryBackend

definition makeMetrics :: "bool \<Rightarrow> environ \<Rightarrow> metrics_choice" where
  "makeMetrics have_prometheus env =
     (if have_prometheus then PrometheusBackend (''0.0.0.0:'' @ getenv_str env ''METRICS_PORT'' ''9100'')
      else InMemoryBackend)"

datatype boot_error = UncaughtStoi string | InvalidNodeId

definition env_int :: "environ \<Rightarrow> string \<Rightarrow> string \<Rightarrow> boot_error + int" where
  "env_int env var default_val =
     (case stoi (getenv_str env var default_val) of None \<Rightarrow> Inl (UncaughtStoi var) | Some i \<Rightarrow> Inr i)"

fun and_then :: "'e + 'a \<Rightarrow> ('a \<Rightarrow> 'e + 'b) \<Rightarrow> 'e + 'b" where
  "and_then (Inl err) f = Inl err"
| "and_then (Inr x) f = f x"

text \<open>\<open>static_cast<size_t>\<close> of an \<open>int\<close>.\<close>

definition size_of_int :: "int \<Rightarrow> nat" where
  "size_of_int i = unat (word_of_int i :: u64)"

record Config =
  cf_info :: NodeInfo
  cf_host :: string
  cf_seeds :: "string list"
  cf_vnodes :: int
  cf_pool_max :: nat
  cf_pool_reap :: int
  cf_quorum :: QuorumConfig
  cf_workers :: nat

definition QuorumConfig_new :: QuorumConfig where
  "QuorumConfig_new = \<lparr>qc_N = 3, qc_W = 2, qc_R = 2, max_clock_entries = 20\<rparr>"

definition read_seeds :: "environ \<Rightarrow> boot_error + string list" where
  "read_seeds env =
     (let seeds = split_csv (getenv_str env ''SEED_NODES'' []);
          bootstrap_ip = getenv_str env ''BOOTSTRAP_IP'' []
      in and_then (env_int env ''BOOTSTRAP_PORT'' ''0'') (\<lambda>p.
           Inr (if bootstrap_ip \<noteq> [] \<and> seeds = []
                then [bootstrap_ip @ '':'' @ dec_word (u16_of_int p)] else seeds)))"

text \<open>Everything that main.cpp reads before the server thread starts, in its order.\<close>

definition read_config :: "environ \<Rightarrow> boot_error + Config" where
  "read_config env =
     (let i = getenv_str env ''NODE_ID'' []
      in and_then (env_int env ''NODE_PORT'' []) (\<lambda>port.
         if \<not> isValidNodeId i then Inl InvalidNodeId
         else and_then (read_seeds env) (\<lambda>seeds.
         and_then (env_int env ''VNODES'' ''128'') (\<lambda>vnodes.
         and_then (env_int env ''POOL_MAX_CONNS_PER_PEER'' ''4'') (\<lambda>pool_max.
         and_then (env_int env ''POOL_IDLE_REAP_SECONDS'' ''60'') (\<lambda>reap.
         and_then (env_int env ''MAX_CLOCK_ENTRIES'' ''20'') (\<lambda>entries.
         and_then (env_int env ''WORKER_THREADS'' ''64'') (\<lambda>workers.
         Inr \<lparr>cf_info = mkNodeInfo i (getenv_str env ''ADVERTISE_HOST'' i) (u16_of_int port),
              cf_host = getenv_str env ''HOST'' ''0.0.0.0'', cf_seeds = seeds, cf_vnodes = vnodes,
              cf_pool_max = size_of_int pool_max, cf_pool_reap = reap,
              cf_quorum = QuorumConfig_new\<lparr>max_clock_entries := size_of_int entries\<rparr>,
              cf_workers = size_of_int workers\<rparr>))))))))"

definition read_gossip_config :: "environ \<Rightarrow> boot_error + GossipConfig" where
  "read_gossip_config env =
     and_then (env_int env ''GOSSIP_PERIOD_MS'' ''1000'') (\<lambda>period.
     and_then (env_int env ''GOSSIP_PING_TIMEOUT_MS'' ''200'') (\<lambda>_.
     and_then (env_int env ''GOSSIP_K'' ''3'') (\<lambda>k.
     and_then (env_int env ''GOSSIP_SUSPICION_MULT'' ''5'') (\<lambda>mult.
     Inr \<lparr>protocol_period = period, indirect_probe_count = k, cfg_suspicion_mult = mult\<rparr>))))"

section \<open>The running process\<close>

record 's process =
  ps_node :: "'s Node"
  ps_handoff :: HandoffThread
  ps_antientropy :: "'s AntiEntropyThread"

abbreviation router_of :: "'s Node \<Rightarrow> Router" where
  "router_of n \<equiv> c_router (n_coordinator n)"

text \<open>\<open>metrics_ptr->setRingNodes(router.physicalCount())\<close>\<close>

definition set_ring_gauge :: "'s Node \<Rightarrow> 's Node" where
  "set_ring_gauge n =
     n\<lparr>n_coordinator := (n_coordinator n)\<lparr>c_metrics :=
        InMemoryMetrics_setRingNodes (word_of_nat (Router_physicalCount (router_of n)))
          (c_metrics (n_coordinator n))\<rparr>\<rparr>"

text \<open>\<open>incMembershipSync\<close>, called for each full-state exchange that gossip reports.\<close>

definition count_syncs :: "nat \<Rightarrow> 's Node \<Rightarrow> 's Node" where
  "count_syncs k n =
     n\<lparr>n_coordinator := (n_coordinator n)\<lparr>c_metrics :=
        (InMemoryMetrics_incMembershipSync ^^ k) (c_metrics (n_coordinator n))\<rparr>\<rparr>"

definition clear_reports :: "GossipThread \<Rightarrow> GossipThread" where
  "clear_reports g = g\<lparr>g_fired := [], g_syncs := 0\<rparr>"

text \<open>The callback that reacts to recoveries and departures.\<close>

fun handoff_callback :: "NodeInfo \<times> MemberState \<Rightarrow> 's process \<Rightarrow> 's process" where
  "handoff_callback (i, MemberState.Alive) p =
     p\<lparr>ps_handoff := HandoffThread_notifyRecovery (ps_handoff p) i\<rparr>"
| "handoff_callback (i, MemberState.Left) p =
     (case c_hint_store (n_coordinator (ps_node p)) of
        None \<Rightarrow> p
      | Some hs \<Rightarrow> p\<lparr>ps_node := Node_setHintStore (snd (HintStore_dropTarget hs (node_id i))) (ps_node p)\<rparr>)"
| "handoff_callback (i, _) p = p"

text \<open>The callbacks registered after the ring's, run on the member changes that a step reported.\<close>

definition run_callbacks :: "'s process \<Rightarrow> 's process" where
  "run_callbacks p =
     (case n_gossip (ps_node p) of
        None \<Rightarrow> p
      | Some g \<Rightarrow>
          (let p = p\<lparr>ps_node := count_syncs (g_syncs g) ((ps_node p)\<lparr>n_gossip := Some (clear_reports g)\<rparr>)\<rparr>;
               p = (if g_fired g = [] then p else p\<lparr>ps_node := set_ring_gauge (ps_node p)\<rparr>)
           in fold handoff_callback (g_fired g) p))"

text \<open>\<open>gossip.swim().isAlive\<close> as the coordinator's liveness check.\<close>

definition refresh_liveness :: "'s Node \<Rightarrow> 's Node" where
  "refresh_liveness n =
     (case n_gossip n of
        None \<Rightarrow> n
      | Some g \<Rightarrow> Node_setLivenessCheck (Swim_isAlive (g_swim g)) n)"

definition process_request ::
    "'e world \<Rightarrow> string \<Rightarrow> 's process \<Rightarrow> 'e \<Rightarrow> (string list \<times> 's process \<times> 'e) option" where
  "process_request wd payload p e =
     (case Node_handleRequest wd payload (refresh_liveness (ps_node p)) e of
        None \<Rightarrow> None
      | Some (replies, n, e) \<Rightarrow> Some (replies, run_callbacks (p\<lparr>ps_node := n\<rparr>), e))"

definition process_tick :: "'e net \<Rightarrow> 's process \<Rightarrow> 'e \<Rightarrow> 's process \<times> 'e" where
  "process_tick net p e =
     (case n_gossip (ps_node p) of
        None \<Rightarrow> (p, e)
      | Some g \<Rightarrow>
          (case GossipThread_tick net (share_router (ps_node p) g) e of (g, e) \<Rightarrow>
             (run_callbacks (p\<lparr>ps_node := take_gossip g (ps_node p)\<rparr>), e)))"

text \<open>\<open>resp.find("RESPONSE|OK") != npos\<close>\<close>

fun str_contains :: "string \<Rightarrow> string \<Rightarrow> bool" where
  "str_contains pat [] = (pat = [])"
| "str_contains pat (c # cs) = (take (length pat) (c # cs) = pat \<or> str_contains pat cs)"

type_synonym 'e send_fn = "'e \<Rightarrow> string \<Rightarrow> u16 \<Rightarrow> string \<Rightarrow> string \<times> 'e"

text \<open>\<open>deliver_fn\<close> also counts the delivery, so its environment holds the metrics.\<close>

definition main_deliver_fn :: "'e send_fn \<Rightarrow> ('e \<times> InMemoryMetrics) deliver_fn" where
  "main_deliver_fn send em target key v =
     (case em of (e, m) \<Rightarrow>
        (case send e (host target) (port target) (write_msg ''hint'' key v) of (resp, e) \<Rightarrow>
           (let ok = str_contains ''RESPONSE|OK'' resp
            in (ok, (e, if ok then InMemoryMetrics_incHintDelivered m else m)))))"

definition main_exchange_fn :: "'e \<Rightarrow> NodeInfo \<Rightarrow> MerkleTree \<Rightarrow> MerkleTree \<times> 'e" where
  "main_exchange_fn e peer ours = (MerkleTree_new kDefaultDepth, e)"

definition main_pull_fn :: "'e \<Rightarrow> NodeInfo \<Rightarrow> u64 \<Rightarrow> u64 \<Rightarrow> (string \<times> VersionedValue) list \<times> 'e" where
  "main_pull_fn e peer lo hi = ([], e)"

definition main_push_fn :: "'e send_fn \<Rightarrow> 'e \<Rightarrow> NodeInfo \<Rightarrow> string \<Rightarrow> VersionedValue \<Rightarrow> bool \<times> 'e" where
  "main_push_fn send e peer key v =
     (case send e (host peer) (port peer) (write_msg ''ae'' key v) of (resp, e) \<Rightarrow>
        (str_contains ''RESPONSE|OK'' resp, e))"

definition main_ae_fns :: "'e send_fn \<Rightarrow> 'e ae_fns" where
  "main_ae_fns send =
     \<lparr>exchange_fn = main_exchange_fn, pull_fn = main_pull_fn, push_fn = main_push_fn send\<rparr>"

text \<open>One pass of the handoff thread and one anti-entropy round, on the shared store.\<close>

definition process_handoff :: "'e send_fn \<Rightarrow> int \<Rightarrow> 's process \<Rightarrow> 'e \<Rightarrow> 's process \<times> 'e" where
  "process_handoff send now p e =
     (let c = n_coordinator (ps_node p)
      in case c_hint_store c of
           None \<Rightarrow> (p, e)
         | Some hs \<Rightarrow>
             (case HandoffThread_run_once now (main_deliver_fn send) ((ps_handoff p)\<lparr>ht_store := hs\<rparr>)
                 (e, c_metrics c) of
                (ht, e, m) \<Rightarrow>
                  (p\<lparr>ps_handoff := ht,
                     ps_node := (ps_node p)\<lparr>n_coordinator := c\<lparr>c_hint_store := Some (ht_store ht), c_metrics := m\<rparr>\<rparr>\<rparr>, e)))"

definition process_antientropy ::
    "'e send_fn \<Rightarrow> (nat \<Rightarrow> nat) \<Rightarrow> 's process \<Rightarrow> 'e \<Rightarrow> ('s process \<times> 'e) option" where
  "process_antientropy send pick p e =
     (let c = n_coordinator (ps_node p);
          a = (ps_antientropy p)\<lparr>ae_router := c_router c, ae_storage := c_storage c\<rparr>
      in case AntiEntropyThread_tick (c_engine c) (main_ae_fns send) pick a e of
           None \<Rightarrow> None
         | Some (a, e) \<Rightarrow>
             Some (p\<lparr>ps_antientropy := a,
                     ps_node := (ps_node p)\<lparr>n_coordinator := c\<lparr>c_storage := ae_storage a\<rparr>\<rparr>\<rparr>, e))"

section \<open>Starting up\<close>

text \<open>The result is paired with the environment: what an aborted start has already sent.\<close>

definition boot ::
    "environ \<Rightarrow> 's StorageEngine \<Rightarrow> 's \<Rightarrow> 'e net \<Rightarrow> 'e \<Rightarrow> (boot_error + 's process) \<times> 'e" where
  "boot env E st net e =
     (case read_config env of
        Inl err \<Rightarrow> (Inl err, e)
      | Inr cf \<Rightarrow>
          (case read_gossip_config env of
             Inl err \<Rightarrow> (Inl err, e)
           | Inr gc \<Rightarrow>
               (let me = cf_info cf;
                    router = Router_addPhysicalNode (Router_new (cf_vnodes cf)) me;
                    n = Node_new me router E st (cf_quorum cf);
                    g = GossipThread_new me router gc;
                    n = set_ring_gauge (Node_setGossipThread g n)
                in case (if cf_seeds cf = [] then (g, e) else GossipThread_joinViaSeeds net (cf_seeds cf) g e) of
                     (g, e) \<Rightarrow>
                       (let n = count_syncs (g_syncs g) (take_gossip (clear_reports g) n);
                            n = (if g_fired g = [] then n else set_ring_gauge n)
                        in case env_int env ''HINT_TTL_SECONDS'' ''10800'' of
                             Inl err \<Rightarrow> (Inl err, e)
                           | Inr ttl \<Rightarrow>
                               (let hs = HintStore_new ttl 10000;
                                    n = refresh_liveness (Node_setHintStore hs n)
                                in case env_int env ''ANTIENTROPY_INTERVAL_SECONDS'' ''300'' of
                                     Inl err \<Rightarrow> (Inl err, e)
                                   | Inr _ \<Rightarrow>
                                       (Inr \<lparr>ps_node = n,
                                             ps_handoff = \<lparr>ht_store = hs, ht_recovery_queue = [], ht_delivered = 0\<rparr>,
                                             ps_antientropy = AntiEntropyThread_new me (router_of n)
                                               (c_storage (n_coordinator n))\<rparr>, e))))))"

text \<open>What the threads of a running process do, in any order and in any surroundings.\<close>

inductive process_step :: "'s process \<times> 'e \<Rightarrow> 's process \<times> 'e \<Rightarrow> bool" where
  request: "process_request wd payload p e = Some (replies, p', e') \<Longrightarrow> process_step (p, e) (p', e')"
| tick: "process_tick net p e = (p', e') \<Longrightarrow> process_step (p, e) (p', e')"
| handoff: "process_handoff send now p e = (p', e') \<Longrightarrow> process_step (p, e) (p', e')"
| antientropy: "process_antientropy send pick p e = Some (p', e') \<Longrightarrow> process_step (p, e) (p', e')"
| surroundings: "process_step (p, e) (p, e')"

inductive_cases process_stepE: "process_step (p, e) (p', e')"

section \<open>Hints stay within the ring\<close>

definition hints_in_ring :: "'s Node \<Rightarrow> bool" where
  "hints_in_ring n \<longleftrightarrow>
     (\<forall>hs. c_hint_store (n_coordinator n) = Some hs \<longrightarrow>
        hints_wf hs \<and> (\<forall>i. hints_for hs i \<noteq> [] \<longrightarrow> i \<in> om_keys (nodes (router_of n))))"

definition gauge_ok :: "'s Node \<Rightarrow> bool" where
  "gauge_ok n \<longleftrightarrow> ring_nodes (c_metrics (n_coordinator n)) = word_of_nat (Router_physicalCount (router_of n))"

definition nodes_keyed :: "Router \<Rightarrow> bool" where
  "nodes_keyed r \<longleftrightarrow> (\<forall>e \<in> set (nodes r). node_id (snd e) = fst e)"

definition process_wf :: "'s process \<Rightarrow> bool" where
  "process_wf p \<longleftrightarrow>
     (\<exists>g. n_gossip (ps_node p) = Some g \<and> g_fired g = [] \<and> g_syncs g = 0) \<and> node_wf (ps_node p) \<and>
     c_hint_store (n_coordinator (ps_node p)) \<noteq> None \<and> hints_in_ring (ps_node p) \<and> gauge_ok (ps_node p) \<and> nodes_keyed (router_of (ps_node p))"

text \<open>The ring loses a node only to a reported departure.\<close>

lemma nodes_addPhysicalNode:
  "nodes (Router_addPhysicalNode r n) =
     (if map_of (nodes r) (node_id n) \<noteq> None then nodes r else om_put (node_id n) n (nodes r))"
proof -
  have "nodes (fold (Router_insertVNode n) xs r) = nodes r" for xs r
    by (induction xs arbitrary: r) (simp_all add: Router_insertVNode_def)
  then show ?thesis by (simp add: Router_addPhysicalNode_def)
qed

lemma on_member_change_keyed: "nodes_keyed r \<Longrightarrow> nodes_keyed (on_member_change cb r)"
  using set_om_put [of "node_id (fst cb)" "fst cb" "nodes r"]
  by (cases "(cb, r)" rule: on_member_change.cases)
    (auto simp: nodes_keyed_def nodes_addPhysicalNode Router_removePhysicalNode_def om_del_def)

lemma fold_keyed: "nodes_keyed r \<Longrightarrow> nodes_keyed (fold on_member_change cbs r)"
  by (induction cbs arbitrary: r) (simp_all add: on_member_change_keyed)

lemma ring_loses_departed:
  assumes "i \<in> om_keys (nodes r)" "i \<notin> om_keys (nodes (fold on_member_change cbs r))"
  shows "\<exists>n. (n, MemberState.Left) \<in> set cbs \<and> node_id n = i"
  using assms
proof (induction cbs arbitrary: r)
  case (Cons cb cbs)
  show ?case
  proof (cases "i \<in> om_keys (nodes (on_member_change cb r))")
    case True
    then show ?thesis using Cons.IH [OF True] Cons.prems(2) by auto
  next
    case False
    then show ?thesis using Cons.prems(1) by (cases "(cb, r)" rule: on_member_change.cases) auto
  qed
qed simp

lemma owners_loop_nodes:
  assumes "owners_loop r k it st = Some os"
  shows "set os \<subseteq> set (snd st) \<union> snd ` set (nodes r)"
proof (rule owners_loop.raw_induct [where P = "\<lambda>r k it st os. set os \<subseteq> set (snd st) \<union> snd ` set (nodes r)",
      OF _ assms])
  fix loop r k it st os
  assume IH: "\<And>r k it st os. loop r k it st = Some os \<Longrightarrow> set os \<subseteq> set (snd st) \<union> snd ` set (nodes r)"
    and body: "(if \<not> (int (length (snd st)) < k \<and> ring r \<noteq> []) then Some (snd st)
      else if length (fst (owners_step r it st)) = length (nodes r) then Some (snd (owners_step r it st))
      else loop r k (next_it r it) (owners_step r it st)) = Some os"
  have "n \<in> snd ` set (nodes r)" if "map_of (nodes r) i = Some n" for i n
    using that by (metis image_eqI map_of_SomeD snd_conv)
  then have step: "set (snd (owners_step r it st)) \<subseteq> set (snd st) \<union> snd ` set (nodes r)"
    by (auto simp: owners_step_def Let_def split: option.split)
  show "set os \<subseteq> set (snd st) \<union> snd ` set (nodes r)"
    using body IH [of r k "next_it r it" "owners_step r it st" os] step by (auto split: if_splits)
qed

lemma findOwners_in_ring:
  assumes "nodes_keyed r" "Router_findOwners r key n = Some owners"
  shows "node_id ` set owners \<subseteq> om_keys (nodes r)"
proof -
  have "set owners \<subseteq> snd ` set (nodes r)"
    using assms(2) owners_loop_nodes by (fastforce simp: Router_findOwners_def Let_def split: if_splits)
  then show ?thesis using assms(1) by (force simp: nodes_keyed_def om_keys_def)
qed

section \<open>What client requests change\<close>

definition coord_grows :: "'s Coordinator \<Rightarrow> 's Coordinator \<Rightarrow> bool" where
  "coord_grows c c' \<longleftrightarrow>
     c_router c' = c_router c \<and> ring_nodes (c_metrics c') = ring_nodes (c_metrics c) \<and>
     (c_hint_store c' = None \<longleftrightarrow> c_hint_store c = None) \<and>
     (\<forall>hs'. c_hint_store c' = Some hs' \<longrightarrow> (\<exists>hs. c_hint_store c = Some hs \<and> (hints_wf hs \<longrightarrow> hints_wf hs') \<and>
        (\<forall>i. hints_for hs' i \<noteq> [] \<longrightarrow> hints_for hs i \<noteq> [] \<or> i \<in> om_keys (nodes (c_router c)))))"

lemma coord_grows_refl [simp]: "coord_grows c c"
  by (simp add: coord_grows_def)

lemma coord_grows_trans: "\<lbrakk> coord_grows a b; coord_grows b c \<rbrakk> \<Longrightarrow> coord_grows a c"
  unfolding coord_grows_def by metis

lemma metrics_keep_gauge [simp]:
  "ring_nodes (InMemoryMetrics_incRequest op m) = ring_nodes m"
  "ring_nodes (InMemoryMetrics_incQuorumSuccess op m) = ring_nodes m"
  "ring_nodes (InMemoryMetrics_incQuorumFailure op m) = ring_nodes m"
  "ring_nodes (InMemoryMetrics_incReadRepair m) = ring_nodes m"
  "ring_nodes (InMemoryMetrics_incHintStored m) = ring_nodes m"
  "ring_nodes (InMemoryMetrics_incHintDelivered m) = ring_nodes m"
  by (simp_all add: InMemoryMetrics_incRequest_def InMemoryMetrics_incQuorumSuccess_def
      InMemoryMetrics_incQuorumFailure_def InMemoryMetrics_incReadRepair_def
      InMemoryMetrics_incHintStored_def InMemoryMetrics_incHintDelivered_def)

lemma write_owner_grows:
  assumes "write_owner now key vv owners o1 (c, n, rs) = (c', n', rs')"
    "node_id o1 \<in> om_keys (nodes (c_router c))"
  shows "coord_grows c c'"
  using assms
  by (fastforce simp: write_owner_def coord_grows_def Let_def store_wf split: if_splits option.splits)

lemma write_fold_grows:
  assumes "fold (write_owner now key vv owners) os (c, n, rs) = (c', n', rs')"
    "node_id ` set os \<subseteq> om_keys (nodes (c_router c))"
  shows "coord_grows c c'"
  using assms
proof (induction os arbitrary: c n rs)
  case (Cons o1 os)
  obtain c1 n1 rs1 where w: "write_owner now key vv owners o1 (c, n, rs) = (c1, n1, rs1)"
    by (rule prod_cases3)
  have 1: "coord_grows c c1" using write_owner_grows [OF w] Cons.prems(2) by simp
  then have "node_id ` set os \<subseteq> om_keys (nodes (c_router c1))"
    using Cons.prems(2) by (simp add: coord_grows_def)
  with Cons.IH [of c1 n1 rs1] Cons.prems(1) w have "coord_grows c1 c'" by simp
  with 1 show ?case by (rule coord_grows_trans)
qed simp

lemma writeQuorum_grows:
  assumes "Coordinator_writeQuorum rc fo now key vv N W op c e = Some (pr, c', e')" "nodes_keyed (c_router c)"
  shows "coord_grows c c'"
proof -
  obtain owners where o: "Router_findOwners (c_router c) key N = Some owners"
    using assms(1) by (auto simp: Coordinator_writeQuorum_def split: option.splits)
  obtain c1 n rs where plan: "write_plan now key vv owners c = (c1, n, rs)"
    by (rule prod_cases3)
  have "coord_grows c c1"
    using write_fold_grows plan findOwners_in_ring [OF assms(2) o] unfolding write_plan_def by blast
  then show ?thesis
    using assms(1) o plan
    by (auto simp: Coordinator_writeQuorum_def coord_grows_def Let_def split: if_splits prod.splits)
qed

lemma repair_grows: "Coordinator_repairAsync rc p key v c e = (c', e') \<Longrightarrow> coord_grows c c'"
  by (auto simp: Coordinator_repairAsync_def coord_grows_def Let_def split: if_splits)

lemma repair_all_grows:
  assumes "repair_all rc key best rs c e = (c', e')"
  shows "coord_grows c c'"
proof -
  have "coord_grows c (fst (fold (\<lambda>r (c, e). if is_stale best r then Coordinator_repairAsync rc (r_peer r) key best c e
      else (c, e)) rs (c, e)))" for c e
  proof (induction rs arbitrary: c e)
    case (Cons r rs)
    obtain c1 e1 where s: "(if is_stale best r then Coordinator_repairAsync rc (r_peer r) key best c e else (c, e)) = (c1, e1)"
      by fastforce
    then have "coord_grows c c1" using repair_grows by (auto split: if_splits)
    with Cons [of c1 e1] s show ?case using coord_grows_trans by auto
  qed simp
  from this [of c e] assms show ?thesis by (simp add: repair_all_def)
qed

lemma get_grows:
  assumes "Coordinator_coordinateGet rc fo key N R c e = Some (gr, c', e')"
  shows "coord_grows c c'"
  using assms repair_all_grows
  by (fastforce simp: Coordinator_coordinateGet_def Let_def coord_grows_def split: option.splits if_splits prod.splits)

lemma put_grows:
  "Node_handlePut wd f raw n e = Some (rs, n', e') \<Longrightarrow> nodes_keyed (router_of n) \<Longrightarrow>
     n_gossip n' = n_gossip n \<and> coord_grows (n_coordinator n) (n_coordinator n')"
  by (auto simp: Node_handlePut_def forward_def Let_def Coordinator_coordinatePut_def
      split: option.splits list.splits if_splits prod.splits dest: writeQuorum_grows)

lemma delete_grows:
  "Node_handleDelete wd f raw n e = Some (rs, n', e') \<Longrightarrow> nodes_keyed (router_of n) \<Longrightarrow>
     n_gossip n' = n_gossip n \<and> coord_grows (n_coordinator n) (n_coordinator n')"
  by (auto simp: Node_handleDelete_def forward_def Let_def Coordinator_coordinateDelete_def
      split: option.splits list.splits if_splits prod.splits dest: writeQuorum_grows)

lemma handleGet_grows:
  "Node_handleGet wd f n e = Some (rs, n', e') \<Longrightarrow>
     n_gossip n' = n_gossip n \<and> coord_grows (n_coordinator n) (n_coordinator n')"
  by (auto simp: Node_handleGet_def split: option.splits dest: get_grows)

lemma handleReplicate_grows:
  "Node_handleReplicate f n = (r, n') \<Longrightarrow> n_gossip n' = n_gossip n \<and> coord_grows (n_coordinator n) (n_coordinator n')"
  by (auto simp: Node_handleReplicate_def Let_def coord_grows_def split: prod.splits)

lemma count_grows:
  "n_gossip (count_request op n) = n_gossip n" "coord_grows (n_coordinator n) (n_coordinator (count_request op n))"
  "router_of (count_request op n) = router_of n"
  by (simp_all add: count_request_def coord_grows_def)

definition request_effect :: "'e net \<Rightarrow> 's Node \<Rightarrow> 's Node \<Rightarrow> bool" where
  "request_effect net n n' \<longleftrightarrow>
     n_gossip n' = n_gossip n \<and> coord_grows (n_coordinator n) (n_coordinator n') \<or>
     (\<exists>g g'. n_gossip n = Some g \<and> gossip_op net (share_router n g) g' \<and> n' = take_gossip g' n)"

lemma leave_effect:
  assumes "Node_handleLeave f n = (r, n')"
  shows "request_effect net n n'"
  using assms gossip_op.leave
  by (fastforce simp: request_effect_def Node_handleLeave_def Let_def split: if_splits option.splits prod.splits)

lemma gossip_effect:
  assumes "Node_handleGossip wd payload n e = (rs, n', e')"
  shows "request_effect (wd_net wd) n n'"
  using assms gossip_op.message
  by (fastforce simp: request_effect_def Node_handleGossip_def split: option.splits prod.splits)

lemma handleRequest_effect:
  assumes "Node_handleRequest wd payload n e = Some (rs, n', e')" "nodes_keyed (router_of n)"
  shows "request_effect (wd_net wd) n n'"
proof -
  let ?f = "splitAll payload (CHR ''|'')"
  consider "n' = n" | op where "Node_handlePut wd ?f payload (count_request op n) e = Some (rs, n', e')"
    | op where "Node_handleGet wd ?f (count_request op n) e = Some (rs, n', e')"
    | op where "Node_handleDelete wd ?f payload (count_request op n) e = Some (rs, n', e')"
    | r where "Node_handleReplicate ?f n = (r, n')" | r where "Node_handleLeave ?f n = (r, n')"
    | "Node_handleGossip wd payload n e = (rs, n', e')"
    using assms(1) unfolding Node_handleRequest_def Let_def by (auto split: if_splits prod.splits)
  then show ?thesis
  proof cases
    case (2 op)
    from put_grows [OF this] assms(2) count_grows [where op = op and n = n] coord_grows_trans show ?thesis
      unfolding request_effect_def by metis
  next
    case (3 op)
    from handleGet_grows [OF this] count_grows [where op = op and n = n] coord_grows_trans show ?thesis
      unfolding request_effect_def by metis
  next
    case (4 op)
    from delete_grows [OF this] assms(2) count_grows [where op = op and n = n] coord_grows_trans show ?thesis
      unfolding request_effect_def by metis
  next
    case (5 r)
    from handleReplicate_grows [OF this] show ?thesis by (simp add: request_effect_def)
  next
    case (6 r)
    then show ?thesis by (rule leave_effect)
  next
    case 7
    then show ?thesis by (rule gossip_effect)
  qed (simp add: request_effect_def)
qed

section \<open>The callbacks restore the invariant\<close>

lemma drop_hints: "hints_for (snd (HintStore_dropTarget hs t)) i = (if i = t then [] else hints_for hs i)"
  by (auto simp: HintStore_dropTarget_def hints_for_def split: option.split)

lemma handoff_callbacks:
  assumes "fold handoff_callback cbs p = p'"
  shows "n_gossip (ps_node p') = n_gossip (ps_node p) \<and> router_of (ps_node p') = router_of (ps_node p) \<and>
    c_metrics (n_coordinator (ps_node p')) = c_metrics (n_coordinator (ps_node p)) \<and>
    (c_hint_store (n_coordinator (ps_node p')) = None \<longleftrightarrow> c_hint_store (n_coordinator (ps_node p)) = None) \<and>
    (\<forall>hs'. c_hint_store (n_coordinator (ps_node p')) = Some hs' \<longrightarrow>
       (\<exists>hs. c_hint_store (n_coordinator (ps_node p)) = Some hs \<and> (hints_wf hs \<longrightarrow> hints_wf hs') \<and>
          (\<forall>i. hints_for hs' i \<noteq> [] \<longrightarrow> hints_for hs i \<noteq> [] \<and> (\<forall>n. (n, MemberState.Left) \<in> set cbs \<longrightarrow> node_id n \<noteq> i))))"
  using assms
proof (induction cbs arbitrary: p)
  case (Cons cb cbs)
  from Cons.IH [of "handoff_callback cb p"] Cons.prems show ?case
    by (cases "(cb, p)" rule: handoff_callback.cases)
      (auto simp: Node_setHintStore_def drop_hints dropTarget_wf split: option.splits if_splits)
qed simp

lemma set_ring_gauge_simps [simp]:
  "n_gossip (set_ring_gauge n) = n_gossip n" "router_of (set_ring_gauge n) = router_of n"
  "c_hint_store (n_coordinator (set_ring_gauge n)) = c_hint_store (n_coordinator n)"
  "ring_nodes (c_metrics (n_coordinator (set_ring_gauge n))) = word_of_nat (Router_physicalCount (router_of n))"
  by (simp_all add: set_ring_gauge_def InMemoryMetrics_setRingNodes_def)

lemma take_gossip_simps [simp]:
  "router_of (take_gossip g n) = g_router g"
  "c_hint_store (n_coordinator (take_gossip g n)) = c_hint_store (n_coordinator n)"
  "c_metrics (n_coordinator (take_gossip g n)) = c_metrics (n_coordinator n)"
  by (simp_all add: take_gossip_def)

lemma share_fired [simp]: "g_fired (share_router n g) = g_fired g" "g_router (share_router n g) = router_of n"
  by (simp_all add: share_router_def)

lemma clear_reports_simps [simp]:
  "gossip_wf (clear_reports g) = gossip_wf g" "g_router (clear_reports g) = g_router g"
  "g_fired (clear_reports g) = []" "g_syncs (clear_reports g) = 0" "g_swim (clear_reports g) = g_swim g"
  by (simp_all add: gossip_wf_def clear_reports_def)

lemma count_syncs_simps [simp]:
  "n_gossip (count_syncs k n) = n_gossip n" "router_of (count_syncs k n) = router_of n"
  "c_hint_store (n_coordinator (count_syncs k n)) = c_hint_store (n_coordinator n)"
  "ring_nodes (c_metrics (n_coordinator (count_syncs k n))) = ring_nodes (c_metrics (n_coordinator n))"
  "count_syncs 0 n = n"
proof -
  have "ring_nodes ((InMemoryMetrics_incMembershipSync ^^ k) m) = ring_nodes m" for m
    by (induction k) (simp_all add: InMemoryMetrics_incMembershipSync_def)
  then show "ring_nodes (c_metrics (n_coordinator (count_syncs k n))) = ring_nodes (c_metrics (n_coordinator n))"
    by (simp add: count_syncs_def)
qed (simp_all add: count_syncs_def)

lemma callbacks_wf:
  assumes wf: "process_wf p" and g: "n_gossip (ps_node p) = Some g"
    and op: "gsteps (share_router (ps_node p) g) g'"
  shows "process_wf (run_callbacks (p\<lparr>ps_node := take_gossip g' (ps_node p)\<rparr>))"
proof -
  let ?n = "ps_node p" and ?g = "clear_reports g'"
  let ?m = "count_syncs (g_syncs g') ((take_gossip g' ?n)\<lparr>n_gossip := Some ?g\<rparr>)"
  let ?q = "p\<lparr>ps_node := if g_fired g' = [] then ?m else set_ring_gauge ?m\<rparr>"
  let ?p = "fold handoff_callback (g_fired g') ?q"
  have eq: "run_callbacks (p\<lparr>ps_node := take_gossip g' ?n\<rparr>) = ?p"
    by (simp add: run_callbacks_def Let_def)
  have "g_fired g = []" using wf g by (auto simp: process_wf_def)
  then have r: "g_router g' = fold on_member_change (g_fired g') (router_of ?n)"
    using gsteps_fired [OF op] by auto
  have g': "gossip_wf g'"
    using gsteps_wf [OF op] wf g by (simp add: process_wf_def node_wf_def)
  note cb = handoff_callbacks [OF refl, of "g_fired g'" ?q]
  have p: "n_gossip (ps_node ?p) = Some ?g" "router_of (ps_node ?p) = g_router g'"
    "ring_nodes (c_metrics (n_coordinator (ps_node ?p))) =
       (if g_fired g' = [] then ring_nodes (c_metrics (n_coordinator ?n))
        else word_of_nat (Router_physicalCount (g_router g')))"
    "c_hint_store (n_coordinator (ps_node ?p)) = None \<longleftrightarrow> c_hint_store (n_coordinator ?n) = None"
    using cb by (auto split: if_splits)
  have "gauge_ok (ps_node ?p)"
    using p wf r by (auto simp: gauge_ok_def process_wf_def)
  moreover have "hints_in_ring (ps_node ?p)"
    unfolding hints_in_ring_def
  proof (intro allI impI)
    fix hs' assume "c_hint_store (n_coordinator (ps_node ?p)) = Some hs'"
    then obtain hs where hs: "c_hint_store (n_coordinator ?n) = Some hs" "hints_wf hs \<longrightarrow> hints_wf hs'"
      "\<forall>i. hints_for hs' i \<noteq> [] \<longrightarrow>
        hints_for hs i \<noteq> [] \<and> (\<forall>n. (n, MemberState.Left) \<in> set (g_fired g') \<longrightarrow> node_id n \<noteq> i)"
      using cb by (auto split: if_splits)
    have old: "hints_wf hs" "hints_for hs i \<noteq> [] \<Longrightarrow> i \<in> om_keys (nodes (router_of ?n))" for i
      using wf hs(1) by (auto simp: process_wf_def hints_in_ring_def)
    have "i \<in> om_keys (nodes (g_router g'))" if "hints_for hs' i \<noteq> []" for i
      using ring_loses_departed [of i "router_of ?n" "g_fired g'"] hs(3) that old(2) [of i] unfolding r by blast
    then show "hints_wf hs' \<and> (\<forall>i. hints_for hs' i \<noteq> [] \<longrightarrow> i \<in> om_keys (nodes (router_of (ps_node ?p))))"
      using hs(2) old(1) p(2) by simp
  qed
  moreover have "share_router (ps_node ?p) ?g = ?g" using p(2) by (simp add: share_router_def)
  then have "node_wf (ps_node ?p)" using p(1) g' by (simp add: node_wf_def)
  moreover have "nodes_keyed (router_of (ps_node ?p))"
    using p(2) r fold_keyed wf by (simp add: process_wf_def)
  ultimately show ?thesis using p(1,4) wf by (simp add: process_wf_def eq)
qed

lemma grows_wf:
  assumes wf: "process_wf p" and gr: "n_gossip n' = n_gossip (ps_node p)"
    "coord_grows (n_coordinator (ps_node p)) (n_coordinator n')"
  shows "process_wf (run_callbacks (p\<lparr>ps_node := n'\<rparr>))"
proof -
  obtain g where g: "n_gossip (ps_node p) = Some g" "g_fired g = []" "g_syncs g = 0"
    using wf by (auto simp: process_wf_def)
  then have [simp]: "run_callbacks (p\<lparr>ps_node := n'\<rparr>) = p\<lparr>ps_node := n'\<rparr>"
    using gr(1) by (simp add: run_callbacks_def clear_reports_def)
  have r: "router_of n' = router_of (ps_node p)"
    "ring_nodes (c_metrics (n_coordinator n')) = ring_nodes (c_metrics (n_coordinator (ps_node p)))"
    "c_hint_store (n_coordinator n') = None \<longleftrightarrow> c_hint_store (n_coordinator (ps_node p)) = None"
    using gr(2) unfolding coord_grows_def by auto
  have "hints_in_ring n'"
    using wf gr(2) r unfolding process_wf_def hints_in_ring_def coord_grows_def by metis
  then show ?thesis
    using wf gr(1) g r share_same [OF r(1)] by (simp add: process_wf_def node_wf_def gauge_ok_def)
qed

lemma refresh_liveness_simps [simp]:
  "n_gossip (refresh_liveness n) = n_gossip n" "router_of (refresh_liveness n) = router_of n"
  "c_hint_store (n_coordinator (refresh_liveness n)) = c_hint_store (n_coordinator n)"
  "c_metrics (n_coordinator (refresh_liveness n)) = c_metrics (n_coordinator n)"
  by (simp_all add: refresh_liveness_def Node_setLivenessCheck_def split: option.split)

lemma refresh_liveness_wf:
  "process_wf p \<Longrightarrow> process_wf (p\<lparr>ps_node := refresh_liveness (ps_node p)\<rparr>)"
  using share_same [of "refresh_liveness (ps_node p)" "ps_node p"]
  by (auto simp: process_wf_def node_wf_def hints_in_ring_def gauge_ok_def)

lemma process_request_wf:
  assumes "process_wf p" "process_request wd payload p e = Some (replies, p', e')"
  shows "process_wf p'"
proof -
  let ?q = "p\<lparr>ps_node := refresh_liveness (ps_node p)\<rparr>"
  have q: "process_wf ?q" using assms(1) by (rule refresh_liveness_wf)
  obtain n where n: "Node_handleRequest wd payload (ps_node ?q) e = Some (replies, n, e')"
    and p': "p' = run_callbacks (?q\<lparr>ps_node := n\<rparr>)"
    using assms(2) by (auto simp: process_request_def split: option.splits)
  have "request_effect (wd_net wd) (ps_node ?q) n"
    using handleRequest_effect [OF n] q unfolding process_wf_def by blast
  then show ?thesis
    unfolding request_effect_def
  proof (elim disjE exE conjE)
    assume "n_gossip n = n_gossip (ps_node ?q)" "coord_grows (n_coordinator (ps_node ?q)) (n_coordinator n)"
    from grows_wf [OF q this] show ?thesis by (simp add: p')
  next
    fix g g' assume "n_gossip (ps_node ?q) = Some g" "gossip_op (wd_net wd) (share_router (ps_node ?q) g) g'"
      and "n = take_gossip g' (ps_node ?q)"
    with callbacks_wf [OF q] gossip_op_steps have "process_wf (run_callbacks (?q\<lparr>ps_node := n\<rparr>))" by blast
    then show ?thesis by (simp add: p')
  qed
qed

lemma process_tick_wf:
  assumes "process_wf p" "process_tick net p e = (p', e')"
  shows "process_wf p'"
proof -
  obtain g where g: "n_gossip (ps_node p) = Some g" using assms(1) by (auto simp: process_wf_def)
  obtain g' e1 where t: "GossipThread_tick net (share_router (ps_node p) g) e = (g', e1)" by fastforce
  have "p' = run_callbacks (p\<lparr>ps_node := take_gossip g' (ps_node p)\<rparr>)"
    using assms(2) g t by (simp add: process_tick_def)
  with callbacks_wf [OF assms(1) g tick_steps [OF t]] show ?thesis by simp
qed

text \<open>A pass of the handoff thread leaves hints only where there were hints.\<close>

definition hints_shrink :: "HintStore \<Rightarrow> HintStore \<Rightarrow> bool" where
  "hints_shrink hs hs' \<longleftrightarrow>
     (hints_wf hs \<longrightarrow> hints_wf hs' \<and> (\<forall>i. hints_for hs' i \<noteq> [] \<longrightarrow> hints_for hs i \<noteq> []))"

lemma hints_shrink_trans: "\<lbrakk> hints_shrink a b; hints_shrink b c \<rbrakk> \<Longrightarrow> hints_shrink a c"
  unfolding hints_shrink_def by blast

lemma deliver_hints_back:
  assumes "deliver_hints now deliver target hs ht e = (ht', e')" "hints_wf (ht_store ht)"
  shows "hints_wf (ht_store ht') \<and>
    (\<forall>i. hints_for (ht_store ht') i \<noteq> [] \<longrightarrow> hints_for (ht_store ht) i \<noteq> [] \<or> i = node_id target \<and> hs \<noteq> [])"
  using assms
proof (induction hs arbitrary: ht e)
  case (Cons h hs)
  obtain ok e1 where d: "deliver e target (h_key h) (h_value h) = (ok, e1)" by fastforce
  let ?ht = "if ok then ht\<lparr>ht_delivered := ht_delivered ht + 1\<rparr>
     else ht\<lparr>ht_store := HintStore_store now (ht_store ht) (node_id target) (h_key h) (h_value h)\<rparr>"
  have ht: "deliver_hints now deliver target hs ?ht e1 = (ht', e')" using Cons.prems(1) d by simp
  have wf: "hints_wf (ht_store ?ht)" using Cons.prems(2) by (simp add: store_wf)
  have "hints_for (ht_store ?ht) i \<noteq> [] \<Longrightarrow> hints_for (ht_store ht) i \<noteq> [] \<or> i = node_id target" for i
    by (simp split: if_splits)
  with Cons.IH [OF ht wf] show ?case by blast
qed simp

lemma deliverFor_eq:
  "HandoffThread_deliverFor now deliver target ht e =
     deliver_hints now deliver target (hints_for (ht_store ht) (node_id target))
       (ht\<lparr>ht_store := snd (HintStore_drain (ht_store ht) (node_id target))\<rparr>) e"
  unfolding HandoffThread_deliverFor_def by (subst drain_eq(1)) simp

lemma deliverFor_shrink:
  assumes "HandoffThread_deliverFor now deliver target ht e = (ht', e')"
  shows "hints_shrink (ht_store ht) (ht_store ht')"
proof -
  let ?t = "node_id target"
  have d: "deliver_hints now deliver target (hints_for (ht_store ht) ?t)
      (ht\<lparr>ht_store := snd (HintStore_drain (ht_store ht) ?t)\<rparr>) e = (ht', e')"
    using assms unfolding deliverFor_eq .
  show ?thesis
    unfolding hints_shrink_def
  proof (intro impI)
    assume "hints_wf (ht_store ht)"
    from deliver_hints_back [OF d] drain_wf [OF this, of ?t]
    have "hints_wf (ht_store ht')" "hints_for (ht_store ht') i \<noteq> [] \<Longrightarrow>
        hints_for (snd (HintStore_drain (ht_store ht) ?t)) i \<noteq> [] \<or> i = ?t \<and> hints_for (ht_store ht) ?t \<noteq> []" for i
      by simp_all
    then show "hints_wf (ht_store ht') \<and> (\<forall>i. hints_for (ht_store ht') i \<noteq> [] \<longrightarrow> hints_for (ht_store ht) i \<noteq> [])"
      unfolding drain_eq(2) by metis
  qed
qed

lemma deliver_targets_shrink:
  "deliver_targets now deliver ts ht e = (ht', e') \<Longrightarrow> hints_shrink (ht_store ht) (ht_store ht')"
proof (induction ts arbitrary: ht e)
  case Nil
  then show ?case by (simp add: hints_shrink_def)
next
  case (Cons t ts)
  obtain h e1 where d: "HandoffThread_deliverFor now deliver t ht e = (h, e1)" by fastforce
  from Cons.IH [of h e1] Cons.prems d have "hints_shrink (ht_store h) (ht_store ht')" by simp
  with deliverFor_shrink [OF d] show ?case by (rule hints_shrink_trans)
qed

lemma expireOld_shrink: "hints_shrink hs (HintStore_expireOld now hs)"
proof -
  have "hints_wf hs \<Longrightarrow> om_wf (hs_hints hs)" by (simp add: hints_wf_def)
  then show ?thesis
    using expireOld_wf [of hs now] expireOld_for [of hs now] by (auto simp: hints_shrink_def)
qed

lemma run_once_shrink:
  assumes "HandoffThread_run_once now deliver ht e = (ht', e')"
  shows "hints_shrink (ht_store ht) (ht_store ht')"
proof -
  obtain h e1 where d: "deliver_targets now deliver (ht_recovery_queue ht) (ht\<lparr>ht_recovery_queue := []\<rparr>) e = (h, e1)"
    by fastforce
  have "hints_shrink (ht_store h) (ht_store ht')"
    using assms d expireOld_shrink [of "ht_store h" now] by (auto simp: HandoffThread_run_once_def)
  with deliver_targets_shrink [OF d] show ?thesis using hints_shrink_trans by simp
qed
lemma deliver_hints_env:
  assumes "deliver_hints now deliver target hs ht e = (ht', e')"
    "\<And>e t k v. Q (snd (deliver e t k v)) = Q e"
  shows "Q e' = Q e"
  using assms(1)
proof (induction hs arbitrary: ht e)
  case (Cons h hs)
  obtain ok e1 where d: "deliver e target (h_key h) (h_value h) = (ok, e1)" by fastforce
  then have "Q e1 = Q e" using assms(2) [of e target "h_key h" "h_value h"] by simp
  with Cons.IH Cons.prems d show ?case by simp
qed simp

lemma deliver_targets_env:
  assumes "deliver_targets now deliver ts ht e = (ht', e')" "\<And>e t k v. Q (snd (deliver e t k v)) = Q e"
  shows "Q e' = Q e"
  using assms(1)
proof (induction ts arbitrary: ht e)
  case (Cons t ts)
  obtain h e1 where d: "HandoffThread_deliverFor now deliver t ht e = (h, e1)" by fastforce
  then have "Q e1 = Q e"
    using deliver_hints_env [where Q = Q, OF _ assms(2)]
    unfolding HandoffThread_deliverFor_def by (auto split: prod.splits)
  with Cons.IH [of h e1] Cons.prems d show ?case by simp
qed simp

lemma run_once_gauge:
  assumes "HandoffThread_run_once now (main_deliver_fn send) ht (e, m) = (ht', e', m')"
  shows "ring_nodes m' = ring_nodes m"
proof -
  obtain h em where d: "deliver_targets now (main_deliver_fn send) (ht_recovery_queue ht)
      (ht\<lparr>ht_recovery_queue := []\<rparr>) (e, m) = (h, em)" by (rule prod.exhaust)
  have "ring_nodes (snd (snd (main_deliver_fn send em t k v))) = ring_nodes (snd em)" for em t k v
    by (simp add: main_deliver_fn_def Let_def split: prod.split)
  from deliver_targets_env [where Q = "\<lambda>em. ring_nodes (snd em)", OF d this] assms d
  show ?thesis by (simp add: HandoffThread_run_once_def)
qed

lemma process_handoff_wf:
  assumes wf: "process_wf p" and step: "process_handoff send now p e = (p', e')"
  shows "process_wf p'"
proof (cases "c_hint_store (n_coordinator (ps_node p))")
  case None
  then show ?thesis using step wf by (simp add: process_handoff_def)
next
  case (Some hs)
  let ?c = "n_coordinator (ps_node p)"
  obtain ht e1 m where r: "HandoffThread_run_once now (main_deliver_fn send) ((ps_handoff p)\<lparr>ht_store := hs\<rparr>)
      (e, c_metrics ?c) = (ht, e1, m)" by (rule prod_cases3)
  have p': "ps_node p' = (ps_node p)\<lparr>n_coordinator := ?c\<lparr>c_hint_store := Some (ht_store ht), c_metrics := m\<rparr>\<rparr>"
    using step Some r by (auto simp: process_handoff_def)
  have "hints_in_ring (ps_node p')"
    using run_once_shrink [OF r] wf Some by (auto simp: p' hints_shrink_def process_wf_def hints_in_ring_def)
  moreover have "gauge_ok (ps_node p')"
    using run_once_gauge [OF r] wf by (simp add: p' process_wf_def gauge_ok_def)
  moreover have "node_wf (ps_node p')"
    using wf share_same [of "ps_node p'" "ps_node p"] by (auto simp: p' process_wf_def node_wf_def)
  ultimately show ?thesis using wf by (simp add: p' process_wf_def)
qed

lemma process_antientropy_wf:
  assumes wf: "process_wf p" and step: "process_antientropy send pick p e = Some (p', e')"
  shows "process_wf p'"
proof -
  obtain st where p': "ps_node p' = (ps_node p)\<lparr>n_coordinator := (n_coordinator (ps_node p))\<lparr>c_storage := st\<rparr>\<rparr>"
    using step by (auto simp: process_antientropy_def Let_def split: option.splits)
  have "node_wf (ps_node p')"
    using wf share_same [of "ps_node p'" "ps_node p"] by (auto simp: p' process_wf_def node_wf_def)
  then show ?thesis using wf by (simp add: p' process_wf_def hints_in_ring_def gauge_ok_def)
qed

lemma process_step_wf: "process_step (p, e) (p', e') \<Longrightarrow> process_wf p \<Longrightarrow> process_wf p'"
  by (erule process_stepE)
    (blast intro: process_request_wf process_tick_wf process_handoff_wf process_antientropy_wf)+

lemma process_steps_wf:
  "process_step\<^sup>*\<^sup>* pe pe' \<Longrightarrow> process_wf (fst pe) \<Longrightarrow> process_wf (fst pe')"
proof (induction rule: rtranclp_induct)
  case (step q r)
  then show ?case using process_step_wf [of "fst q" "snd q" "fst r" "snd r"] by simp
qed

section \<open>A started process is well formed\<close>

lemma and_then_InrE:
  assumes "and_then x f = Inr z"
  obtains y where "x = Inr y" "f y = Inr z"
  using assms by (cases x) auto

lemma read_config_valid:
  "read_config env = Inr cf \<Longrightarrow> isValidNodeId (getenv_str env ''NODE_ID'' []) \<and> node_id (cf_info cf) = getenv_str env ''NODE_ID'' []"
  by (auto simp: read_config_def Let_def mkNodeInfo_def elim!: and_then_InrE split: if_splits)

lemma hints_in_ring_new: "c_hint_store (n_coordinator n) = Some (HintStore_new ttl k) \<Longrightarrow> hints_in_ring n"
  by (simp add: hints_in_ring_def hints_for_def HintStore_new_def hints_wf_def)

lemma started_wf:
  assumes steps: "gsteps (GossipThread_new me r gc) g" and r: "om_keys (nodes r) = {node_id me}" "nodes_keyed r"
    and n: "router_of n = r" "gauge_ok n"
  shows "process_wf \<lparr>ps_node = refresh_liveness (Node_setHintStore (HintStore_new ttl k)
      (let n = count_syncs (g_syncs g) (take_gossip (clear_reports g) n) in if g_fired g = [] then n else set_ring_gauge n)),
    ps_handoff = h, ps_antientropy = a\<rparr>"
proof -
  let ?m = "let n = count_syncs (g_syncs g) (take_gossip (clear_reports g) n) in if g_fired g = [] then n else set_ring_gauge n"
  let ?n = "refresh_liveness (Node_setHintStore (HintStore_new ttl k) ?m)"
  have fired: "g_router g = fold on_member_change (g_fired g) r"
    using gsteps_fired [OF steps] by (auto simp: GossipThread_new_def)
  have m: "n_gossip ?m = Some (clear_reports g)" "router_of ?m = g_router g" "gauge_ok ?m"
    using n fired by (auto simp: Let_def gauge_ok_def)
  then have n': "n_gossip ?n = Some (clear_reports g)" "router_of ?n = g_router g" "gauge_ok ?n"
    "c_hint_store (n_coordinator ?n) = Some (HintStore_new ttl k)"
    by (simp_all add: gauge_ok_def Node_setHintStore_def)
  then have "share_router ?n (clear_reports g) = clear_reports g" by (simp add: share_router_def)
  then have "node_wf ?n"
    using n' gsteps_wf [OF steps gossip_wf_new [OF r(1)]] by (simp add: node_wf_def)
  then show ?thesis
    using n' fold_keyed [OF r(2)] fired hints_in_ring_new [OF n'(4)] by (simp add: process_wf_def)
qed

lemma boot_wf:
  assumes "boot env E st net e = (Inr p, e')"
  shows "process_wf p \<and> isValidNodeId (getenv_str env ''NODE_ID'' [])"
proof -
  obtain cf where cf: "read_config env = Inr cf"
    using assms by (auto simp: boot_def split: sum.splits)
  obtain gc where gc: "read_gossip_config env = Inr gc"
    using assms cf by (auto simp: boot_def split: sum.splits)
  let ?me = "cf_info cf" 
  let ?r = "Router_addPhysicalNode (Router_new (cf_vnodes cf)) ?me"
  let ?g0 = "GossipThread_new ?me ?r gc"
  let ?n = "set_ring_gauge (Node_setGossipThread ?g0 (Node_new ?me ?r E st (cf_quorum cf)))"
  obtain g e1 where g: "(if cf_seeds cf = [] then (?g0, e) else GossipThread_joinViaSeeds net (cf_seeds cf) ?g0 e) = (g, e1)"
    by fastforce
  then have steps: "gsteps ?g0 g" using joinViaSeeds_steps by (auto split: if_splits)
  have n: "router_of ?n = ?r" "gauge_ok ?n"
    by (simp_all add: gauge_ok_def Node_setGossipThread_def Node_new_def Coordinator_new_def)
  have r: "om_keys (nodes ?r) = {node_id ?me}" "nodes_keyed ?r"
    by (simp_all add: Router_new_def nodes_addPhysicalNode nodes_keyed_def)
  obtain ttl k h a where "p = \<lparr>ps_node = refresh_liveness (Node_setHintStore (HintStore_new ttl k)
      (let n = count_syncs (g_syncs g) (take_gossip (clear_reports g) ?n) in if g_fired g = [] then n else set_ring_gauge n)),
    ps_handoff = h, ps_antientropy = a\<rparr>"
    using assms cf gc g by (auto simp: boot_def Let_def split: sum.splits)
  then show ?thesis using started_wf [OF steps r n] read_config_valid [OF cf] by simp
qed

section \<open>Hinted handoff reaches the recovered node\<close>

text \<open>
  A network that hands every message to one node, which is the environment; the answer is the
  first frame that the node sends back.
\<close>

definition node_send :: "'e world \<Rightarrow> ('s Node \<times> 'e) send_fn" where
  "node_send wd ne h p msg =
     (case Node_handleRequest wd msg (fst ne) (snd ne) of
        None \<Rightarrow> ([], ne)
      | Some (rs, n, e) \<Rightarrow> (case rs of [] \<Rightarrow> [] | r # _ \<Rightarrow> r, (n, e)))"

abbreviation store_of :: "'s Node \<Rightarrow> 's" where
  "store_of n \<equiv> c_storage (n_coordinator n)"

definition with_store :: "'s Node \<Rightarrow> 's \<Rightarrow> 's Node" where
  "with_store n st = n\<lparr>n_coordinator := (n_coordinator n)\<lparr>c_storage := st\<rparr>\<rparr>"

lemma with_store_simps [simp]:
  "store_of (with_store n st) = st" "c_engine (n_coordinator (with_store n st)) = c_engine (n_coordinator n)"
  "with_store (with_store n st) st' = with_store n st'" "with_store n (store_of n) = n"
  by (simp_all add: with_store_def)

definition store_hint :: "'s StorageEngine \<Rightarrow> Hint \<Rightarrow> 's \<Rightarrow> 's" where
  "store_hint E h st = snd (applyReplicate E st (h_key h) ((h_value h)\<lparr>deleted := False\<rparr>))"

definition hint_ok :: "Hint \<Rightarrow> bool" where
  "hint_ok h \<longleftrightarrow> key_ok (h_key h) \<and> vv_ok (h_value h)"

lemma handleRequest_write:
  assumes "key_ok key" "key_ok origin" "vv_ok v"
  shows "Node_handleRequest wd (write_msg origin key v) n e =
    Some ([''RESPONSE|OK''], with_store n (snd (applyReplicate (c_engine (n_coordinator n)) (store_of n) key
      (v\<lparr>deleted := False\<rparr>))), e)"
proof -
  have "field (splitAll (write_msg origin key v) (CHR ''|'')) 0 = ''REPLICATE''"
    unfolding split_write_msg [OF assms] by (simp add: field_def)
  then show ?thesis
    using handleReplicate_write [OF assms, of "c_engine (n_coordinator n)" "store_of n"]
    by (simp add: Node_handleRequest_def Node_handleReplicate_def Let_def with_store_def split: prod.split)
qed

lemma deliver_to_node:
  assumes "hint_ok h"
  shows "main_deliver_fn (node_send wd) ((n, e), m) target (h_key h) (h_value h) =
    (True, ((with_store n (store_hint (c_engine (n_coordinator n)) h (store_of n)), e),
      InMemoryMetrics_incHintDelivered m))"
proof -
  have "key_ok ''hint''" "str_contains ''RESPONSE|OK'' ''RESPONSE|OK''" by code_simp+
  then show ?thesis
    using assms handleRequest_write [of "h_key h" "''hint''" "h_value h" wd n e]
    by (simp add: main_deliver_fn_def node_send_def hint_ok_def store_hint_def Let_def)
qed

lemma deliver_hints_to_node:
  assumes "\<forall>h \<in> set hs. hint_ok h"
  shows "\<exists>m'. deliver_hints now (main_deliver_fn (node_send wd)) target hs ht ((n, e), m) =
    (ht\<lparr>ht_delivered := ht_delivered ht + of_nat (length hs)\<rparr>,
     (with_store n (fold (store_hint (c_engine (n_coordinator n))) hs (store_of n)), e), m')"
  using assms
proof (induction hs arbitrary: ht n m)
  case (Cons h hs)
  let ?E = "c_engine (n_coordinator n)"
  from Cons.IH [of "ht\<lparr>ht_delivered := ht_delivered ht + 1\<rparr>" "with_store n (store_hint ?E h (store_of n))"
      "InMemoryMetrics_incHintDelivered m"] Cons.prems
  show ?case by (simp add: deliver_to_node add.assoc)
qed simp

lemma fold_store_hint:
  assumes eng: "storage_engine E good" and "good st"
  shows "good (fold (store_hint E) hs st)"
    and "k \<notin> h_key ` set hs \<Longrightarrow> readLocal E (fold (store_hint E) hs st) k = readLocal E st k"
proof -
  have "good (fold (store_hint E) hs st) \<and>
      (k \<notin> h_key ` set hs \<longrightarrow> readLocal E (fold (store_hint E) hs st) k = readLocal E st k)"
    using assms(2)
  proof (induction hs arbitrary: st)
    case (Cons h hs)
    have "good (store_hint E h st)"
      using storage_engine.applyReplicate_inv [OF eng Cons.prems] by (simp add: store_hint_def)
    moreover have "readLocal E (store_hint E h st) k = readLocal E st k" if "k \<noteq> h_key h"
      using storage_engine.applyReplicate_other [OF eng Cons.prems that] by (simp add: store_hint_def readLocal_def)
    ultimately show ?case using Cons.IH [of "store_hint E h st"] by auto
  qed simp
  then show "good (fold (store_hint E) hs st)"
    and "k \<notin> h_key ` set hs \<Longrightarrow> readLocal E (fold (store_hint E) hs st) k = readLocal E st k" by auto
qed

lemma vv_ok_deleted [simp]: "vv_ok (v\<lparr>deleted := d\<rparr>) = vv_ok v"
  by (simp add: vv_ok_iff)

lemma last_hint_stored:
  assumes eng: "storage_engine E good" and "good st" "hint_ok h" "h_key h \<notin> h_key ` set ys"
  shows "\<exists>w. readLocal E (fold (store_hint E) (xs @ h # ys) st) (h_key h) = Some w \<and>
    vc.descends (clock w) (clock (h_value h))"
proof -
  let ?st = "fold (store_hint E) xs st"
  have good: "good ?st" using fold_store_hint(1) [OF assms(1,2)] .
  obtain w where w: "readLocal E (store_hint E h ?st) (h_key h) = Some w" "vc.descends (clock w) (clock (h_value h))"
    using storage_engine.applyReplicate_at_least [OF eng good, of "(h_value h)\<lparr>deleted := False\<rparr>" "h_key h"] assms(3)
    by (auto simp: hint_ok_def store_hint_def)
  have "good (store_hint E h ?st)"
    using storage_engine.applyReplicate_inv [OF eng good] by (simp add: store_hint_def)
  with fold_store_hint(2) [OF eng this assms(4)] w show ?thesis by auto
qed

section \<open>Properties\<close>

definition ex_env :: "string \<Rightarrow> environ" where
  "ex_env i v =
     (if v = ''NODE_ID'' then Some i
      else if v \<in> {''SEED_NODES'', ''BOOTSTRAP_IP'', ''ADVERTISE_HOST'', ''HOST''} then None else Some ''1'')"

text \<open>C20: a process whose NODE\_ID is unusable does not start and has contacted nobody: the
  environment is as before.  With a port that parses the error is the one for the node id.\<close>

theorem boot_refuses_bad_id:
  fixes E :: "'s StorageEngine"
  assumes "\<not> isValidNodeId (getenv_str env ''NODE_ID'' [])"
  shows "(\<exists>err. boot env E st net e = (Inl err, e)) \<and>
    (stoi (getenv_str env ''NODE_PORT'' []) \<noteq> None \<longrightarrow> boot env E st net e = (Inl InvalidNodeId, e))"
proof (cases "stoi (getenv_str env ''NODE_PORT'' [])")
  case None
  then have "read_config env = Inl (UncaughtStoi ''NODE_PORT'')"
    by (simp add: read_config_def env_int_def Let_def)
  then show ?thesis using None by (simp add: boot_def)
next
  case (Some p)
  then have "read_config env = Inl InvalidNodeId"
    using assms by (simp add: read_config_def env_int_def Let_def)
  then show ?thesis by (simp add: boot_def)
qed

theorem boot_refuses_bad_id_witness:
  "boot (ex_env ''n;1'') InMemoryStorageEngine [] silent_net () = (Inl InvalidNodeId, ())"
proof -
  have "\<not> isValidNodeId (getenv_str (ex_env ''n;1'') ''NODE_ID'' [])"
    "stoi (getenv_str (ex_env ''n;1'') ''NODE_PORT'' []) \<noteq> None" by code_simp+
  then show ?thesis
    using boot_refuses_bad_id [of "ex_env ''n;1''" InMemoryStorageEngine "[]" silent_net "()"] by simp
qed



text \<open>C15: when the handoff thread delivers the hints of a recovered node that answers its requests,
  every hint is handed over and counted, none is left for it, and for the last hint of each key
  the recovered node afterwards stores a version that descends from the hinted one.\<close>

theorem handoff_restores_node:
  assumes eng: "storage_engine (c_engine (n_coordinator n)) good" "good (store_of n)"
    and ok: "\<forall>h \<in> set (hints_for (ht_store ht) (node_id target)). hint_ok h"
    and run: "HandoffThread_deliverFor now (main_deliver_fn (node_send wd)) target ht ((n, e), m) = (ht', (n', e'), m')"
  shows "hints_for (ht_store ht') (node_id target) = [] \<and>
    ht_delivered ht' = ht_delivered ht + of_nat (length (hints_for (ht_store ht) (node_id target))) \<and>
    (\<forall>xs h ys. hints_for (ht_store ht) (node_id target) = xs @ h # ys \<and> h_key h \<notin> h_key ` set ys \<longrightarrow>
       (\<exists>w. readLocal (c_engine (n_coordinator n')) (store_of n') (h_key h) = Some w \<and>
          (\<forall>i. VectorClock_get (clock (h_value h)) i \<le> VectorClock_get (clock w) i)))"
proof -
  let ?t = "node_id target" and ?E = "c_engine (n_coordinator n)"
  let ?hs = "hints_for (ht_store ht) ?t" and ?st = "snd (HintStore_drain (ht_store ht) ?t)"
  obtain m1 where m1: "deliver_hints now (main_deliver_fn (node_send wd)) target ?hs (ht\<lparr>ht_store := ?st\<rparr>) ((n, e), m) =
      (ht\<lparr>ht_store := ?st, ht_delivered := ht_delivered ht + of_nat (length ?hs)\<rparr>,
       (with_store n (fold (store_hint ?E) ?hs (store_of n)), e), m1)"
    using deliver_hints_to_node [OF ok, of now wd target "ht\<lparr>ht_store := ?st\<rparr>" n e m] by auto
  have ht': "ht' = ht\<lparr>ht_store := ?st, ht_delivered := ht_delivered ht + of_nat (length ?hs)\<rparr>"
    and n': "n' = with_store n (fold (store_hint ?E) ?hs (store_of n))"
    using run m1 unfolding deliverFor_eq by simp_all
  have "\<exists>w. readLocal ?E (store_of n') (h_key h) = Some w \<and> vc.descends (clock w) (clock (h_value h))"
    if "?hs = xs @ h # ys" "h_key h \<notin> h_key ` set ys" for xs h ys
    using last_hint_stored [OF eng, of h ys xs] ok that n' by simp
  then show ?thesis
    using ht' n' by (auto simp: drain_eq(2) vc.descends_def)
qed

theorem handoff_restores_node_witness:
  "\<exists>ht' n' e' m' w. HandoffThread_deliverFor 5 (main_deliver_fn (node_send ex_world)) ex_n3 ex_handoff
      ((ex_node, ()), InMemoryMetrics_new) = (ht', (n', e'), m') \<and>
    hints_for (ht_store ht') ''n3'' = [] \<and> ht_delivered ht' = 2 \<and>
    readLocal (c_engine (n_coordinator n')) (store_of n') ''k2'' = Some w"
proof -
  obtain ht' n' e' m' where run: "HandoffThread_deliverFor 5 (main_deliver_fn (node_send ex_world)) ex_n3 ex_handoff
      ((ex_node, ()), InMemoryMetrics_new) = (ht', (n', e'), m')"
    by (metis prod.exhaust)
  let ?h = "\<lparr>h_target = ''n3'', h_key = ''k2'', h_value = ex_hint_value, h_created_at = 2\<rparr>"
  have t: "node_id ex_n3 = ''n3''" "ht_store ex_handoff = ex_hints" "ht_delivered ex_handoff = 0"
    by (simp_all add: ex_n3_def mkNodeInfo_def ex_handoff_def)
  have eng: "storage_engine (c_engine (n_coordinator ex_node)) om_wf" "om_wf (store_of ex_node)"
    using ims.storage_engine_axioms by (simp_all add: ex_node_def Coordinator_new_def)
  have "key_ok ''k1''" "key_ok ''k2''" "vv_ok ex_hint_value" by code_simp+
  then have ok: "\<forall>h \<in> set (hints_for (ht_store ex_handoff) (node_id ex_n3)). hint_ok h"
    by (simp add: t ex_hints_held hint_ok_def)
  note r = handoff_restores_node [OF eng ok run, unfolded t ex_hints_held]
  have "\<exists>w. readLocal (c_engine (n_coordinator n')) (store_of n') ''k2'' = Some w"
    using r [THEN conjunct2, THEN conjunct2, rule_format, of "[_]" ?h "[]"] by auto
  then show ?thesis using run r by auto
qed

text \<open>
  The exchange and pull functions that main.cpp installs answer with an empty tree and an empty
  range, so an anti-entropy round of the running process sends nothing and repairs nothing.
\<close>

lemma antientropy_round_idle:
  fixes p :: "'s process"
  assumes "process_antientropy send pick p e = Some (p', e')"
  shows "store_of (ps_node p') = store_of (ps_node p) \<and> e' = e"
proof -
  have exchange: "exchange_fn (main_ae_fns send) = main_exchange_fn" by (simp add: main_ae_fns_def)
  have range: "repair_range E (main_ae_fns send) peer dr (a, e) = (a, e)" for E peer dr and a :: "'s AntiEntropyThread" and e
    by (simp add: repair_range_def main_ae_fns_def main_pull_fn_def)
  have "fold (repair_range E (main_ae_fns send) peer) drs (a, e) = (a, e)" for E peer drs and a :: "'s AntiEntropyThread" and e
    by (induction drs) (simp_all add: range)
  then show ?thesis
    using assms
    by (auto simp: process_antientropy_def AntiEntropyThread_tick_def Let_def exchange main_exchange_fn_def
        split: option.splits if_splits prod.splits)
qed

end
