(* ===== verification/Prometheus.thy ===== *)
theory Prometheus
  imports Metrics Complex_Main "HOL-Library.State_Monad" "HOL-Library.Log_Nat"
begin

text \<open>
  metrics\_prometheus.cpp: the metrics backend on top of prometheus-cpp.  The library is the record
  \<open>prom_api\<close>; what the backend relies on is \<open>prom_laws\<close>: a time series is named by its family and
  its labels, and incrementing or setting a handle changes the value of its series only.

  Shown: after the same calls, every counter and gauge that this backend reports is the one that
  the in-memory backend reports, and the series by operation add up to its totals.  In
  particular no two handles share a series.  Values are doubles, so this holds up to 2 to the power of 53.
\<close>

section \<open>The library\<close>

type_synonym labels = "(string, string) omap"

datatype family_kind = CounterFamily | GaugeFamily | HistogramFamily

text \<open>Doubles that hold counts are natural numbers.\<close>

record ('r, 'f, 'h) prom_api =
  prom_register :: "family_kind \<Rightarrow> string \<Rightarrow> string \<Rightarrow> ('r, 'f) state"
  prom_add :: "'f \<Rightarrow> labels \<Rightarrow> ('r, 'h) state"
  prom_add_histogram :: "'f \<Rightarrow> labels \<Rightarrow> real list \<Rightarrow> ('r, 'h) state"
  prom_increment :: "'r \<Rightarrow> 'h \<Rightarrow> 'r"
  prom_set :: "'r \<Rightarrow> 'h \<Rightarrow> nat \<Rightarrow> 'r"
  prom_value :: "'r \<Rightarrow> 'h \<Rightarrow> nat"
  prom_observe :: "'r \<Rightarrow> 'h \<Rightarrow> real \<Rightarrow> 'r"
  prom_expose :: "'r \<Rightarrow> string \<Rightarrow> 'r"

text \<open>\<open>static_cast<double>\<close>: 53 significant bits, to nearest, ties to even.\<close>

definition double_of_u64 :: "u64 \<Rightarrow> nat" where
  "double_of_u64 w =
     (let n = unat w; k = floorlog 2 n - 53; q = n div 2 ^ k; r = n mod 2 ^ k
      in (if 2 * r > 2 ^ k \<or> 2 * r = 2 ^ k \<and> odd q then q + 1 else q) * 2 ^ k)"

text \<open>\<open>static_cast<uint64_t>\<close>\<close>

definition u64_of_double :: "nat \<Rightarrow> u64" where
  "u64_of_double d = word_of_nat d"

section \<open>PrometheusMetrics\<close>

definition kLatencyBuckets :: "real list" where
  "kLatencyBuckets =
     [1/1000, 5/1000, 1/100, 25/1000, 5/100, 1/10, 25/100, 5/10, 1, 25/10, 5]"

fun idx :: "Op \<Rightarrow> nat" where
  "idx Op.Put = 0"
| "idx Op.Get = 1"
| "idx Op.Delete = 2"

record ('r, 'h) PrometheusMetrics =
  pm_registry :: 'r
  pm_requests :: "'h list"
  pm_latency :: "'h list"
  pm_quorum_ok :: "'h list"
  pm_quorum_fail :: "'h list"
  pm_read_repair :: 'h
  pm_hints_stored :: 'h
  pm_hints_delivered :: 'h
  pm_ae_syncs :: 'h
  pm_ae_keys_repaired :: 'h
  pm_pool_created :: 'h
  pm_pool_reused :: 'h
  pm_membership_syncs :: 'h
  pm_ring_nodes :: 'h
  pm_node_up :: 'h

text \<open>The body of the loop over the operations: the four handles of one operation.\<close>

definition op_handles ::
    "('r, 'f, 'h) prom_api \<Rightarrow> labels \<Rightarrow> 'f \<Rightarrow> 'f \<Rightarrow> 'f \<Rightarrow> Op \<Rightarrow> ('r, 'h \<times> 'h \<times> 'h \<times> 'h) state" where
  "op_handles api node requests_family latency_family quorum_family op =
     (let l = om_put ''op'' (opLabel op) node
      in do {
        req \<leftarrow> prom_add api requests_family l;
        lat \<leftarrow> prom_add_histogram api latency_family l kLatencyBuckets;
        ok \<leftarrow> prom_add api quorum_family (om_put ''outcome'' ''success'' l);
        fail \<leftarrow> prom_add api quorum_family (om_put ''outcome'' ''failure'' l);
        State_Monad.return (req, lat, ok, fail)
      })"

definition construct ::
    "('r, 'f, 'h) prom_api \<Rightarrow> string \<Rightarrow> string \<Rightarrow> ('r, 'r \<Rightarrow> ('r, 'h) PrometheusMetrics) state" where
  "construct api bind_address i =
     (let node = [(''node_id'', i)]
      in do {
        requests_family \<leftarrow> prom_register api CounterFamily ''minidynamo_requests_total''
          ''Client-facing requests handled, by op'';
        latency_family \<leftarrow> prom_register api HistogramFamily ''minidynamo_request_latency_seconds''
          ''Request handling latency, by op'';
        quorum_family \<leftarrow> prom_register api CounterFamily ''minidynamo_quorum_total''
          ''Quorum attempts by op and outcome (success|failure)'';
        repair_family \<leftarrow> prom_register api CounterFamily ''minidynamo_read_repair_total''
          ''Replicas repaired to the dominant version after a read'';
        up_family \<leftarrow> prom_register api GaugeFamily ''minidynamo_node_up''
          ''1 while the node process is serving'';
        put \<leftarrow> op_handles api node requests_family latency_family quorum_family Op.Put;
        get \<leftarrow> op_handles api node requests_family latency_family quorum_family Op.Get;
        del \<leftarrow> op_handles api node requests_family latency_family quorum_family Op.Delete;
        read_repair \<leftarrow> prom_add api repair_family node;
        hints_stored_family \<leftarrow> prom_register api CounterFamily ''minidynamo_hints_stored_total''
          ''Hints stored for downed replica nodes'';
        hints_delivered_family \<leftarrow> prom_register api CounterFamily ''minidynamo_hints_delivered_total''
          ''Hints successfully delivered on node recovery'';
        ae_syncs_family \<leftarrow> prom_register api CounterFamily ''minidynamo_antientropy_syncs_total''
          ''Anti-entropy Merkle sync rounds completed'';
        ae_keys_family \<leftarrow> prom_register api CounterFamily ''minidynamo_antientropy_keys_repaired_total''
          ''Keys repaired by anti-entropy sync'';
        pool_created_family \<leftarrow> prom_register api CounterFamily ''minidynamo_pool_connections_created_total''
          ''Fresh peer connections opened by the connection pool'';
        pool_reused_family \<leftarrow> prom_register api CounterFamily ''minidynamo_pool_connections_reused_total''
          ''Idle peer connections reused from the connection pool'';
        membership_syncs_family \<leftarrow> prom_register api CounterFamily ''minidynamo_membership_syncs_total''
          ''Full-state membership syncs triggered by a gossip digest mismatch'';
        ring_nodes_family \<leftarrow> prom_register api GaugeFamily ''minidynamo_ring_physical_nodes''
          ''Physical nodes currently in this node's ring'';
        hints_stored \<leftarrow> prom_add api hints_stored_family node;
        hints_delivered \<leftarrow> prom_add api hints_delivered_family node;
        ae_syncs \<leftarrow> prom_add api ae_syncs_family node;
        ae_keys_repaired \<leftarrow> prom_add api ae_keys_family node;
        pool_created \<leftarrow> prom_add api pool_created_family node;
        pool_reused \<leftarrow> prom_add api pool_reused_family node;
        membership_syncs \<leftarrow> prom_add api membership_syncs_family node;
        ring_nodes \<leftarrow> prom_add api ring_nodes_family node;
        node_up \<leftarrow> prom_add api up_family node;
        State_Monad.return (\<lambda>r. \<lparr>pm_registry = prom_expose api (prom_set api r node_up 1) bind_address,
          pm_requests = map fst [put, get, del], pm_latency = map (fst \<circ> snd) [put, get, del],
          pm_quorum_ok = map (fst \<circ> snd \<circ> snd) [put, get, del],
          pm_quorum_fail = map (snd \<circ> snd \<circ> snd) [put, get, del],
          pm_read_repair = read_repair, pm_hints_stored = hints_stored, pm_hints_delivered = hints_delivered,
          pm_ae_syncs = ae_syncs, pm_ae_keys_repaired = ae_keys_repaired, pm_pool_created = pool_created,
          pm_pool_reused = pool_reused, pm_membership_syncs = membership_syncs,
          pm_ring_nodes = ring_nodes, pm_node_up = node_up\<rparr>)
      })"

definition PrometheusMetrics_new ::
    "('r, 'f, 'h) prom_api \<Rightarrow> 'r \<Rightarrow> string \<Rightarrow> string \<Rightarrow> ('r, 'h) PrometheusMetrics" where
  "PrometheusMetrics_new api registry bind_address i =
     (case run_state (construct api bind_address i) registry of (mk, r) \<Rightarrow> mk r)"

section \<open>Updates\<close>

definition increment :: "('r, 'f, 'h) prom_api \<Rightarrow> 'h \<Rightarrow> ('r, 'h) PrometheusMetrics \<Rightarrow> ('r, 'h) PrometheusMetrics" where
  "increment api h m = m\<lparr>pm_registry := prom_increment api (pm_registry m) h\<rparr>"

definition PrometheusMetrics_incRequest ::
    "('r, 'f, 'h) prom_api \<Rightarrow> Op \<Rightarrow> ('r, 'h) PrometheusMetrics \<Rightarrow> ('r, 'h) PrometheusMetrics" where
  "PrometheusMetrics_incRequest api op m = increment api (pm_requests m ! idx op) m"

definition PrometheusMetrics_incQuorumSuccess ::
    "('r, 'f, 'h) prom_api \<Rightarrow> Op \<Rightarrow> ('r, 'h) PrometheusMetrics \<Rightarrow> ('r, 'h) PrometheusMetrics" where
  "PrometheusMetrics_incQuorumSuccess api op m = increment api (pm_quorum_ok m ! idx op) m"

definition PrometheusMetrics_incQuorumFailure ::
    "('r, 'f, 'h) prom_api \<Rightarrow> Op \<Rightarrow> ('r, 'h) PrometheusMetrics \<Rightarrow> ('r, 'h) PrometheusMetrics" where
  "PrometheusMetrics_incQuorumFailure api op m = increment api (pm_quorum_fail m ! idx op) m"

definition PrometheusMetrics_observeLatency ::
    "('r, 'f, 'h) prom_api \<Rightarrow> Op \<Rightarrow> real \<Rightarrow> ('r, 'h) PrometheusMetrics \<Rightarrow> ('r, 'h) PrometheusMetrics" where
  "PrometheusMetrics_observeLatency api op seconds m =
     m\<lparr>pm_registry := prom_observe api (pm_registry m) (pm_latency m ! idx op) seconds\<rparr>"

definition PrometheusMetrics_incReadRepair ::
    "('r, 'f, 'h) prom_api \<Rightarrow> ('r, 'h) PrometheusMetrics \<Rightarrow> ('r, 'h) PrometheusMetrics" where
  "PrometheusMetrics_incReadRepair api m = increment api (pm_read_repair m) m"

definition PrometheusMetrics_incHintStored ::
    "('r, 'f, 'h) prom_api \<Rightarrow> ('r, 'h) PrometheusMetrics \<Rightarrow> ('r, 'h) PrometheusMetrics" where
  "PrometheusMetrics_incHintStored api m = increment api (pm_hints_stored m) m"

definition PrometheusMetrics_incHintDelivered ::
    "('r, 'f, 'h) prom_api \<Rightarrow> ('r, 'h) PrometheusMetrics \<Rightarrow> ('r, 'h) PrometheusMetrics" where
  "PrometheusMetrics_incHintDelivered api m = increment api (pm_hints_delivered m) m"

definition PrometheusMetrics_incAntiEntropySync ::
    "('r, 'f, 'h) prom_api \<Rightarrow> ('r, 'h) PrometheusMetrics \<Rightarrow> ('r, 'h) PrometheusMetrics" where
  "PrometheusMetrics_incAntiEntropySync api m = increment api (pm_ae_syncs m) m"

definition PrometheusMetrics_incAntiEntropyKeysRepaired ::
    "('r, 'f, 'h) prom_api \<Rightarrow> ('r, 'h) PrometheusMetrics \<Rightarrow> ('r, 'h) PrometheusMetrics" where
  "PrometheusMetrics_incAntiEntropyKeysRepaired api m = increment api (pm_ae_keys_repaired m) m"

definition PrometheusMetrics_incPoolConnectionCreated ::
    "('r, 'f, 'h) prom_api \<Rightarrow> ('r, 'h) PrometheusMetrics \<Rightarrow> ('r, 'h) PrometheusMetrics" where
  "PrometheusMetrics_incPoolConnectionCreated api m = increment api (pm_pool_created m) m"

definition PrometheusMetrics_incPoolConnectionReused ::
    "('r, 'f, 'h) prom_api \<Rightarrow> ('r, 'h) PrometheusMetrics \<Rightarrow> ('r, 'h) PrometheusMetrics" where
  "PrometheusMetrics_incPoolConnectionReused api m = increment api (pm_pool_reused m) m"

definition PrometheusMetrics_incMembershipSync ::
    "('r, 'f, 'h) prom_api \<Rightarrow> ('r, 'h) PrometheusMetrics \<Rightarrow> ('r, 'h) PrometheusMetrics" where
  "PrometheusMetrics_incMembershipSync api m = increment api (pm_membership_syncs m) m"

definition PrometheusMetrics_setRingNodes ::
    "('r, 'f, 'h) prom_api \<Rightarrow> u64 \<Rightarrow> ('r, 'h) PrometheusMetrics \<Rightarrow> ('r, 'h) PrometheusMetrics" where
  "PrometheusMetrics_setRingNodes api n m =
     m\<lparr>pm_registry := prom_set api (pm_registry m) (pm_ring_nodes m) (double_of_u64 n)\<rparr>"

section \<open>Reading\<close>

definition read_count :: "('r, 'f, 'h) prom_api \<Rightarrow> 'h \<Rightarrow> ('r, 'h) PrometheusMetrics \<Rightarrow> u64" where
  "read_count api h m = u64_of_double (prom_value api (pm_registry m) h)"

definition PrometheusMetrics_readRepairCount :: "('r, 'f, 'h) prom_api \<Rightarrow> ('r, 'h) PrometheusMetrics \<Rightarrow> u64" where
  "PrometheusMetrics_readRepairCount api m = read_count api (pm_read_repair m) m"

definition PrometheusMetrics_hintStoredCount :: "('r, 'f, 'h) prom_api \<Rightarrow> ('r, 'h) PrometheusMetrics \<Rightarrow> u64" where
  "PrometheusMetrics_hintStoredCount api m = read_count api (pm_hints_stored m) m"

definition PrometheusMetrics_hintDeliveredCount :: "('r, 'f, 'h) prom_api \<Rightarrow> ('r, 'h) PrometheusMetrics \<Rightarrow> u64" where
  "PrometheusMetrics_hintDeliveredCount api m = read_count api (pm_hints_delivered m) m"

definition PrometheusMetrics_antiEntropySyncCount :: "('r, 'f, 'h) prom_api \<Rightarrow> ('r, 'h) PrometheusMetrics \<Rightarrow> u64" where
  "PrometheusMetrics_antiEntropySyncCount api m = read_count api (pm_ae_syncs m) m"

definition PrometheusMetrics_antiEntropyKeysRepairedCount :: "('r, 'f, 'h) prom_api \<Rightarrow> ('r, 'h) PrometheusMetrics \<Rightarrow> u64" where
  "PrometheusMetrics_antiEntropyKeysRepairedCount api m = read_count api (pm_ae_keys_repaired m) m"

definition PrometheusMetrics_poolConnectionCreatedCount :: "('r, 'f, 'h) prom_api \<Rightarrow> ('r, 'h) PrometheusMetrics \<Rightarrow> u64" where
  "PrometheusMetrics_poolConnectionCreatedCount api m = read_count api (pm_pool_created m) m"

definition PrometheusMetrics_poolConnectionReusedCount :: "('r, 'f, 'h) prom_api \<Rightarrow> ('r, 'h) PrometheusMetrics \<Rightarrow> u64" where
  "PrometheusMetrics_poolConnectionReusedCount api m = read_count api (pm_pool_reused m) m"

definition PrometheusMetrics_membershipSyncCount :: "('r, 'f, 'h) prom_api \<Rightarrow> ('r, 'h) PrometheusMetrics \<Rightarrow> u64" where
  "PrometheusMetrics_membershipSyncCount api m = read_count api (pm_membership_syncs m) m"

definition PrometheusMetrics_ringNodesCount :: "('r, 'f, 'h) prom_api \<Rightarrow> ('r, 'h) PrometheusMetrics \<Rightarrow> u64" where
  "PrometheusMetrics_ringNodesCount api m = read_count api (pm_ring_nodes m) m"

section \<open>Calls of the Metrics interface\<close>

datatype metrics_call =
  IncRequest Op | ObserveLatency Op real | IncQuorumSuccess Op | IncQuorumFailure Op | IncReadRepair
| IncHintStored | IncHintDelivered | IncAntiEntropySync | IncAntiEntropyKeysRepaired
| IncMembershipSync | SetRingNodes u64 | IncPoolConnectionCreated | IncPoolConnectionReused

fun prom_call ::
    "('r, 'f, 'h) prom_api \<Rightarrow> metrics_call \<Rightarrow> ('r, 'h) PrometheusMetrics \<Rightarrow> ('r, 'h) PrometheusMetrics" where
  "prom_call api (IncRequest op) = PrometheusMetrics_incRequest api op"
| "prom_call api (ObserveLatency op s) = PrometheusMetrics_observeLatency api op s"
| "prom_call api (IncQuorumSuccess op) = PrometheusMetrics_incQuorumSuccess api op"
| "prom_call api (IncQuorumFailure op) = PrometheusMetrics_incQuorumFailure api op"
| "prom_call api IncReadRepair = PrometheusMetrics_incReadRepair api"
| "prom_call api IncHintStored = PrometheusMetrics_incHintStored api"
| "prom_call api IncHintDelivered = PrometheusMetrics_incHintDelivered api"
| "prom_call api IncAntiEntropySync = PrometheusMetrics_incAntiEntropySync api"
| "prom_call api IncAntiEntropyKeysRepaired = PrometheusMetrics_incAntiEntropyKeysRepaired api"
| "prom_call api IncMembershipSync = PrometheusMetrics_incMembershipSync api"
| "prom_call api (SetRingNodes n) = PrometheusMetrics_setRingNodes api n"
| "prom_call api IncPoolConnectionCreated = PrometheusMetrics_incPoolConnectionCreated api"
| "prom_call api IncPoolConnectionReused = PrometheusMetrics_incPoolConnectionReused api"

fun mem_call :: "metrics_call \<Rightarrow> InMemoryMetrics \<Rightarrow> InMemoryMetrics" where
  "mem_call (IncRequest op) = InMemoryMetrics_incRequest op"
| "mem_call (ObserveLatency op s) = id"
| "mem_call (IncQuorumSuccess op) = InMemoryMetrics_incQuorumSuccess op"
| "mem_call (IncQuorumFailure op) = InMemoryMetrics_incQuorumFailure op"
| "mem_call IncReadRepair = InMemoryMetrics_incReadRepair"
| "mem_call IncHintStored = InMemoryMetrics_incHintStored"
| "mem_call IncHintDelivered = InMemoryMetrics_incHintDelivered"
| "mem_call IncAntiEntropySync = InMemoryMetrics_incAntiEntropySync"
| "mem_call IncAntiEntropyKeysRepaired = InMemoryMetrics_incAntiEntropyKeysRepaired"
| "mem_call IncMembershipSync = InMemoryMetrics_incMembershipSync"
| "mem_call (SetRingNodes n) = InMemoryMetrics_setRingNodes n"
| "mem_call IncPoolConnectionCreated = InMemoryMetrics_incPoolConnectionCreated"
| "mem_call IncPoolConnectionReused = InMemoryMetrics_incPoolConnectionReused"

section \<open>What the library promises\<close>

type_synonym series = "string \<times> labels"

text \<open>
  \<open>fam\<close> is the name of a family, \<open>key\<close> the series of a handle and \<open>val\<close> the values of the series.
\<close>

definition prom_laws ::
    "('r, 'f, 'h) prom_api \<Rightarrow> ('f \<Rightarrow> string) \<Rightarrow> ('h \<Rightarrow> series) \<Rightarrow> ('r \<Rightarrow> series \<Rightarrow> nat) \<Rightarrow> bool" where
  "prom_laws api fam key val \<longleftrightarrow>
     (\<forall>k n h r f r'. run_state (prom_register api k n h) r = (f, r') \<longrightarrow> fam f = n \<and> val r' = val r) \<and>
     (\<forall>f l r x r'. run_state (prom_add api f l) r = (x, r') \<longrightarrow> key x = (fam f, l) \<and> val r' = val r) \<and>
     (\<forall>f l bs r x r'. run_state (prom_add_histogram api f l bs) r = (x, r') \<longrightarrow> val r' = val r) \<and>
     (\<forall>r x. val r (key x) < 2 ^ 53 \<longrightarrow>
        val (prom_increment api r x) = (val r)(key x := Suc (val r (key x)))) \<and>
     (\<forall>r x v. val (prom_set api r x v) = (val r)(key x := v)) \<and>
     (\<forall>r x. prom_value api r x = val r (key x)) \<and>
     (\<forall>r x s. val (prom_observe api r x s) = val r) \<and>
     (\<forall>r a. val (prom_expose api r a) = val r)"

section \<open>The handles that the constructor creates\<close>

definition op_labels :: "string \<Rightarrow> Op \<Rightarrow> labels" where
  "op_labels i op = [(''node_id'', i), (''op'', opLabel op)]"

definition outcome_labels :: "string \<Rightarrow> string \<Rightarrow> Op \<Rightarrow> labels" where
  "outcome_labels i out op = [(''node_id'', i), (''op'', opLabel op), (''outcome'', out)]"

definition handles_ok :: "('h \<Rightarrow> series) \<Rightarrow> string \<Rightarrow> ('r, 'h) PrometheusMetrics \<Rightarrow> bool" where
  "handles_ok key i m \<longleftrightarrow>
     (\<forall>op. key (pm_requests m ! idx op) = (''minidynamo_requests_total'', op_labels i op)) \<and>
     (\<forall>op. key (pm_quorum_ok m ! idx op) = (''minidynamo_quorum_total'', outcome_labels i ''success'' op)) \<and>
     (\<forall>op. key (pm_quorum_fail m ! idx op) = (''minidynamo_quorum_total'', outcome_labels i ''failure'' op)) \<and>
     key (pm_read_repair m) = (''minidynamo_read_repair_total'', [(''node_id'', i)]) \<and>
     key (pm_hints_stored m) = (''minidynamo_hints_stored_total'', [(''node_id'', i)]) \<and>
     key (pm_hints_delivered m) = (''minidynamo_hints_delivered_total'', [(''node_id'', i)]) \<and>
     key (pm_ae_syncs m) = (''minidynamo_antientropy_syncs_total'', [(''node_id'', i)]) \<and>
     key (pm_ae_keys_repaired m) = (''minidynamo_antientropy_keys_repaired_total'', [(''node_id'', i)]) \<and>
     key (pm_pool_created m) = (''minidynamo_pool_connections_created_total'', [(''node_id'', i)]) \<and>
     key (pm_pool_reused m) = (''minidynamo_pool_connections_reused_total'', [(''node_id'', i)]) \<and>
     key (pm_membership_syncs m) = (''minidynamo_membership_syncs_total'', [(''node_id'', i)]) \<and>
     key (pm_ring_nodes m) = (''minidynamo_ring_physical_nodes'', [(''node_id'', i)]) \<and>
     key (pm_node_up m) = (''minidynamo_node_up'', [(''node_id'', i)])"

text \<open>What a computation in the state of the registry returns, with a rule for each call.\<close>

definition yields :: "('r, 'a) state \<Rightarrow> 'r \<Rightarrow> ('a \<Rightarrow> 'r \<Rightarrow> bool) \<Rightarrow> bool" where
  "yields c r Q \<longleftrightarrow> (case run_state c r of (x, r') \<Rightarrow> Q x r')"

lemma yields_bind: "yields c r (\<lambda>x r'. yields (f x) r' Q) \<Longrightarrow> yields (State_Monad.bind c f) r Q"
  by (simp add: yields_def split: prod.splits)

lemma yields_return: "Q x r \<Longrightarrow> yields (State_Monad.return x) r Q"
  by (simp add: yields_def)

lemma yields_register:
  assumes "prom_laws api fam key val" "\<And>f r'. fam f = n \<Longrightarrow> val r' = val r \<Longrightarrow> Q f r'"
  shows "yields (prom_register api k n h) r Q"
  using assms unfolding prom_laws_def yields_def by (metis (no_types, lifting) case_prodI2)

lemma yields_add:
  assumes "prom_laws api fam key val" "\<And>x r'. key x = (fam f, l) \<Longrightarrow> val r' = val r \<Longrightarrow> Q x r'"
  shows "yields (prom_add api f l) r Q"
  using assms unfolding prom_laws_def yields_def by (metis (no_types, lifting) case_prodI2)

lemma yields_add_histogram:
  assumes "prom_laws api fam key val" "\<And>x r'. val r' = val r \<Longrightarrow> Q x r'"
  shows "yields (prom_add_histogram api f l bs) r Q"
  using assms unfolding prom_laws_def yields_def by (metis (no_types, lifting) case_prodI2)

lemma yields_op_handles:
  assumes "prom_laws api fam key val"
    "\<And>req lat ok fail r'. \<lbrakk> key req = (fam rf, op_labels i op); key ok = (fam qf, outcome_labels i ''success'' op);
       key fail = (fam qf, outcome_labels i ''failure'' op); val r' = val r \<rbrakk> \<Longrightarrow> Q (req, lat, ok, fail) r'"
  shows "yields (op_handles api [(''node_id'', i)] rf lf qf op) r Q"
  unfolding op_handles_def Let_def
  by (intro yields_bind yields_return yields_add [OF assms(1)] yields_add_histogram [OF assms(1)] assms(2))
    (simp_all add: op_labels_def outcome_labels_def)

lemma all_ops: "(\<forall>op. P op) \<longleftrightarrow> P Op.Put \<and> P Op.Get \<and> P Op.Delete"
  by (metis Op.exhaust)

lemma construct_handles:
  assumes laws: "prom_laws api fam key val"
  shows "yields (construct api a i) r (\<lambda>mk r'. handles_ok key i (mk r') \<and>
    val (pm_registry (mk r')) = (val r)((''minidynamo_node_up'', [(''node_id'', i)]) := 1))"
proof -
  have set: "val (prom_expose api (prom_set api r' x v) a) = (val r')(key x := v)" for r' x v
    using laws by (simp add: prom_laws_def)
  show ?thesis
    unfolding construct_def Let_def
    by (intro yields_bind yields_return yields_register [OF laws] yields_add [OF laws] yields_op_handles [OF laws])
      (simp add: handles_ok_def all_ops set)
qed

lemma new_handles:
  assumes "prom_laws api fam key val"
  shows "handles_ok key i (PrometheusMetrics_new api r a i)"
    "val (pm_registry (PrometheusMetrics_new api r a i)) = (val r)((''minidynamo_node_up'', [(''node_id'', i)]) := 1)"
  using construct_handles [OF assms, of a i r]
  by (simp_all add: yields_def PrometheusMetrics_new_def split: prod.splits)

section \<open>Agreement with the in-memory backend\<close>

lemma double_exact: "unat w < 2 ^ 53 \<Longrightarrow> double_of_u64 w = unat w"
  using floorlog_leI [of "unat w" 2 53] by (simp add: double_of_u64_def)

text \<open>The value of a series is a counter of the in-memory backend, and small enough to be exact.\<close>

definition same :: "nat \<Rightarrow> nat \<Rightarrow> u64 \<Rightarrow> bool" where
  "same k v w \<longleftrightarrow> v = unat w \<and> v \<le> k"

definition total :: "(Op \<Rightarrow> nat) \<Rightarrow> nat" where
  "total f = f Op.Put + f Op.Get + f Op.Delete"

definition agree ::
    "('r, 'f, 'h) prom_api \<Rightarrow> nat \<Rightarrow> ('r, 'h) PrometheusMetrics \<Rightarrow> InMemoryMetrics \<Rightarrow> bool" where
  "agree api k m im \<longleftrightarrow>
     (let v = prom_value api (pm_registry m)
      in same k (total (\<lambda>op. v (pm_requests m ! idx op))) (requests im) \<and>
         same k (total (\<lambda>op. v (pm_quorum_ok m ! idx op))) (quorum_ok im) \<and>
         same k (total (\<lambda>op. v (pm_quorum_fail m ! idx op))) (quorum_fail im) \<and>
         same k (v (pm_read_repair m)) (read_repair im) \<and> same k (v (pm_hints_stored m)) (hints_stored im) \<and>
         same k (v (pm_hints_delivered m)) (hints_delivered im) \<and> same k (v (pm_ae_syncs m)) (ae_syncs im) \<and>
         same k (v (pm_ae_keys_repaired m)) (ae_keys_repaired im) \<and>
         same k (v (pm_pool_created m)) (pool_created im) \<and> same k (v (pm_pool_reused m)) (pool_reused im) \<and>
         same k (v (pm_membership_syncs m)) (membership_syncs im) \<and> v (pm_ring_nodes m) = unat (ring_nodes im))"

lemma same_mono: "same k v w \<Longrightarrow> same (Suc k) v w"
  by (simp add: same_def)

lemma same_inc: "same k v w \<Longrightarrow> k < 2 ^ 53 \<Longrightarrow> same (Suc k) (Suc v) (w + 1)"
proof -
  assume a: "same k v w" "k < 2 ^ 53"
  then have "w \<noteq> - 1" by (auto simp: same_def unsigned_minus_1_eq_mask mask_eq_exp_minus_1)
  then show ?thesis using a by (simp add: same_def unat_succ)
qed

definition vals_agree :: "string \<Rightarrow> nat \<Rightarrow> (series \<Rightarrow> nat) \<Rightarrow> InMemoryMetrics \<Rightarrow> bool" where
  "vals_agree i k v im \<longleftrightarrow>
     (let own = (\<lambda>n. v (n, [(''node_id'', i)]))
      in same k (total (\<lambda>op. v (''minidynamo_requests_total'', op_labels i op))) (requests im) \<and>
         same k (total (\<lambda>op. v (''minidynamo_quorum_total'', outcome_labels i ''success'' op))) (quorum_ok im) \<and>
         same k (total (\<lambda>op. v (''minidynamo_quorum_total'', outcome_labels i ''failure'' op))) (quorum_fail im) \<and>
         same k (own ''minidynamo_read_repair_total'') (read_repair im) \<and>
         same k (own ''minidynamo_hints_stored_total'') (hints_stored im) \<and>
         same k (own ''minidynamo_hints_delivered_total'') (hints_delivered im) \<and>
         same k (own ''minidynamo_antientropy_syncs_total'') (ae_syncs im) \<and>
         same k (own ''minidynamo_antientropy_keys_repaired_total'') (ae_keys_repaired im) \<and>
         same k (own ''minidynamo_pool_connections_created_total'') (pool_created im) \<and>
         same k (own ''minidynamo_pool_connections_reused_total'') (pool_reused im) \<and>
         same k (own ''minidynamo_membership_syncs_total'') (membership_syncs im) \<and>
         own ''minidynamo_ring_physical_nodes'' = unat (ring_nodes im))"

lemma agree_val:
  assumes "prom_laws api fam key val" "handles_ok key i m"
  shows "agree api k m im \<longleftrightarrow> vals_agree i k (val (pm_registry m)) im"
proof -
  have "prom_value api r x = val r (key x)" for r x using assms(1) by (simp add: prom_laws_def)
  then show ?thesis using assms(2) by (simp add: agree_def vals_agree_def handles_ok_def Let_def)
qed

lemma handles_registry [simp]: "handles_ok key i (m\<lparr>pm_registry := r\<rparr>) = handles_ok key i m"
  by (simp add: handles_ok_def)

lemmas prom_ops = PrometheusMetrics_incRequest_def PrometheusMetrics_observeLatency_def
  PrometheusMetrics_incQuorumSuccess_def PrometheusMetrics_incQuorumFailure_def PrometheusMetrics_incReadRepair_def
  PrometheusMetrics_incHintStored_def PrometheusMetrics_incHintDelivered_def PrometheusMetrics_incAntiEntropySync_def
  PrometheusMetrics_incAntiEntropyKeysRepaired_def PrometheusMetrics_incMembershipSync_def
  PrometheusMetrics_setRingNodes_def PrometheusMetrics_incPoolConnectionCreated_def
  PrometheusMetrics_incPoolConnectionReused_def

lemma increment_val:
  assumes "prom_laws api fam key val" "val (pm_registry m) (key h) < 2 ^ 53"
  shows "val (pm_registry (increment api h m)) = (val (pm_registry m))(key h := Suc (val (pm_registry m) (key h)))"
  using assms by (simp add: increment_def prom_laws_def)

lemma prom_call_handles: "handles_ok key i (prom_call api c m) = handles_ok key i m"
  by (cases c) (simp_all add: prom_ops increment_def)

lemma same_total: "same k (total f) w \<Longrightarrow> f op \<le> k"
  by (cases op) (auto simp: same_def total_def)

lemma op_series_inj: "op_labels i op = op_labels i op' \<longleftrightarrow> op = op'"
  "outcome_labels i out op = outcome_labels i out' op' \<longleftrightarrow> op = op' \<and> out = out'"
  by (cases op; cases op'; simp add: op_labels_def outcome_labels_def)+

definition call_series :: "string \<Rightarrow> metrics_call \<Rightarrow> series option" where
  "call_series i c = (case c of
       IncRequest op \<Rightarrow> Some (''minidynamo_requests_total'', op_labels i op)
     | ObserveLatency op s \<Rightarrow> None
     | IncQuorumSuccess op \<Rightarrow> Some (''minidynamo_quorum_total'', outcome_labels i ''success'' op)
     | IncQuorumFailure op \<Rightarrow> Some (''minidynamo_quorum_total'', outcome_labels i ''failure'' op)
     | IncReadRepair \<Rightarrow> Some (''minidynamo_read_repair_total'', [(''node_id'', i)])
     | IncHintStored \<Rightarrow> Some (''minidynamo_hints_stored_total'', [(''node_id'', i)])
     | IncHintDelivered \<Rightarrow> Some (''minidynamo_hints_delivered_total'', [(''node_id'', i)])
     | IncAntiEntropySync \<Rightarrow> Some (''minidynamo_antientropy_syncs_total'', [(''node_id'', i)])
     | IncAntiEntropyKeysRepaired \<Rightarrow> Some (''minidynamo_antientropy_keys_repaired_total'', [(''node_id'', i)])
     | IncMembershipSync \<Rightarrow> Some (''minidynamo_membership_syncs_total'', [(''node_id'', i)])
     | SetRingNodes n \<Rightarrow> Some (''minidynamo_ring_physical_nodes'', [(''node_id'', i)])
     | IncPoolConnectionCreated \<Rightarrow> Some (''minidynamo_pool_connections_created_total'', [(''node_id'', i)])
     | IncPoolConnectionReused \<Rightarrow> Some (''minidynamo_pool_connections_reused_total'', [(''node_id'', i)]))"

definition call_value :: "metrics_call \<Rightarrow> nat \<Rightarrow> nat" where
  "call_value c v = (case c of SetRingNodes n \<Rightarrow> unat n | _ \<Rightarrow> Suc v)"

definition call_effect :: "string \<Rightarrow> metrics_call \<Rightarrow> (series \<Rightarrow> nat) \<Rightarrow> series \<Rightarrow> nat" where
  "call_effect i c v = (case call_series i c of None \<Rightarrow> v | Some s \<Rightarrow> v(s := call_value c (v s)))"

lemmas mem_ops = InMemoryMetrics_incRequest_def InMemoryMetrics_incQuorumSuccess_def
  InMemoryMetrics_incQuorumFailure_def InMemoryMetrics_incReadRepair_def InMemoryMetrics_incHintStored_def
  InMemoryMetrics_incHintDelivered_def InMemoryMetrics_incAntiEntropySync_def
  InMemoryMetrics_incAntiEntropyKeysRepaired_def InMemoryMetrics_incMembershipSync_def
  InMemoryMetrics_setRingNodes_def InMemoryMetrics_incPoolConnectionCreated_def
  InMemoryMetrics_incPoolConnectionReused_def

lemma vals_agree_call:
  assumes "vals_agree i k v im" "k < 2 ^ 53"
  shows "vals_agree i (Suc k) (call_effect i c v) (mem_call c im)"
proof -
  note simps = vals_agree_def call_effect_def call_series_def call_value_def Let_def mem_ops same_mono same_inc
    op_series_inj total_def
  show ?thesis
  proof (cases c)
    case (IncRequest op)
    then show ?thesis using assms by (cases op) (simp_all add: simps)
  next
    case (IncQuorumSuccess op)
    then show ?thesis using assms by (cases op) (simp_all add: simps)
  next
    case (IncQuorumFailure op)
    then show ?thesis using assms by (cases op) (simp_all add: simps)
  qed (use assms in \<open>simp_all add: simps\<close>)
qed

definition small_call :: "metrics_call \<Rightarrow> bool" where
  "small_call c \<longleftrightarrow> (case c of SetRingNodes n \<Rightarrow> unat n < 2 ^ 53 | _ \<Rightarrow> True)"

lemma vals_small:
  assumes "vals_agree i k v im" "call_series i c = Some s" "\<forall>n. c \<noteq> SetRingNodes n"
  shows "v s \<le> k"
  using assms same_total [of k "\<lambda>op. v (''minidynamo_requests_total'', op_labels i op)"]
    same_total [of k "\<lambda>op. v (''minidynamo_quorum_total'', outcome_labels i ''success'' op)"]
    same_total [of k "\<lambda>op. v (''minidynamo_quorum_total'', outcome_labels i ''failure'' op)"]
  by (cases c) (auto simp: vals_agree_def call_series_def Let_def same_def)

lemma prom_call_effect:
  assumes laws: "prom_laws api fam key val" and ok: "handles_ok key i m"
    and ag: "vals_agree i k (val (pm_registry m)) im" and "k < 2 ^ 53" "small_call c"
  shows "val (pm_registry (prom_call api c m)) = call_effect i c (val (pm_registry m))"
proof -
  have inc: "val (pm_registry (increment api h m)) = call_effect i c (val (pm_registry m))"
    if s: "call_series i c = Some (key h)" and n: "\<forall>n. c \<noteq> SetRingNodes n" for h
  proof -
    have "val (pm_registry m) (key h) < 2 ^ 53"
      using vals_small [OF ag s n] assms(4) by simp
    from increment_val [where val = val, OF laws this] show ?thesis
      using s n by (cases c) (auto simp: call_effect_def call_value_def)
  qed
  have set: "val (prom_set api r x v) = (val r)(key x := v)" "val (prom_observe api r x t) = val r" for r x v t
    using laws by (simp_all add: prom_laws_def)
  show ?thesis
    using ok assms(5)
    by (cases c)
      (simp_all add: prom_ops inc call_series_def handles_ok_def set call_effect_def call_value_def small_call_def double_exact)
qed

lemma calls_agree:
  assumes laws: "prom_laws api fam key val" and "handles_ok key i m" "vals_agree i k (val (pm_registry m)) im"
    and "k + length cs \<le> 2 ^ 53" "\<forall>c \<in> set cs. small_call c"
  shows "handles_ok key i (fold (prom_call api) cs m) \<and>
    vals_agree i (k + length cs) (val (pm_registry (fold (prom_call api) cs m))) (fold mem_call cs im)"
  using assms(2-)
proof (induction cs arbitrary: k m im)
  case (Cons c cs)
  have k: "k < 2 ^ 53" using Cons.prems(3) by simp
  have "val (pm_registry (prom_call api c m)) = call_effect i c (val (pm_registry m))"
    using prom_call_effect [OF laws Cons.prems(1,2) k] Cons.prems(4) by simp
  then have "vals_agree i (Suc k) (val (pm_registry (prom_call api c m))) (mem_call c im)"
    using vals_agree_call [OF Cons.prems(2) k] by simp
  from Cons.IH [OF _ this] Cons.prems show ?case by (simp add: prom_call_handles)
qed simp

lemma agree_new:
  assumes laws: "prom_laws api fam key val" and "val r = (\<lambda>_. 0)"
  shows "vals_agree i 0 (val (pm_registry (PrometheusMetrics_new api r a i))) InMemoryMetrics_new"
  using new_handles(2) [OF laws, of r a i] assms(2)
  by (simp add: vals_agree_def InMemoryMetrics_new_def same_def total_def)

section \<open>Properties\<close>

text \<open>C18: the Prometheus backend reports what the in-memory backend reports.  From a fresh registry
  and after any sequence of calls of the metrics interface, as long as the values fit a double,
  every count and the ring gauge agree, and the series by operation add up to the totals.\<close>

theorem prometheus_refines_in_memory:
  assumes "prom_laws api fam key val" "val r = (\<lambda>_. 0)" "length cs \<le> 2 ^ 53" "\<forall>c \<in> set cs. small_call c"
    and m: "m = fold (prom_call api) cs (PrometheusMetrics_new api r bind_address i)"
    and im: "im = fold mem_call cs InMemoryMetrics_new"
  shows "PrometheusMetrics_readRepairCount api m = read_repair im \<and>
    PrometheusMetrics_hintStoredCount api m = hints_stored im \<and>
    PrometheusMetrics_hintDeliveredCount api m = hints_delivered im \<and>
    PrometheusMetrics_antiEntropySyncCount api m = ae_syncs im \<and>
    PrometheusMetrics_antiEntropyKeysRepairedCount api m = ae_keys_repaired im \<and>
    PrometheusMetrics_poolConnectionCreatedCount api m = pool_created im \<and>
    PrometheusMetrics_poolConnectionReusedCount api m = pool_reused im \<and>
    PrometheusMetrics_membershipSyncCount api m = membership_syncs im \<and>
    PrometheusMetrics_ringNodesCount api m = ring_nodes im \<and>
    total (\<lambda>op. prom_value api (pm_registry m) (pm_requests m ! idx op)) = unat (requests im) \<and>
    total (\<lambda>op. prom_value api (pm_registry m) (pm_quorum_ok m ! idx op)) = unat (quorum_ok im) \<and>
    total (\<lambda>op. prom_value api (pm_registry m) (pm_quorum_fail m ! idx op)) = unat (quorum_fail im)"
proof -
  have h: "handles_ok key i m" "vals_agree i (0 + length cs) (val (pm_registry m)) im"
    using calls_agree [OF assms(1) new_handles(1) [OF assms(1)] agree_new [OF assms(1,2)], of cs] assms(3,4) m im by simp_all
  then have "agree api (length cs) m im" using agree_val [OF assms(1) h(1)] by simp
  moreover have "same k v w \<Longrightarrow> word_of_nat v = w" for k v w by (simp add: same_def)
  ultimately show ?thesis
    by (auto simp: agree_def Let_def read_count_def u64_of_double_def PrometheusMetrics_readRepairCount_def
        PrometheusMetrics_hintStoredCount_def PrometheusMetrics_hintDeliveredCount_def
        PrometheusMetrics_antiEntropySyncCount_def PrometheusMetrics_antiEntropyKeysRepairedCount_def
        PrometheusMetrics_poolConnectionCreatedCount_def PrometheusMetrics_poolConnectionReusedCount_def
        PrometheusMetrics_membershipSyncCount_def PrometheusMetrics_ringNodesCount_def same_def)
qed

text \<open>A library that keeps a table of series.\<close>

definition ex_prom :: "(series \<Rightarrow> nat, string, series) prom_api" where
  "ex_prom =
     \<lparr>prom_register = (\<lambda>k n h. State_Monad.return n), prom_add = (\<lambda>f l. State_Monad.return (f, l)),
      prom_add_histogram = (\<lambda>f l bs. State_Monad.return (f, l)),
      prom_increment = (\<lambda>r h. r(h := Suc (r h))), prom_set = (\<lambda>r h v. r(h := v)), prom_value = (\<lambda>r h. r h),
      prom_observe = (\<lambda>r h s. r), prom_expose = (\<lambda>r a. r)\<rparr>"

lemma ex_prom_laws: "prom_laws ex_prom id id id"
  by (simp add: prom_laws_def ex_prom_def)

theorem prometheus_refines_in_memory_witness:
  "let cs = [IncRequest Op.Put, IncHintStored, SetRingNodes 3, IncRequest Op.Get, IncHintStored];
       m = fold (prom_call ex_prom) cs (PrometheusMetrics_new ex_prom (\<lambda>_. 0) ''0.0.0.0:9101'' ''n1'')
   in PrometheusMetrics_hintStoredCount ex_prom m = 2 \<and> PrometheusMetrics_ringNodesCount ex_prom m = 3 \<and>
      total (\<lambda>op. prom_value ex_prom (pm_registry m) (pm_requests m ! idx op)) = 2"
proof -
  let ?cs = "[IncRequest Op.Put, IncHintStored, SetRingNodes 3, IncRequest Op.Get, IncHintStored]"
  have "\<forall>c \<in> set ?cs. small_call c" by (simp add: small_call_def)
  from prometheus_refines_in_memory [OF ex_prom_laws _ _ this refl refl, of "\<lambda>_. 0" "''0.0.0.0:9101''" "''n1''"]
  show ?thesis by (simp add: InMemoryMetrics_new_def mem_ops)
qed

end
