(* ===== verification/Log.thy ===== *)
theory Log
  imports Prelude
begin

text \<open>
  log.h and log.cpp with the built-in backend: JSON string escaping, the field sets of the two
  kinds of event, and the emitted line.  The current time in ISO form is an argument.  (The spdlog
  backend formats the same fields through that library and is not modelled.)

  Reading an emitted line back with a reader of one-line JSON objects gives exactly the fields
  that were logged, whatever bytes the key and the outcome hold: no input can break out of its
  string or of its line.
\<close>

abbreviation quote_char :: char where
  "quote_char \<equiv> CHR 0x22"

abbreviation backslash :: char where
  "backslash \<equiv> CHR 0x5C"

abbreviation newline :: char where
  "newline \<equiv> CHR 0x0A"

section \<open>Escaping\<close>

definition hex_digit :: "nat \<Rightarrow> char" where
  "hex_digit n = (if n < 10 then char_of (48 + n) else char_of (87 + n))"

text \<open>\<open>%04x\<close> of a byte.\<close>

definition hex4 :: "nat \<Rightarrow> string" where
  "hex4 n = [CHR ''0'', CHR ''0'', hex_digit (n div 16), hex_digit (n mod 16)]"

definition jesc_char :: "char \<Rightarrow> string" where
  "jesc_char c =
     (if c = quote_char then [backslash, quote_char]
      else if c = backslash then [backslash, backslash]
      else if c = newline then [backslash, CHR ''n'']
      else if c = CHR 0x0D then [backslash, CHR ''r'']
      else if c = CHR 0x09 then [backslash, CHR ''t'']
      else if (of_char c :: nat) < 32 then [backslash, CHR ''u''] @ hex4 (of_char c)
      else [c])"

definition jesc :: "string \<Rightarrow> string" where
  "jesc s = concat (map jesc_char s)"

section \<open>Lines\<close>

definition quoted :: "string \<Rightarrow> string" where
  "quoted s = quote_char # s @ [quote_char]"

definition opFields :: "string \<Rightarrow> string \<Rightarrow> string \<Rightarrow> string" where
  "opFields operation key outcome =
     quoted ''operation'' @ '':'' @ quoted (jesc operation) @ '','' @
     quoted ''key'' @ '':'' @ quoted (jesc key) @ '','' @
     quoted ''outcome'' @ '':'' @ quoted (jesc outcome)"

definition msgFields :: "string \<Rightarrow> string" where
  "msgFields message = quoted ''msg'' @ '':'' @ quoted (jesc message)"

record jlog =
  g_node_id :: string
  log_out :: string

definition jlog_new :: jlog where
  "jlog_new = \<lparr>g_node_id = ''unknown'', log_out = []\<rparr>"

definition emit_line :: "string \<Rightarrow> string \<Rightarrow> string \<Rightarrow> string \<Rightarrow> string" where
  "emit_line now nid level flds =
     ''{'' @ quoted ''ts'' @ '':'' @ quoted now @ '','' @ quoted ''service'' @ '':'' @ quoted ''node'' @ '','' @
     quoted ''level'' @ '':'' @ quoted level @ '','' @
     quoted ''node_id'' @ '':'' @ quoted (jesc nid) @ '','' @ flds @ ''}'' @ [newline]"

definition emit :: "string \<Rightarrow> jlog \<Rightarrow> string \<Rightarrow> string \<Rightarrow> jlog" where
  "emit now g level flds = g\<lparr>log_out := log_out g @ emit_line now (g_node_id g) level flds\<rparr>"

definition jlog_init :: "jlog \<Rightarrow> string \<Rightarrow> jlog" where
  "jlog_init g nid = g\<lparr>g_node_id := nid\<rparr>"

definition jlog_op :: "string \<Rightarrow> jlog \<Rightarrow> string \<Rightarrow> string \<Rightarrow> string \<Rightarrow> string \<Rightarrow> jlog" where
  "jlog_op now g level operation key outcome = emit now g level (opFields operation key outcome)"

definition jlog_msg :: "string \<Rightarrow> jlog \<Rightarrow> string \<Rightarrow> string \<Rightarrow> jlog" where
  "jlog_msg now g level message = emit now g level (msgFields message)"

section \<open>A reader of flat JSON objects\<close>

definition hex_value :: "char \<Rightarrow> nat option" where
  "hex_value c =
     (let n = of_char c :: nat
      in if 48 \<le> n \<and> n \<le> 57 then Some (n - 48)
         else if 97 \<le> n \<and> n \<le> 102 then Some (n - 87) else None)"

definition read_hex4 :: "char \<Rightarrow> char \<Rightarrow> char \<Rightarrow> char \<Rightarrow> char option" where
  "read_hex4 a b x y =
     (case (hex_value a, hex_value b, hex_value x, hex_value y) of
        (Some a, Some b, Some x, Some y) \<Rightarrow>
          if a = 0 \<and> b = 0 then Some (char_of (16 * x + y)) else None
      | _ \<Rightarrow> None)"

definition read_escape :: "char \<Rightarrow> char option" where
  "read_escape c =
     (if c = quote_char \<or> c = backslash then Some c
      else if c = CHR ''n'' then Some newline
      else if c = CHR ''r'' then Some (CHR 0x0D)
      else if c = CHR ''t'' then Some (CHR 0x09)
      else None)"

text \<open>The rest of a string literal after its opening quote: its content and what follows it.  A
  raw control character ends the parse.\<close>

fun read_string :: "string \<Rightarrow> (string \<times> string) option" where
  "read_string [] = None"
| "read_string (c # cs) =
     (if c = quote_char then Some ([], cs)
      else if c = backslash then
        (case cs of
           [] \<Rightarrow> None
         | d # ds \<Rightarrow>
             if d = CHR ''u'' then
               (case ds of
                  a # b # x # y # rest \<Rightarrow>
                    (case (read_hex4 a b x y, read_string rest) of
                       (Some e, Some (s, r)) \<Rightarrow> Some (e # s, r) | _ \<Rightarrow> None)
                | _ \<Rightarrow> None)
             else (case (read_escape d, read_string ds) of
                     (Some e, Some (s, r)) \<Rightarrow> Some (e # s, r) | _ \<Rightarrow> None))
      else if (of_char c :: nat) < 32 then None
      else (case read_string cs of None \<Rightarrow> None | Some (s, r) \<Rightarrow> Some (c # s, r)))"

text \<open>The members of an object up to its closing brace, with a bound on their number.\<close>

definition expect :: "char \<Rightarrow> string \<Rightarrow> string option" where
  "expect c cs = (case cs of [] \<Rightarrow> None | d # ds \<Rightarrow> if d = c then Some ds else None)"

definition read_literal :: "string \<Rightarrow> (string \<times> string) option" where
  "read_literal cs = Option.bind (expect quote_char cs) read_string"

fun read_members :: "nat \<Rightarrow> string \<Rightarrow> ((string \<times> string) list \<times> string) option" where
  "read_members 0 cs = None"
| "read_members (Suc n) cs =
     (case read_literal cs of
        None \<Rightarrow> None
      | Some (k, cs) \<Rightarrow>
          (case Option.bind (expect (CHR '':'') cs) read_literal of
             None \<Rightarrow> None
           | Some (v, cs) \<Rightarrow>
               (case cs of
                  [] \<Rightarrow> None
                | d # ds \<Rightarrow>
                    if d = CHR ''}'' then Some ([(k, v)], ds)
                    else if d = CHR '','' then
                      (case read_members n ds of None \<Rightarrow> None | Some (ms, r) \<Rightarrow> Some ((k, v) # ms, r))
                    else None)))"

definition read_object :: "string \<Rightarrow> ((string \<times> string) list \<times> string) option" where
  "read_object cs = Option.bind (expect (CHR ''{'') cs) (read_members (length cs))"

section \<open>Reading back\<close>

lemma hex_digit_value: "n < 16 \<Longrightarrow> hex_value (hex_digit n) = Some n"
  by (simp add: hex_value_def hex_digit_def Let_def)

lemma read_hex4_hex4:
  assumes "(of_char c :: nat) < 32"
  shows "\<exists>x y. hex4 (of_char c) = [CHR ''0'', CHR ''0'', x, y] \<and> read_hex4 (CHR ''0'') (CHR ''0'') x y = Some c"
proof -
  have "hex_value (CHR ''0'') = Some 0" by code_simp
  then show ?thesis using assms hex_digit_value [of "of_char c div 16"] hex_digit_value [of "of_char c mod 16"]
    by (simp add: hex4_def read_hex4_def)
qed

lemma plain_char:
  assumes "32 \<le> (of_char c :: nat)" "c \<noteq> quote_char" "c \<noteq> backslash"
  shows "jesc_char c = [c]"
proof -
  have "c \<noteq> newline" "c \<noteq> CHR 0x0D" "c \<noteq> CHR 0x09" using assms(1) by auto
  then show ?thesis using assms by (simp add: jesc_char_def)
qed

lemma read_escaped:
  "read_string cs = Some (s, r) \<Longrightarrow> d \<noteq> CHR ''u'' \<Longrightarrow> read_escape d = Some c \<Longrightarrow>
     read_string (backslash # d # cs) = Some (c # s, r)"
  by simp

lemma read_char:
  assumes "read_string cs = Some (s, r)"
  shows "read_string (jesc_char c @ cs) = Some (c # s, r)"
proof -
  consider "c \<in> {quote_char, backslash, newline, CHR 0x0D, CHR 0x09}"
    | "c \<notin> {quote_char, backslash, newline, CHR 0x0D, CHR 0x09}" "(of_char c :: nat) < 32"
    | "c \<noteq> quote_char" "c \<noteq> backslash" "32 \<le> (of_char c :: nat)"
    by force
  then show ?thesis
  proof cases
    case 1
    then show ?thesis
      by (elim insertE emptyE; simp add: jesc_char_def del: read_string.simps;
          intro read_escaped [OF assms]; simp add: read_escape_def)
  next
    case 2
    then obtain x y where "hex4 (of_char c) = [CHR ''0'', CHR ''0'', x, y]"
      "read_hex4 (CHR ''0'') (CHR ''0'') x y = Some c" using read_hex4_hex4 by blast
    with 2 assms show ?thesis by (simp add: jesc_char_def)
  next
    case 3
    with assms show ?thesis by (simp add: plain_char)
  qed
qed

lemma read_jesc: "read_string (jesc s @ quote_char # r) = Some (s, r)"
  by (induction s) (auto simp: jesc_def read_char)

text \<open>Text that the envelope prints unescaped.\<close>

definition plain :: "string \<Rightarrow> bool" where
  "plain s \<longleftrightarrow> (\<forall>c \<in> set s. 32 \<le> (of_char c :: nat) \<and> c \<noteq> quote_char \<and> c \<noteq> backslash)"

lemma plain_jesc: "plain s \<Longrightarrow> jesc s = s"
  by (induction s) (simp_all add: plain_def jesc_def plain_char)

lemma read_quoted: "read_literal (quoted (jesc s) @ r) = Some (s, r)"
  by (simp add: read_literal_def expect_def quoted_def read_jesc)

lemma read_plain: "plain s \<Longrightarrow> read_literal (quoted s @ r) = Some (s, r)"
  by (metis plain_jesc read_quoted)

lemma read_member:
  assumes "plain k" "d = CHR '','' \<or> d = CHR ''}''"
  shows "read_members (Suc n) (quoted k @ CHR '':'' # quoted (jesc v) @ d # r) =
    (if d = CHR ''}'' then Some ([(k, v)], r)
     else case read_members n r of None \<Rightarrow> None | Some (ms, r) \<Rightarrow> Some ((k, v) # ms, r))"
  using assms by (auto simp: read_plain expect_def read_quoted)

section \<open>Properties\<close>

text \<open>The members that an operation event carries, and those of a free-form event.\<close>

definition envelope :: "string \<Rightarrow> string \<Rightarrow> string \<Rightarrow> (string \<times> string) list" where
  "envelope now level nid =
     [(''ts'', now), (''service'', ''node''), (''level'', level), (''node_id'', nid)]"

lemma names_plain:
  "plain ''ts''" "plain ''service''" "plain ''level''" "plain ''node_id''" "plain ''node''" "plain ''msg''"
  "plain ''operation''" "plain ''key''" "plain ''outcome''"
  by code_simp+

fun print_members :: "(string \<times> string) list \<Rightarrow> string" where
  "print_members [] = []"
| "print_members [(k, v)] = quoted k @ '':'' @ quoted (jesc v)"
| "print_members ((k, v) # ms) = quoted k @ '':'' @ quoted (jesc v) @ '','' @ print_members ms"

lemma read_print_members:
  assumes "ms \<noteq> []" "\<forall>(k, v) \<in> set ms. plain k" "length ms \<le> n"
  shows "read_members n (print_members ms @ CHR ''}'' # r) = Some (ms, r)"
  using assms
proof (induction ms arbitrary: n rule: print_members.induct)
  case (2 k v)
  then obtain m where "n = Suc m" by (cases n) auto
  with 2 show ?case using read_member [of k "CHR ''}''" m v r] by simp
next
  case (3 k v m ms)
  then obtain n' where n: "n = Suc n'" by (cases n) auto
  with 3 show ?case
    using read_member [of k "CHR '',''" n' v "print_members (m # ms) @ CHR ''}'' # r"] by simp
qed simp

lemma line_members:
  assumes "plain now" "plain level"
  shows "emit_line now nid level (opFields operation key outcome) =
      CHR ''{'' # print_members (envelope now level nid @
        [(''operation'', operation), (''key'', key), (''outcome'', outcome)]) @ CHR ''}'' # [newline]"
    "emit_line now nid level (msgFields message) =
      CHR ''{'' # print_members (envelope now level nid @ [(''msg'', message)]) @ CHR ''}'' # [newline]"
  using assms names_plain(5)
  by (simp_all add: emit_line_def opFields_def msgFields_def envelope_def plain_jesc)

lemma read_printed:
  assumes "ms \<noteq> []" "\<forall>(k, v) \<in> set ms. plain k"
  shows "read_object (CHR ''{'' # print_members ms @ CHR ''}'' # r) = Some (ms, r)"
proof -
  have "length ms \<le> length (print_members ms)"
    by (induction ms rule: print_members.induct) (auto simp: quoted_def)
  then show ?thesis using assms by (simp del: read_members.simps add: read_object_def expect_def read_print_members)
qed

lemma hex4_one_line: "n < 32 \<Longrightarrow> newline \<notin> set (hex4 n)"
proof -
  assume n: "n < 32"
  have digit: "newline \<noteq> hex_digit d" if "d < 16" for d
  proof
    assume "newline = hex_digit d"
    then have "hex_value newline = Some d" using hex_digit_value [OF that] by simp
    then show False by (simp add: hex_value_def)
  qed
  show ?thesis using digit [of "n div 16"] digit [of "n mod 16"] n by (simp add: hex4_def)
qed

lemma jesc_char_one_line: "newline \<notin> set (jesc_char c)"
  using hex4_one_line [of "of_char c"] by (simp add: jesc_char_def)

lemma jesc_one_line: "newline \<notin> set (jesc s)"
  by (simp add: jesc_def jesc_char_one_line)

lemma plain_one_line: "plain s \<Longrightarrow> newline \<notin> set s"
  using jesc_one_line [of s] by (simp add: plain_jesc)

lemma quoted_one_line: "newline \<notin> set s \<Longrightarrow> newline \<notin> set (quoted s)"
  by (simp add: quoted_def)

lemma print_members_one_line: "\<forall>(k, v) \<in> set ms. plain k \<Longrightarrow> newline \<notin> set (print_members ms)"
  by (induction ms rule: print_members.induct)
    (simp_all add: quoted_one_line jesc_one_line plain_one_line)

text \<open>Log lines survive hostile input.  Whatever bytes the node id, the operation, the key and
  the outcome hold, an operation event appends one line to the output, with no newline before
  its last character, and reading that line back as a JSON object yields exactly the seven
  fields that were logged and nothing else.\<close>

theorem log_line_roundtrip:
  assumes "plain now" "plain level"
  shows "\<exists>line. log_out (jlog_op now g level operation key outcome) = log_out g @ line @ [newline] \<and>
    newline \<notin> set line \<and>
    read_object line = Some ([(''ts'', now), (''service'', ''node''), (''level'', level), (''node_id'', g_node_id g),
      (''operation'', operation), (''key'', key), (''outcome'', outcome)], [])"
proof -
  let ?ms = "envelope now level (g_node_id g) @ [(''operation'', operation), (''key'', key), (''outcome'', outcome)]"
  have ms: "?ms \<noteq> []" "\<forall>(k, v) \<in> set ?ms. plain k" using names_plain by (auto simp: envelope_def)
  have "newline \<notin> set (CHR ''{'' # print_members ?ms @ CHR ''}'' # [])"
    using print_members_one_line [OF ms(2)] by simp
  then show ?thesis
    using line_members(1) [OF assms] read_printed [OF ms, of "[]"]
    by (intro exI [of _ "CHR ''{'' # print_members ?ms @ CHR ''}'' # []"])
      (simp add: jlog_op_def emit_def envelope_def)
qed

theorem log_line_roundtrip_witness:
  "\<exists>line. log_out (jlog_op ''2026-01-01T00:00:00.000Z'' (jlog_init jlog_new ''n1'') ''info'' ''put'' [quote_char, newline] ''ok'') =
      line @ [newline] \<and>
    map_option (map snd \<circ> fst) (read_object line) =
      Some [''2026-01-01T00:00:00.000Z'', ''node'', ''info'', ''n1'', ''put'', [quote_char, newline], ''ok'']"
proof -
  have "plain ''2026-01-01T00:00:00.000Z''" "plain ''info''" by (simp_all add: plain_def)
  from log_line_roundtrip [OF this, of "jlog_init jlog_new ''n1''" "''put''" "[quote_char, newline]" "''ok''"]
  obtain line where line: "log_out (jlog_op ''2026-01-01T00:00:00.000Z'' (jlog_init jlog_new ''n1'') ''info'' ''put''
        [quote_char, newline] ''ok'') = log_out (jlog_init jlog_new ''n1'') @ line @ [newline]"
      "read_object line = Some ([(''ts'', ''2026-01-01T00:00:00.000Z''), (''service'', ''node''), (''level'', ''info''),
        (''node_id'', g_node_id (jlog_init jlog_new ''n1'')), (''operation'', ''put''), (''key'', [quote_char, newline]),
        (''outcome'', ''ok'')], [])"
    by blast
  have "log_out (jlog_init jlog_new ''n1'') = []" "g_node_id (jlog_init jlog_new ''n1'') = ''n1''"
    by (simp_all add: jlog_init_def jlog_new_def)
  with line show ?thesis by (intro exI [of _ line] conjI) simp_all
qed

end
